(* ===== verification/Prelude.thy ===== *)
theory Prelude
  imports Main "HOL-Library.Word"
begin

unbundle bit_operations_syntax

text \<open>
  Shared ground of the broker development: the machine integers and strings the Rust code
  uses, what the code takes from Rust's standard library (UTF-8 validation, decimal
  formatting, \<open>str::split\<close>, \<open>str::find\<close>, big-endian \<open>u16\<close>s), the sequencing
  of fallible readers (the operator \<open>?\<close> on a cursor \<open>&mut &[u8]\<close>), and the locale of
  prefix codecs on which the wire-format proofs rest.
\<close>

section \<open>Types and collections\<close>

type_synonym u8 = "8 word"
type_synonym u16 = "16 word"

text \<open>A Rust \<open>String\<close> is its UTF-8 byte sequence; \<open>len\<close> and equality are on bytes.\<close>

type_synonym rstring = "u8 list"

named_theorems reader_iff \<open>inversion rules for successful readers\<close>
named_theorems consumes \<open>a successful reader leaves fewer bytes\<close>
named_theorems wire \<open>reading back what has been written\<close>

definition bytes_of :: "string \<Rightarrow> u8 list" where
  "bytes_of s = map (\<lambda>c. of_nat (of_char c)) s"

section \<open>Decimal formatting\<close>

text \<open>\<open>format!("{}", n)\<close> of an unsigned integer.\<close>

fun show_nat :: "nat \<Rightarrow> string" where
  "show_nat n =
     (if n < 10 then [char_of (48 + n)] else show_nat (n div 10) @ [char_of (48 + n mod 10)])"

declare show_nat.simps [simp del]

section \<open>UTF-8 validation\<close>

text \<open>
  \<open>String::from_utf8\<close>: the error is \<open>(valid_up_to, error_len)\<close>, where
  \<open>error_len = None\<close> says that the input ends inside a character.
\<close>

definition is_cont :: "u8 \<Rightarrow> bool" where
  "is_cont b \<longleftrightarrow> b AND 0xC0 = 0x80"

definition second_of_3 :: "u8 \<Rightarrow> u8 \<Rightarrow> bool" where
  "second_of_3 b c \<longleftrightarrow>
     (if b = 0xE0 then 0xA0 \<le> c \<and> c \<le> 0xBF
      else if b = 0xED then 0x80 \<le> c \<and> c \<le> 0x9F
      else 0x80 \<le> c \<and> c \<le> 0xBF)"

definition second_of_4 :: "u8 \<Rightarrow> u8 \<Rightarrow> bool" where
  "second_of_4 b c \<longleftrightarrow>
     (if b = 0xF0 then 0x90 \<le> c \<and> c \<le> 0xBF
      else if b = 0xF4 then 0x80 \<le> c \<and> c \<le> 0x8F
      else 0x80 \<le> c \<and> c \<le> 0xBF)"

fun utf8_error :: "nat \<Rightarrow> u8 list \<Rightarrow> (nat \<times> nat option) option" where
  "utf8_error i [] = None"
| "utf8_error i (b # bs) =
     (if b < 0x80 then utf8_error (i + 1) bs
      else if 0xC2 \<le> b \<and> b \<le> 0xDF then
        (case bs of
           [] \<Rightarrow> Some (i, None)
         | c1 # bs1 \<Rightarrow> if is_cont c1 then utf8_error (i + 2) bs1 else Some (i, Some 1))
      else if 0xE0 \<le> b \<and> b \<le> 0xEF then
        (case bs of
           [] \<Rightarrow> Some (i, None)
         | c1 # bs1 \<Rightarrow>
             if \<not> second_of_3 b c1 then Some (i, Some 1)
             else (case bs1 of
                     [] \<Rightarrow> Some (i, None)
                   | c2 # bs2 \<Rightarrow>
                       if is_cont c2 then utf8_error (i + 3) bs2 else Some (i, Some 2)))
      else if 0xF0 \<le> b \<and> b \<le> 0xF4 then
        (case bs of
           [] \<Rightarrow> Some (i, None)
         | c1 # bs1 \<Rightarrow>
             if \<not> second_of_4 b c1 then Some (i, Some 1)
             else (case bs1 of
                     [] \<Rightarrow> Some (i, None)
                   | c2 # bs2 \<Rightarrow>
                       if \<not> is_cont c2 then Some (i, Some 2)
                       else (case bs2 of
                               [] \<Rightarrow> Some (i, None)
                             | c3 # bs3 \<Rightarrow>
                                 if is_cont c3 then utf8_error (i + 4) bs3
                                 else Some (i, Some 3))))
      else Some (i, Some 1))"

definition utf8_valid :: "u8 list \<Rightarrow> bool" where
  "utf8_valid bs \<longleftrightarrow> utf8_error 0 bs = None"

text \<open>\<open>Display\<close> of \<open>FromUtf8Error\<close>.\<close>

definition show_utf8_error :: "nat \<times> nat option \<Rightarrow> string" where
  "show_utf8_error e =
     (case e of
        (i, Some n) \<Rightarrow>
          ''invalid utf-8 sequence of '' @ show_nat n @ '' bytes from index '' @ show_nat i
      | (i, None) \<Rightarrow> ''incomplete utf-8 byte sequence from index '' @ show_nat i)"

definition from_utf8 :: "u8 list \<Rightarrow> (nat \<times> nat option) + rstring" where
  "from_utf8 bs = (case utf8_error 0 bs of None \<Rightarrow> Inr bs | Some e \<Rightarrow> Inl e)"

lemma from_utf8_Inr [simp]: "from_utf8 bs = Inr s \<longleftrightarrow> s = bs \<and> utf8_valid bs"
  by (auto simp: from_utf8_def utf8_valid_def split: option.splits)

lemma from_utf8_valid: "utf8_valid bs \<Longrightarrow> from_utf8 bs = Inr bs"
  by simp

text \<open>The verdict does not depend on the start index, and ASCII text is valid.\<close>

lemma utf8_error_ascii: "(\<And>b. b \<in> set bs \<Longrightarrow> b < 0x80) \<Longrightarrow> utf8_error i bs = None"
  by (induction bs arbitrary: i) simp_all

lemma utf8_valid_ascii: "(\<And>b. b \<in> set bs \<Longrightarrow> b < 0x80) \<Longrightarrow> utf8_valid bs"
  by (simp add: utf8_valid_def utf8_error_ascii)

section \<open>String searching\<close>

text \<open>\<open>s.split(d)\<close> for a one-byte separator: always at least one part.\<close>

fun split_on :: "u8 \<Rightarrow> rstring \<Rightarrow> rstring list" where
  "split_on d [] = [[]]"
| "split_on d (b # bs) =
     (if b = d then [] # split_on d bs
      else (case split_on d bs of [] \<Rightarrow> [[b]] | p # ps \<Rightarrow> (b # p) # ps))"

fun join_with :: "u8 \<Rightarrow> rstring list \<Rightarrow> rstring" where
  "join_with d [] = []"
| "join_with d [p] = p"
| "join_with d (p # q # ps) = p @ d # join_with d (q # ps)"

text \<open>\<open>s.find(c)\<close> for a one-byte pattern.\<close>

fun find_byte :: "u8 \<Rightarrow> rstring \<Rightarrow> nat option" where
  "find_byte c [] = None"
| "find_byte c (b # bs) = (if b = c then Some 0 else map_option Suc (find_byte c bs))"

definition ends_with :: "rstring \<Rightarrow> u8 \<Rightarrow> bool" where
  "ends_with s c \<longleftrightarrow> s \<noteq> [] \<and> last s = c"

lemma split_on_not_Nil [simp]: "split_on d s \<noteq> []"
  by (induction s) (auto split: list.splits)

lemma join_split [simp]: "join_with d (split_on d s) = s"
proof (induction s)
  case (Cons b s)
  then show ?case
    by (cases "split_on d s"; cases "tl (split_on d s)") auto
qed simp

lemma split_on_no_sep: "p \<in> set (split_on d s) \<Longrightarrow> d \<notin> set p"
proof (induction s arbitrary: p)
  case (Cons b s)
  then show ?case
    by (cases "split_on d s") (auto split: if_splits)
qed simp

lemma split_on_single: "d \<notin> set p \<Longrightarrow> split_on d p = [p]"
  by (induction p) auto

lemma split_on_append: "d \<notin> set p \<Longrightarrow> split_on d (p @ d # s) = p # split_on d s"
  by (induction p) auto

lemma split_join:
  "ps \<noteq> [] \<Longrightarrow> (\<And>p. p \<in> set ps \<Longrightarrow> d \<notin> set p) \<Longrightarrow> split_on d (join_with d ps) = ps"
  by (induction d ps rule: join_with.induct) (auto simp: split_on_single split_on_append)

section \<open>Big-endian integers\<close>

definition u16_from_be_bytes :: "u8 \<Rightarrow> u8 \<Rightarrow> u16" where
  "u16_from_be_bytes a b = push_bit 8 (ucast a) OR ucast b"

definition u16_to_be_bytes :: "u16 \<Rightarrow> u8 list" where
  "u16_to_be_bytes x = [ucast (drop_bit 8 x), ucast x]"

lemma length_u16_to_be_bytes [simp]: "length (u16_to_be_bytes x) = 2"
  by (simp add: u16_to_be_bytes_def)

lemma u16_be_roundtrip [simp]: "u16_from_be_bytes (ucast (drop_bit 8 x)) (ucast x) = x"
  unfolding u16_from_be_bytes_def
  by (rule bit_word_eqI) (auto simp: bit_simps)

lemma bit_u8_high: "\<not> bit (b :: u8) (8 + n)"
  using bit_imp_le_length [of b "8 + n"] by auto

lemma u16_be_roundtrip2: "u16_to_be_bytes (u16_from_be_bytes a b) = [a, b]"
  unfolding u16_from_be_bytes_def u16_to_be_bytes_def
  by (auto intro!: bit_word_eqI simp: bit_simps bit_u8_high)

lemma unat_u16_length [simp]: "n < 65536 \<Longrightarrow> unat (of_nat n :: u16) = n"
  by (simp add: unat_of_nat take_bit_nat_eq_self)

lemma unat_u16_bound: "unat (x :: u16) < 65536"
  using unsigned_less [where ?'a = nat, of x] by simp

section \<open>Readers\<close>

text \<open>
  A reader gets the bytes its cursor points at and returns an error or a value together with
  the bytes left. After an error the code never looks at the cursor again: every caller
  returns the error, so the position at the error is not part of the result.
  \<open>and_then p k\<close> is \<open>let x = p(src)?; k(x)\<close>.
\<close>

type_synonym ('e, 'a) reader = "u8 list \<Rightarrow> 'e + 'a \<times> u8 list"

definition and_then :: "('e, 'a) reader \<Rightarrow> ('a \<Rightarrow> ('e, 'b) reader) \<Rightarrow> ('e, 'b) reader" where
  "and_then p k s = (case p s of Inl e \<Rightarrow> Inl e | Inr (x, s') \<Rightarrow> k x s')"

definition ok :: "'a \<Rightarrow> ('e, 'a) reader" where
  "ok x s = Inr (x, s)"

definition fail :: "'e \<Rightarrow> ('e, 'a) reader" where
  "fail e s = Inl e"

lemma ok_Inr [reader_iff]: "ok x s = Inr r \<longleftrightarrow> r = (x, s)"
  by (auto simp: ok_def)

lemma fail_Inr [reader_iff]: "fail e s = Inr r \<longleftrightarrow> False"
  by (simp add: fail_def)

lemma and_then_Inr [reader_iff]:
  "and_then p k s = Inr r \<longleftrightarrow> (\<exists>x s'. p s = Inr (x, s') \<and> k x s' = Inr r)"
  by (auto simp: and_then_def split: sum.splits)

lemma and_then_run [simp]: "p s = Inr (x, s') \<Longrightarrow> and_then p k s = k x s'"
  by (simp add: and_then_def)

lemma and_then_fail [simp]: "p s = Inl e \<Longrightarrow> and_then p k s = Inl e"
  by (simp add: and_then_def)

lemma ok_run [simp]: "ok x s = Inr (x, s)"
  by (simp add: ok_def)

lemma fail_run [simp]: "fail e s = Inl e"
  by (simp add: fail_def)

section \<open>The interface of a wire format\<close>

text \<open>
  A prefix codec writes each valid value as bytes which its reader recognises at the front
  of any input, returning exactly the bytes behind them. The reading loops of the decoder
  (\<open>while !src.is_empty()\<close>) use their item reader through this contract only.
\<close>

locale prefix_codec =
  fixes put :: "'a \<Rightarrow> u8 list"
    and get :: "('e, 'a) reader"
    and valid :: "'a \<Rightarrow> bool"
  assumes get_put: "valid x \<Longrightarrow> get (put x @ rest) = Inr (x, rest)"
begin

lemma get_put_all: "valid x \<Longrightarrow> get (put x) = Inr (x, [])"
  using get_put [of x "[]"] by simp

text \<open>No two valid values share an encoding, even when other bytes follow.\<close>

lemma put_inj:
  assumes "valid x" and "valid y" and "put x @ r = put y @ r'"
  shows "x = y \<and> r = r'"
proof -
  have "get (put x @ r) = Inr (x, r)"
    by (rule get_put [OF assms(1)])
  moreover have "get (put x @ r) = Inr (y, r')"
    unfolding assms(3) by (rule get_put [OF assms(2)])
  ultimately show ?thesis by simp
qed

end

text \<open>
  A reading loop over such items: it stops on empty input and otherwise reads one more item;
  a valid item takes at least one byte.
\<close>

locale codec_loop = prefix_codec put get valid
  for put :: "'a \<Rightarrow> u8 list"
    and get :: "('e, 'a) reader"
    and valid :: "'a \<Rightarrow> bool" +
  fixes read_loop :: "'a list \<Rightarrow> ('e, 'a list) reader"
  assumes put_nonempty: "valid x \<Longrightarrow> put x \<noteq> []"
    and loop_end: "read_loop acc [] = Inr (acc, [])"
    and loop_next: "s \<noteq> [] \<Longrightarrow>
      read_loop acc s =
        (case get s of Inl e \<Rightarrow> Inl e | Inr (x, s') \<Rightarrow> read_loop (acc @ [x]) s')"
begin

lemma read_loop_puts:
  "list_all valid xs \<Longrightarrow> read_loop acc (concat (map put xs)) = Inr (acc @ xs, [])"
proof (induction xs arbitrary: acc)
  case Nil
  then show ?case by (simp add: loop_end)
next
  case (Cons x xs)
  then show ?case
    by (simp add: loop_next put_nonempty get_put)
qed

end

section \<open>Runs that keep an invariant\<close>

text \<open>
  The contract of a state machine whose steps keep an invariant; components instantiate it
  with their step function, and get the invariant for runs of any length.
\<close>

locale invariant_run =
  fixes step :: "'s \<Rightarrow> 'e \<Rightarrow> 's"
    and inv :: "'s \<Rightarrow> bool"
  assumes step_inv: "inv s \<Longrightarrow> inv (step s e)"
begin

lemma run_inv: "inv s \<Longrightarrow> inv (foldl step s es)"
  by (induction es arbitrary: s) (simp_all add: step_inv)

end

text \<open>The same for a step relation: the states reachable from the initial ones.\<close>

inductive reachable :: "('s \<Rightarrow> bool) \<Rightarrow> ('s \<Rightarrow> 's \<Rightarrow> bool) \<Rightarrow> 's \<Rightarrow> bool"
  for init :: "'s \<Rightarrow> bool" and step :: "'s \<Rightarrow> 's \<Rightarrow> bool" where
  start: "init s \<Longrightarrow> reachable init step s"
| next_state: "reachable init step s \<Longrightarrow> step s s' \<Longrightarrow> reachable init step s'"

locale inductive_invariant =
  fixes init :: "'s \<Rightarrow> bool"
    and step :: "'s \<Rightarrow> 's \<Rightarrow> bool"
    and inv :: "'s \<Rightarrow> bool"
  assumes init_inv: "init s \<Longrightarrow> inv s"
    and step_inv: "inv s \<Longrightarrow> step s s' \<Longrightarrow> inv s'"
begin

lemma reachable_inv: "reachable init step s \<Longrightarrow> inv s"
  by (induction rule: reachable.induct) (auto intro: init_inv step_inv)

end

end
