(* ===== verification/Protocol_Types.thy ===== *)
theory Protocol_Types
  imports Prelude
begin

text \<open>
  The protocol's data (\<open>src/src/protocol/types.rs\<close>) and the broker's error type
  (\<open>src/src/error.rs\<close>). Enums are datatypes with the source's variants, structs are
  records whose fields carry a prefix where two structs use the same field name. Strings are
  UTF-8 byte sequences, \<open>Vec<u8>\<close> a byte list, \<open>usize\<close> lengths are \<open>nat\<close>
  (their bounds are theorems of the decoder).
\<close>

section \<open>Errors\<close>

text \<open>An \<open>std::io::Error\<close> is represented by the text it displays.\<close>

datatype broker_error =
    Io string
  | Protocol string
  | Decode string
  | Encode string
  | Config string

fun display_error :: "broker_error \<Rightarrow> string" where
  "display_error (Io s) = ''IO error: '' @ s"
| "display_error (Protocol s) = ''Protocol error: '' @ s"
| "display_error (Decode s) = ''Decode error: '' @ s"
| "display_error (Encode s) = ''Encode error: '' @ s"
| "display_error (Config s) = ''Configuration error: '' @ s"

section \<open>Quality of service\<close>

datatype qos = AtMostOnce | AtLeastOnce | ExactlyOnce

fun qos_u8 :: "qos \<Rightarrow> u8" where
  "qos_u8 AtMostOnce = 0"
| "qos_u8 AtLeastOnce = 1"
| "qos_u8 ExactlyOnce = 2"

definition qos_try_from_u8 :: "u8 \<Rightarrow> qos option" where
  "qos_try_from_u8 v =
     (if v = 0 then Some AtMostOnce
      else if v = 1 then Some AtLeastOnce
      else if v = 2 then Some ExactlyOnce
      else None)"

lemma qos_u8_inj [simp]: "qos_u8 a = qos_u8 b \<longleftrightarrow> a = b"
  by (cases a; cases b) simp_all

text \<open>\<open>derive(PartialOrd, Ord)\<close>: the variants in declaration order.\<close>

instantiation qos :: linorder
begin

definition less_eq_qos :: "qos \<Rightarrow> qos \<Rightarrow> bool" where
  "less_eq_qos a b \<longleftrightarrow> qos_u8 a \<le> qos_u8 b"

definition less_qos :: "qos \<Rightarrow> qos \<Rightarrow> bool" where
  "less_qos a b \<longleftrightarrow> qos_u8 a < qos_u8 b"

instance
proof
  fix a b c :: qos
  show "a < b \<longleftrightarrow> a \<le> b \<and> \<not> b \<le> a"
    by (simp only: less_eq_qos_def less_qos_def less_le_not_le)
  show "a \<le> a"
    by (simp add: less_eq_qos_def)
  show "a \<le> b \<Longrightarrow> b \<le> c \<Longrightarrow> a \<le> c"
    by (simp add: less_eq_qos_def)
  show "a \<le> b \<Longrightarrow> b \<le> a \<Longrightarrow> a = b"
    using qos_u8_inj [of a b] by (auto simp: less_eq_qos_def)
  show "a \<le> b \<or> b \<le> a"
    by (auto simp: less_eq_qos_def)
qed

end

lemma qos_try_from_u8_qos_u8 [simp]: "qos_try_from_u8 (qos_u8 q) = Some q"
  by (cases q) (simp_all add: qos_try_from_u8_def)

lemma qos_try_from_u8_Some: "qos_try_from_u8 v = Some q \<longleftrightarrow> v = qos_u8 q"
  by (cases q) (auto simp: qos_try_from_u8_def)

lemma AtMostOnce_least [simp]: "AtMostOnce \<le> q"
  by (cases q) (simp_all add: less_eq_qos_def word_le_nat_alt)

lemma min_AtMostOnce [simp]: "min AtMostOnce q = AtMostOnce" "min q AtMostOnce = AtMostOnce"
  by (simp_all add: min_def order_antisym)

lemma min_AtLeastOnce:
  "min q AtLeastOnce = (if q = AtMostOnce then AtMostOnce else AtLeastOnce)"
  by (cases q) (simp_all add: min_def less_eq_qos_def word_le_nat_alt)

section \<open>Packet identifiers and packet types\<close>

datatype packet_id = PacketId u16

fun packet_id_raw :: "packet_id \<Rightarrow> u16" where
  "packet_id_raw (PacketId n) = n"

definition packet_id_to_be_bytes :: "packet_id \<Rightarrow> u8 list" where
  "packet_id_to_be_bytes p = u16_to_be_bytes (packet_id_raw p)"

definition packet_id_from_be_bytes :: "u8 \<Rightarrow> u8 \<Rightarrow> packet_id" where
  "packet_id_from_be_bytes a b = PacketId (u16_from_be_bytes a b)"

definition display_packet_id :: "packet_id \<Rightarrow> string" where
  "display_packet_id p = show_nat (unat (packet_id_raw p))"

datatype packet_type =
    TConnect | TConnack | TPublish | TPuback | TPubrec | TPubrel | TPubcomp
  | TSubscribe | TSuback | TUnsubscribe | TUnsuback | TPingreq | TPingresp | TDisconnect

fun packet_type_u8 :: "packet_type \<Rightarrow> u8" where
  "packet_type_u8 TConnect = 1"
| "packet_type_u8 TConnack = 2"
| "packet_type_u8 TPublish = 3"
| "packet_type_u8 TPuback = 4"
| "packet_type_u8 TPubrec = 5"
| "packet_type_u8 TPubrel = 6"
| "packet_type_u8 TPubcomp = 7"
| "packet_type_u8 TSubscribe = 8"
| "packet_type_u8 TSuback = 9"
| "packet_type_u8 TUnsubscribe = 10"
| "packet_type_u8 TUnsuback = 11"
| "packet_type_u8 TPingreq = 12"
| "packet_type_u8 TPingresp = 13"
| "packet_type_u8 TDisconnect = 14"

definition packet_type_try_from_u8 :: "u8 \<Rightarrow> packet_type option" where
  "packet_type_try_from_u8 v =
     (if v = 1 then Some TConnect
      else if v = 2 then Some TConnack
      else if v = 3 then Some TPublish
      else if v = 4 then Some TPuback
      else if v = 5 then Some TPubrec
      else if v = 6 then Some TPubrel
      else if v = 7 then Some TPubcomp
      else if v = 8 then Some TSubscribe
      else if v = 9 then Some TSuback
      else if v = 10 then Some TUnsubscribe
      else if v = 11 then Some TUnsuback
      else if v = 12 then Some TPingreq
      else if v = 13 then Some TPingresp
      else if v = 14 then Some TDisconnect
      else None)"

text \<open>\<open>derive(Debug)\<close>: the variant's name.\<close>

fun debug_packet_type :: "packet_type \<Rightarrow> string" where
  "debug_packet_type TConnect = ''Connect''"
| "debug_packet_type TConnack = ''Connack''"
| "debug_packet_type TPublish = ''Publish''"
| "debug_packet_type TPuback = ''Puback''"
| "debug_packet_type TPubrec = ''Pubrec''"
| "debug_packet_type TPubrel = ''Pubrel''"
| "debug_packet_type TPubcomp = ''Pubcomp''"
| "debug_packet_type TSubscribe = ''Subscribe''"
| "debug_packet_type TSuback = ''Suback''"
| "debug_packet_type TUnsubscribe = ''Unsubscribe''"
| "debug_packet_type TUnsuback = ''Unsuback''"
| "debug_packet_type TPingreq = ''Pingreq''"
| "debug_packet_type TPingresp = ''Pingresp''"
| "debug_packet_type TDisconnect = ''Disconnect''"

fun required_flags :: "packet_type \<Rightarrow> u8" where
  "required_flags TConnect = 0x00"
| "required_flags TConnack = 0x00"
| "required_flags TPublish = 0x00"
| "required_flags TPuback = 0x00"
| "required_flags TPubrec = 0x00"
| "required_flags TPubrel = 0x02"
| "required_flags TPubcomp = 0x00"
| "required_flags TSubscribe = 0x02"
| "required_flags TSuback = 0x00"
| "required_flags TUnsubscribe = 0x02"
| "required_flags TUnsuback = 0x00"
| "required_flags TPingreq = 0x00"
| "required_flags TPingresp = 0x00"
| "required_flags TDisconnect = 0x00"

lemma packet_type_try_from_u8_u8 [simp]: "packet_type_try_from_u8 (packet_type_u8 t) = Some t"
  by (cases t) (simp_all add: packet_type_try_from_u8_def)

lemma packet_type_try_from_u8_Some:
  "packet_type_try_from_u8 v = Some t \<longleftrightarrow> v = packet_type_u8 t"
  by (cases t) (auto simp: packet_type_try_from_u8_def)

lemma packet_id_raw_inverse [simp]: "PacketId (packet_id_raw p) = p"
  by (cases p) simp

record fixed_header =
  fh_packet_type :: packet_type
  fh_flags :: u8
  fh_remaining_length :: nat

section \<open>Packets\<close>

datatype connack_return_code =
    Accepted | UnacceptableProtocolVersion | IdentifierRejected | ServerUnavailable
  | BadUsernameOrPassword | NotAuthorized

fun connack_code_u8 :: "connack_return_code \<Rightarrow> u8" where
  "connack_code_u8 Accepted = 0"
| "connack_code_u8 UnacceptableProtocolVersion = 1"
| "connack_code_u8 IdentifierRejected = 2"
| "connack_code_u8 ServerUnavailable = 3"
| "connack_code_u8 BadUsernameOrPassword = 4"
| "connack_code_u8 NotAuthorized = 5"

datatype subscribe_return_code = SuccessQoS0 | SuccessQoS1 | SuccessQoS2 | Failure

fun subscribe_code_u8 :: "subscribe_return_code \<Rightarrow> u8" where
  "subscribe_code_u8 SuccessQoS0 = 0x00"
| "subscribe_code_u8 SuccessQoS1 = 0x01"
| "subscribe_code_u8 SuccessQoS2 = 0x02"
| "subscribe_code_u8 Failure = 0x80"

record connect_packet =
  cp_protocol_name :: rstring
  cp_protocol_level :: u8
  cp_clean_session :: bool
  cp_will_flag :: bool
  cp_will_qos :: "qos option"
  cp_will_retain :: bool
  cp_username_flag :: bool
  cp_password_flag :: bool
  cp_keep_alive :: u16
  cp_client_id :: rstring
  cp_will_topic :: "rstring option"
  cp_will_message :: "u8 list option"
  cp_username :: "rstring option"
  cp_password :: "u8 list option"

record connack_packet =
  ca_session_present :: bool
  ca_return_code :: connack_return_code

record publish_packet =
  pp_dup :: bool
  pp_qos :: qos
  pp_retain :: bool
  pp_topic_name :: rstring
  pp_packet_id :: "packet_id option"
  pp_payload :: "u8 list"

text \<open>A first transmission that is not retained.\<close>

definition message :: "qos \<Rightarrow> rstring \<Rightarrow> packet_id option \<Rightarrow> u8 list \<Rightarrow> publish_packet" where
  "message q topic pid payload =
     \<lparr>pp_dup = False, pp_qos = q, pp_retain = False, pp_topic_name = topic,
      pp_packet_id = pid, pp_payload = payload\<rparr>"

lemma message_sel [simp]:
  "pp_dup (message q t i b) = False" "pp_qos (message q t i b) = q"
  "pp_retain (message q t i b) = False" "pp_topic_name (message q t i b) = t"
  "pp_packet_id (message q t i b) = i" "pp_payload (message q t i b) = b"
  "message q t i b\<lparr>pp_packet_id := j\<rparr> = message q t j b"
  "message q t i b\<lparr>pp_payload := c\<rparr> = message q t i c"
  "message q t i b\<lparr>pp_qos := r\<rparr> = message r t i b"
  by (simp_all add: message_def)

record subscribe_packet =
  sp_packet_id :: packet_id
  sp_subscriptions :: "(rstring \<times> qos) list"

record suback_packet =
  sa_packet_id :: packet_id
  sa_return_codes :: "subscribe_return_code list"

record unsubscribe_packet =
  up_packet_id :: packet_id
  up_topic_filters :: "rstring list"

datatype packet =
    Connect connect_packet
  | Connack connack_packet
  | Publish publish_packet
  | Puback packet_id
  | Pubrec packet_id
  | Pubrel packet_id
  | Pubcomp packet_id
  | Subscribe subscribe_packet
  | Suback suback_packet
  | Unsubscribe unsubscribe_packet
  | Unsuback packet_id
  | Pingreq
  | Pingresp
  | Disconnect

fun type_of_packet :: "packet \<Rightarrow> packet_type" where
  "type_of_packet (Connect _) = TConnect"
| "type_of_packet (Connack _) = TConnack"
| "type_of_packet (Publish _) = TPublish"
| "type_of_packet (Puback _) = TPuback"
| "type_of_packet (Pubrec _) = TPubrec"
| "type_of_packet (Pubrel _) = TPubrel"
| "type_of_packet (Pubcomp _) = TPubcomp"
| "type_of_packet (Subscribe _) = TSubscribe"
| "type_of_packet (Suback _) = TSuback"
| "type_of_packet (Unsubscribe _) = TUnsubscribe"
| "type_of_packet (Unsuback _) = TUnsuback"
| "type_of_packet Pingreq = TPingreq"
| "type_of_packet Pingresp = TPingresp"
| "type_of_packet Disconnect = TDisconnect"

section \<open>Well-formed packets\<close>

text \<open>
  What a packet's wire form can carry: strings are valid UTF-8 of at most 65535 bytes, a
  PUBLISH carries an identifier exactly when its QoS is above 0, optional CONNECT fields are
  present exactly when their flag is set, and subscription lists are not empty.
\<close>

definition wf_string :: "rstring \<Rightarrow> bool" where
  "wf_string s \<longleftrightarrow> length s < 65536 \<and> utf8_valid s"

definition wf_binary :: "u8 list \<Rightarrow> bool" where
  "wf_binary b \<longleftrightarrow> length b < 65536"

definition wf_publish :: "publish_packet \<Rightarrow> bool" where
  "wf_publish p \<longleftrightarrow>
     wf_string (pp_topic_name p) \<and> (pp_packet_id p = None \<longleftrightarrow> pp_qos p = AtMostOnce)"

definition wf_connect :: "connect_packet \<Rightarrow> bool" where
  "wf_connect c \<longleftrightarrow>
     wf_string (cp_protocol_name c) \<and> wf_string (cp_client_id c) \<and>
     (cp_will_flag c \<longrightarrow> cp_will_qos c \<noteq> None) \<and>
     (cp_will_topic c \<noteq> None \<longleftrightarrow> cp_will_flag c) \<and>
     (cp_will_message c \<noteq> None \<longleftrightarrow> cp_will_flag c) \<and>
     (cp_username c \<noteq> None \<longleftrightarrow> cp_username_flag c) \<and>
     (cp_password c \<noteq> None \<longleftrightarrow> cp_password_flag c) \<and>
     pred_option wf_string (cp_will_topic c) \<and> pred_option wf_binary (cp_will_message c) \<and>
     pred_option wf_string (cp_username c) \<and> pred_option wf_binary (cp_password c)"

definition wf_subscribe :: "subscribe_packet \<Rightarrow> bool" where
  "wf_subscribe s \<longleftrightarrow>
     sp_subscriptions s \<noteq> [] \<and> list_all (\<lambda>(f, q). wf_string f) (sp_subscriptions s)"

definition wf_unsubscribe :: "unsubscribe_packet \<Rightarrow> bool" where
  "wf_unsubscribe u \<longleftrightarrow> up_topic_filters u \<noteq> [] \<and> list_all wf_string (up_topic_filters u)"

fun wf_packet :: "packet \<Rightarrow> bool" where
  "wf_packet (Connect c) = wf_connect c"
| "wf_packet (Publish p) = wf_publish p"
| "wf_packet (Subscribe s) = wf_subscribe s"
| "wf_packet (Unsubscribe u) = wf_unsubscribe u"
| "wf_packet _ = True"

text \<open>The packets a client may send, and those a server may send (MQTT 3.1.1, table 2.1).\<close>

fun client_packet :: "packet \<Rightarrow> bool" where
  "client_packet (Connack _) = False"
| "client_packet (Suback _) = False"
| "client_packet (Unsuback _) = False"
| "client_packet Pingresp = False"
| "client_packet _ = True"

fun server_packet :: "packet \<Rightarrow> bool" where
  "server_packet (Connect _) = False"
| "server_packet (Subscribe _) = False"
| "server_packet (Unsubscribe _) = False"
| "server_packet Pingreq = False"
| "server_packet Disconnect = False"
| "server_packet _ = True"

end
