(* ===== verification/Topic_Filters.thy ===== *)
theory Topic_Filters
  imports Prelude
begin

text \<open>
  Topic filters: the validity check of \<open>src/src/broker/mod.rs\<close>
  (\<open>is_valid_topic_filter\<close>) and the two notions of matching the development compares.
  \<open>mqtt_match\<close> is the standard's (MQTT 3.1.1, section 4.7) on lists of levels;
  \<open>matching_filters\<close> lists, in the order of the code's traversal, the filters whose
  subscribers \<open>TopicTree::matches\<close> collects.
\<close>

abbreviation slash :: u8 where "slash \<equiv> 0x2F"
abbreviation hash :: u8 where "hash \<equiv> 0x23"
abbreviation plus_sign :: u8 where "plus_sign \<equiv> 0x2B"

section \<open>Validity\<close>

definition is_valid_topic_filter :: "rstring \<Rightarrow> bool" where
  "is_valid_topic_filter topic =
     (if topic = [] \<or> length topic > 65535 then False
      else if (case find_byte hash topic of
                 None \<Rightarrow> False
               | Some hash_pos \<Rightarrow>
                   hash_pos > 0 \<and> \<not> ends_with (take hash_pos topic) slash
                   \<or> hash_pos + 1 \<noteq> length topic)
      then False
      else list_all (\<lambda>part. \<not> (plus_sign \<in> set part \<and> length part > 1))
             (split_on slash topic))"

text \<open>
  The standard's rule on levels: \<open>+\<close> and \<open>#\<close> occupy a whole level, and \<open>#\<close> is
  the last one.
\<close>

fun valid_levels :: "rstring list \<Rightarrow> bool" where
  "valid_levels [] = True"
| "valid_levels (l # ls) =
     ((plus_sign \<in> set l \<longrightarrow> l = [plus_sign]) \<and>
      (hash \<in> set l \<longrightarrow> l = [hash] \<and> ls = []) \<and> valid_levels ls)"

lemma find_byte_None: "find_byte c s = None \<longleftrightarrow> c \<notin> set s"
  by (induction s) auto

lemma find_byte_Some:
  "find_byte c s = Some i \<Longrightarrow> i < length s \<and> s = take i s @ c # drop (Suc i) s \<and> c \<notin> set (take i s)"
  by (induction s arbitrary: i) (auto split: if_splits)

lemma valid_levels_hash_free:
  "hash \<notin> set s \<Longrightarrow> valid_levels (split_on slash s) \<longleftrightarrow>
     list_all (\<lambda>part. \<not> (plus_sign \<in> set part \<and> length part > 1)) (split_on slash s)"
proof -
  have part: "(plus_sign \<in> set l \<longrightarrow> l = [plus_sign])
      \<longleftrightarrow> \<not> (plus_sign \<in> set l \<and> length l > 1)" for l :: rstring
    by (cases l; cases "tl l") auto
  have "list_all (\<lambda>l. hash \<notin> set l) ls \<Longrightarrow> valid_levels ls \<longleftrightarrow>
     list_all (\<lambda>part. \<not> (plus_sign \<in> set part \<and> length part > 1)) ls" for ls
    by (induction ls) (simp_all add: part)
  moreover assume "hash \<notin> set s"
  then have "list_all (\<lambda>l. hash \<notin> set l) (split_on slash s)"
    by (induction s) (auto split: list.splits)
  ultimately show ?thesis .
qed

lemma split_on_sep_append: "split_on d (s @ d # t) = split_on d s @ split_on d t"
  by (induction s) (auto split: list.splits)

lemma valid_levels_snoc:
  "valid_levels (ls @ [l]) \<longleftrightarrow>
     valid_levels ls \<and> list_all (\<lambda>l. hash \<notin> set l) ls \<and> valid_levels [l]"
  by (induction ls) auto

lemma split_on_levels_free: "c \<notin> set s \<Longrightarrow> list_all (\<lambda>l. c \<notin> set l) (split_on d s)"
  by (induction s) (auto split: list.splits)

lemma split_on_eq_single_Nil: "split_on d s = [[]] \<longleftrightarrow> s = []"
  by (metis join_split join_with.simps(2) split_on.simps(1))

lemma level_free_tail: "(c \<in> set (b # p) \<longrightarrow> b # p = [c]) \<Longrightarrow> c \<notin> set p"
  by auto

text \<open>In a valid filter, \<open>#\<close> ends the filter and starts a level.\<close>

lemma valid_levels_hash_position:
  "valid_levels (split_on slash (pre @ hash # post)) \<Longrightarrow>
     post = [] \<and> (pre = [] \<or> last pre = slash)"
proof (induction pre)
  case Nil
  then show ?case
    by (cases "split_on slash post") (auto simp: split_on_eq_single_Nil)
next
  case (Cons b pre)
  show ?case
  proof (cases "b = slash")
    case True
    with Cons show ?thesis by auto
  next
    case False
    obtain p ps where split: "split_on slash (pre @ hash # post) = p # ps"
      by (meson list.exhaust split_on_not_Nil)
    have valid: "valid_levels ((b # p) # ps)"
      using Cons.prems
      by (simp only: append_Cons split_on.simps False if_False split list.case)
    have p: "plus_sign \<in> set (b # p) \<longrightarrow> b # p = [plus_sign]"
      and h: "hash \<in> set (b # p) \<longrightarrow> b # p = [hash]" and tail: "valid_levels ps"
      using valid unfolding valid_levels.simps by blast+
    have free: "hash \<notin> set p" "plus_sign \<notin> set p"
      by (rule level_free_tail [OF h], rule level_free_tail [OF p])
    with tail have "valid_levels (p # ps)" by simp
    with Cons.IH split have IH: "post = [] \<and> (pre = [] \<or> last pre = slash)" by simp
    have "pre \<noteq> []"
    proof
      assume "pre = []"
      then have "hash \<in> set p"
        using split by (simp split: list.splits) auto
      with free show False by simp
    qed
    with IH show ?thesis by simp
  qed
qed

lemma valid_levels_hash_last:
  assumes "hash \<notin> set pre" and "pre = [] \<or> last pre = slash"
  shows "valid_levels (split_on slash (pre @ [hash])) \<longleftrightarrow>
    list_all (\<lambda>part. \<not> (plus_sign \<in> set part \<and> length part > 1)) (split_on slash (pre @ [hash]))"
proof (cases "pre = []")
  case False
  with assms obtain p where p: "pre = p @ [slash]"
    by (metis append_butlast_last_id)
  then have "split_on slash (pre @ [hash]) = split_on slash p @ [[hash]]"
    by (simp add: split_on_sep_append)
  moreover have "hash \<notin> set p"
    using assms(1) p by simp
  ultimately show ?thesis
    by (simp add: valid_levels_snoc valid_levels_hash_free split_on_levels_free)
qed simp

lemma valid_filter_iff:
  "is_valid_topic_filter topic =
     (topic \<noteq> [] \<and> length topic \<le> 65535 \<and> valid_levels (split_on slash topic))"
proof (cases "find_byte hash topic")
  case None
  then show ?thesis
    using find_byte_None [of hash topic]
    by (simp add: is_valid_topic_filter_def valid_levels_hash_free)
next
  case (Some i)
  then have i: "i < length topic" "topic = take i topic @ hash # drop (Suc i) topic"
    and free: "hash \<notin> set (take i topic)"
    using find_byte_Some by blast+
  show ?thesis
  proof (cases "Suc i = length topic \<and> (i = 0 \<or> last (take i topic) = slash)")
    case True
    then have "topic = take i topic @ [hash]"
      using i by simp
    then show ?thesis
      using True i Some valid_levels_hash_last [OF free]
      by (auto simp: is_valid_topic_filter_def ends_with_def)
  next
    case False
    then have "\<not> valid_levels (split_on slash topic)"
      using valid_levels_hash_position [of "take i topic" "drop (Suc i) topic"] i by auto
    moreover have "\<not> is_valid_topic_filter topic"
      using False Some i by (auto simp: is_valid_topic_filter_def ends_with_def)
    ultimately show ?thesis by simp
  qed
qed

text \<open>
  C21: The validity check is the standard's rule: a filter is accepted exactly when it is
  neither empty nor longer than 65535 bytes, every \<open>+\<close> is a level of its own, and a
  \<open>#\<close> is a level of its own and the last level.
\<close>

theorem is_valid_topic_filter_correct:
  "is_valid_topic_filter topic =
     (topic \<noteq> [] \<and> length topic \<le> 65535 \<and> valid_levels (split_on slash topic))"
  by (rule valid_filter_iff)

section \<open>Matching\<close>

text \<open>
  MQTT 3.1.1, 4.7.1: \<open>#\<close> matches any number of levels, the parent level included, and
  \<open>+\<close> exactly one level.
\<close>

fun mqtt_match :: "rstring list \<Rightarrow> rstring list \<Rightarrow> bool" where
  "mqtt_match [] ts = (ts = [])"
| "mqtt_match (f # fs) ts =
     (if f = [hash] then fs = []
      else (case ts of
              [] \<Rightarrow> False
            | t # ts' \<Rightarrow> (f = [plus_sign] \<or> f = t) \<and> mqtt_match fs ts'))"

text \<open>
  The filters the code's traversal visits for the levels of a topic. At each node on the way
  it collects the plain subscribers and the \<open>#\<close> subscribers of this node, whether or
  not the topic has more levels.
\<close>

fun matching_filters :: "rstring list \<Rightarrow> rstring list list" where
  "matching_filters [] = [[], [[hash]]]"
| "matching_filters (t # ts) =
     [[], [[hash]]] @ map ((#) [plus_sign]) (matching_filters ts)
     @ (if t = [hash] \<or> t = [plus_sign] then [] else map ((#) t) (matching_filters ts))"

text \<open>The filter under which \<open>add\<close> stores: a \<open>#\<close> ends it.\<close>

fun canonical :: "rstring list \<Rightarrow> rstring list" where
  "canonical [] = []"
| "canonical (f # fs) = (if f = [hash] then [f] else f # canonical fs)"

lemma canonical_idem [simp]: "canonical (canonical fs) = canonical fs"
  by (induction fs) auto

lemma canonical_valid: "valid_levels fs \<Longrightarrow> canonical fs = fs"
proof (induction fs)
  case (Cons f fs)
  then have "valid_levels fs"
    unfolding valid_levels.simps by blast
  moreover have "fs = []" if "f = [hash]"
    using Cons.prems unfolding valid_levels.simps that by simp
  ultimately show ?case
    using Cons.IH by simp
qed simp

lemma distinct_matching_filters: "distinct (matching_filters ts)"
proof (induction ts)
  case (Cons t ts)
  then show ?case
    by (auto simp: distinct_map)
qed simp

definition prefix_match :: "rstring list \<Rightarrow> rstring list \<Rightarrow> bool" where
  "prefix_match fs ts \<longleftrightarrow> (\<exists>k \<le> length ts. mqtt_match fs (take k ts))"

lemma prefix_match_Nil: "prefix_match [] ts"
  by (auto simp: prefix_match_def)

lemma prefix_match_Cons:
  "prefix_match (f # fs) ts \<longleftrightarrow>
     (if f = [hash] then fs = []
      else (case ts of
              [] \<Rightarrow> False
            | t # ts' \<Rightarrow> (f = [plus_sign] \<or> f = t) \<and> prefix_match fs ts'))"
proof (cases ts)
  case (Cons t ts')
  have "mqtt_match (f # fs) (take k (t # ts')) \<longleftrightarrow>
      (\<exists>k'. k = Suc k' \<and> (f = [plus_sign] \<or> f = t) \<and> mqtt_match fs (take k' ts'))"
    if "f \<noteq> [hash]" for k
    using that by (cases k) auto
  then show ?thesis
    using Cons by (auto simp: prefix_match_def)
qed (auto simp: prefix_match_def)

lemma mqtt_match_prefix: "mqtt_match fs ts \<Longrightarrow> prefix_match fs ts"
  unfolding prefix_match_def by (intro exI [of _ "length ts"]) simp

text \<open>The traversal visits exactly the filters that match some prefix of the topic's levels.\<close>

lemma matching_filters_iff: "fs \<in> set (matching_filters ts) \<longleftrightarrow> prefix_match fs ts"
proof (induction fs arbitrary: ts)
  case Nil
  then show ?case by (cases ts) (auto simp: prefix_match_Nil)
next
  case (Cons f fs)
  then show ?case
    by (cases ts) (auto simp: prefix_match_Cons)
qed

lemma canonical_free: "\<forall>l \<in> set fs. l \<noteq> [hash] \<and> Q l \<Longrightarrow> canonical fs = fs"
  by (induction fs) auto

lemma prefix_match_append:
  "list_all (\<lambda>l. l \<noteq> [hash] \<and> l \<noteq> [plus_sign]) fs \<Longrightarrow> prefix_match fs (fs @ ts)"
  by (induction fs) (simp_all add: prefix_match_Nil prefix_match_Cons)

lemma mqtt_match_longer:
  "list_all (\<lambda>l. l \<noteq> [hash] \<and> l \<noteq> [plus_sign]) fs \<Longrightarrow> ts \<noteq> [] \<Longrightarrow> \<not> mqtt_match fs (fs @ ts)"
  by (induction fs) simp_all

text \<open>Levels behind a final level \<open>#\<close>.\<close>

lemma levels_behind_hash:
  "valid_levels ls \<Longrightarrow> ls \<noteq> [] \<Longrightarrow> hash \<in> set (last ls) \<Longrightarrow> ms \<noteq> [] \<Longrightarrow>
     canonical (ls @ ms) = ls \<and> \<not> valid_levels (ls @ ms)"
proof (induction ls)
  case (Cons l ls)
  then show ?case by (cases "ls = []") auto
qed simp

lemma last_split_on: "s \<noteq> [] \<Longrightarrow> last s \<noteq> d \<Longrightarrow> last s \<in> set (last (split_on d s))"
  by (induction s) (auto split: list.splits if_splits)

end
