(* ===== verification/Subscriptions.thy ===== *)
theory Subscriptions
  imports Protocol_Types Topic_Filters "HOL-Library.Multiset"
begin

text \<open>
  The subscription tree (\<open>src/src/broker/subscriptions.rs\<close>): its node type, one
  recursive function per recursive method, and the interface the broker uses as a locale,
  \<open>subscription_index\<close>. The contents of a tree are described by \<open>subs_at\<close>: the list
  of subscribers stored under a filter, in insertion order.
\<close>

section \<open>Data\<close>

text \<open>
  An \<open>mpsc::UnboundedSender\<close> is a handle: either the sending half of a session's channel,
  named by the session's reference, or the one of a channel whose receiver was dropped at
  birth.
\<close>

datatype sender = Tx nat | Orphan

record subscriber =
  sub_client_id :: rstring
  sub_sender :: sender
  sub_qos :: qos

datatype topic_node =
  TopicNode "rstring \<Rightarrow> topic_node option" "topic_node option" "subscriber list" "subscriber list"

text \<open>
  The fields in the source's order: \<open>children\<close>, \<open>single_wildcard\<close>,
  \<open>multi_wildcard_subscribers\<close>, \<open>subscribers\<close>. A tree is its root node;
  \<open>empty_node\<close> is \<open>Default::default()\<close>.
\<close>

definition empty_node :: topic_node where
  "empty_node = TopicNode Map.empty None [] []"

section \<open>Operations\<close>

fun add_recursive :: "topic_node \<Rightarrow> rstring list \<Rightarrow> subscriber \<Rightarrow> topic_node" where
  "add_recursive (TopicNode children single multi subs) [] s =
     TopicNode children single multi (subs @ [s])"
| "add_recursive (TopicNode children single multi subs) (part # remaining) s =
     (if part = [hash] then TopicNode children single (multi @ [s]) subs
      else if part = [plus_sign] then
        (let child = (case single of None \<Rightarrow> empty_node | Some c \<Rightarrow> c)
         in TopicNode children (Some (add_recursive child remaining s)) multi subs)
      else
        (let child = (case children part of None \<Rightarrow> empty_node | Some c \<Rightarrow> c)
         in TopicNode (children(part \<mapsto> add_recursive child remaining s)) single multi subs))"

definition tree_add :: "topic_node \<Rightarrow> rstring \<Rightarrow> subscriber \<Rightarrow> topic_node" where
  "tree_add root topic s = add_recursive root (split_on slash topic) s"

fun remove_recursive :: "topic_node \<Rightarrow> rstring list \<Rightarrow> rstring \<Rightarrow> topic_node \<times> bool" where
  "remove_recursive (TopicNode children single multi subs) [] cid =
     (TopicNode children single multi (filter (\<lambda>s. sub_client_id s \<noteq> cid) subs), True)"
| "remove_recursive (TopicNode children single multi subs) (part # remaining) cid =
     (if part = [hash] then
        (TopicNode children single (filter (\<lambda>s. sub_client_id s \<noteq> cid) multi) subs, False)
      else if part = [plus_sign] then
        (case single of
           None \<Rightarrow> (TopicNode children single multi subs, False)
         | Some child \<Rightarrow>
             (TopicNode children (Some (fst (remove_recursive child remaining cid))) multi subs,
              False))
      else
        (case children part of
           None \<Rightarrow> (TopicNode children single multi subs, False)
         | Some child \<Rightarrow>
             (TopicNode (children(part \<mapsto> fst (remove_recursive child remaining cid)))
                single multi subs, False)))"

definition tree_remove :: "topic_node \<Rightarrow> rstring \<Rightarrow> rstring \<Rightarrow> topic_node" where
  "tree_remove root topic cid = fst (remove_recursive root (split_on slash topic) cid)"

primrec remove_all_recursive :: "rstring \<Rightarrow> topic_node \<Rightarrow> topic_node" where
  "remove_all_recursive cid (TopicNode children single multi subs) =
     TopicNode (map_option (remove_all_recursive cid) \<circ> children)
       (map_option (remove_all_recursive cid) single)
       (filter (\<lambda>s. sub_client_id s \<noteq> cid) multi)
       (filter (\<lambda>s. sub_client_id s \<noteq> cid) subs)"

definition tree_remove_all :: "topic_node \<Rightarrow> rstring \<Rightarrow> topic_node" where
  "tree_remove_all root cid = remove_all_recursive cid root"

function matches_recursive ::
  "topic_node \<Rightarrow> rstring list \<Rightarrow> nat \<Rightarrow> subscriber list \<Rightarrow> subscriber list" where
  "matches_recursive (TopicNode children single multi subs) parts depth result =
     (let result = result @ subs;
          result = result @ multi
      in if depth \<ge> length parts then result
         else
           (let current = parts ! depth;
                result = (case single of
                            None \<Rightarrow> result
                          | Some child \<Rightarrow> matches_recursive child parts (depth + 1) result)
            in case children current of
                 None \<Rightarrow> result
               | Some child \<Rightarrow> matches_recursive child parts (depth + 1) result))"
  by pat_completeness auto
termination
  by (relation "measure (\<lambda>(node, parts, depth, result). length parts - depth)") auto

declare matches_recursive.simps [simp del]

definition tree_matches :: "topic_node \<Rightarrow> rstring \<Rightarrow> subscriber list" where
  "tree_matches root topic = matches_recursive root (split_on slash topic) 0 []"

section \<open>Contents and invariant\<close>

fun subs_at :: "topic_node \<Rightarrow> rstring list \<Rightarrow> subscriber list" where
  "subs_at (TopicNode children single multi subs) [] = subs"
| "subs_at (TopicNode children single multi subs) (part # remaining) =
     (if part = [hash] then (if remaining = [] then multi else [])
      else if part = [plus_sign] then
        (case single of None \<Rightarrow> [] | Some child \<Rightarrow> subs_at child remaining)
      else (case children part of None \<Rightarrow> [] | Some child \<Rightarrow> subs_at child remaining))"

text \<open>No child is stored under the name of a wildcard.\<close>

inductive tree_inv :: "topic_node \<Rightarrow> bool" where
  node: "children [hash] = None \<Longrightarrow> children [plus_sign] = None \<Longrightarrow>
    (\<And>c. single = Some c \<Longrightarrow> tree_inv c) \<Longrightarrow>
    (\<And>k c. children k = Some c \<Longrightarrow> tree_inv c) \<Longrightarrow>
    tree_inv (TopicNode children single multi subs)"

inductive_simps tree_inv_node: "tree_inv (TopicNode children single multi subs)"

lemma subs_at_empty [simp]: "subs_at empty_node fs = []"
  by (cases fs) (simp_all add: empty_node_def)

lemma tree_inv_empty [simp]: "tree_inv empty_node"
  by (simp add: empty_node_def tree_inv_node)

lemma tree_inv_add: "tree_inv n \<Longrightarrow> tree_inv (add_recursive n fs s)"
  by (induction n fs s rule: add_recursive.induct)
    (auto simp: tree_inv_node Let_def split: option.splits)

lemma tree_inv_remove: "tree_inv n \<Longrightarrow> tree_inv (fst (remove_recursive n fs cid))"
  by (induction n fs cid rule: remove_recursive.induct)
    (auto simp: tree_inv_node split: option.splits)

lemma tree_inv_remove_all: "tree_inv n \<Longrightarrow> tree_inv (remove_all_recursive cid n)"
  by (induction rule: tree_inv.induct) (auto simp: tree_inv_node)

lemma subs_at_add:
  "subs_at (add_recursive n fs s) gs = subs_at n gs @ (if gs = canonical fs then [s] else [])"
proof (induction n fs s arbitrary: gs rule: add_recursive.induct)
  case (1 children single multi subs s)
  then show ?case by (cases gs) simp_all
next
  case (2 children single multi subs part remaining s)
  show ?case
  proof (cases gs)
    case (Cons g gs')
    then show ?thesis
      using 2 by (auto simp: Let_def split: option.splits)
  qed (auto simp: Let_def)
qed

lemma subs_at_remove:
  "subs_at (fst (remove_recursive n fs cid)) gs =
     (if gs = canonical fs then filter (\<lambda>s. sub_client_id s \<noteq> cid) (subs_at n gs)
      else subs_at n gs)"
proof (induction n fs cid arbitrary: gs rule: remove_recursive.induct)
  case (1 children single multi subs cid)
  then show ?case by (cases gs) simp_all
next
  case (2 children single multi subs part remaining cid)
  show ?case
  proof (cases gs)
    case (Cons g gs')
    then show ?thesis
      using 2 by (auto split: option.splits)
  qed (auto split: option.splits)
qed

lemma subs_at_remove_all:
  "subs_at (remove_all_recursive cid n) gs = filter (\<lambda>s. sub_client_id s \<noteq> cid) (subs_at n gs)"
  by (induction n gs rule: subs_at.induct) (auto split: option.splits)

section \<open>The traversal\<close>

lemma concat_subs_at_single:
  "concat (map (subs_at (TopicNode children single multi subs)) (map ((#) [plus_sign]) fss)) =
     (case single of None \<Rightarrow> [] | Some c \<Rightarrow> concat (map (subs_at c) fss))"
  by (cases single) (simp_all add: comp_def)

lemma concat_subs_at_child:
  "t \<noteq> [hash] \<Longrightarrow> t \<noteq> [plus_sign] \<Longrightarrow>
   concat (map (subs_at (TopicNode children single multi subs)) (map ((#) t) fss)) =
     (case children t of None \<Rightarrow> [] | Some c \<Rightarrow> concat (map (subs_at c) fss))"
  by (cases "children t") (simp_all add: comp_def)

lemma concat_subs_at_next:
  assumes "tree_inv (TopicNode children single multi subs)"
  shows "concat (map (subs_at (TopicNode children single multi subs))
      (if t = [hash] \<or> t = [plus_sign] then [] else map ((#) t) fss)) =
    (case children t of None \<Rightarrow> [] | Some c \<Rightarrow> concat (map (subs_at c) fss))"
proof (cases "t = [hash] \<or> t = [plus_sign]")
  case True
  then have "children t = None"
    using assms by (auto simp: tree_inv_node)
  with True show ?thesis by simp
next
  case False
  then have "t \<noteq> [hash]" and "t \<noteq> [plus_sign]" by blast+
  then show ?thesis by (simp only: concat_subs_at_child simp_thms if_False)
qed

lemma matches_recursive_eq:
  "tree_inv n \<Longrightarrow> matches_recursive n parts depth result =
     result @ concat (map (subs_at n) (matching_filters (drop depth parts)))"
proof (induction n parts depth result rule: matches_recursive.induct)
  case (1 children single multi subs parts depth result)
  let ?n = "TopicNode children single multi subs"
  show ?case
  proof (cases "depth \<ge> length parts")
    case True
    then show ?thesis by (simp add: matches_recursive.simps)
  next
    case False
    let ?rest = "matching_filters (drop (depth + 1) parts)"
    let ?r = "(case single of None \<Rightarrow> (result @ subs) @ multi
        | Some c \<Rightarrow> matches_recursive c parts (depth + 1) ((result @ subs) @ multi))"
    have drop: "drop depth parts = parts ! depth # drop (depth + 1) parts"
      using False by (simp add: Cons_nth_drop_Suc)
    have inv: "\<And>c. single = Some c \<Longrightarrow> tree_inv c" "\<And>k c. children k = Some c \<Longrightarrow> tree_inv c"
      using "1.prems" by (auto simp: tree_inv_node)
    have r: "?r = result @ subs @ multi
        @ (case single of None \<Rightarrow> [] | Some c \<Rightarrow> concat (map (subs_at c) ?rest))"
      using "1.IH"(1) [OF refl refl False refl] inv(1) by (cases single) simp_all
    have "matches_recursive ?n parts depth result =
        (case children (parts ! depth) of None \<Rightarrow> ?r
         | Some c \<Rightarrow> matches_recursive c parts (depth + 1) ?r)"
      using False
      by (simp add: matches_recursive.simps [of children] Let_def split: option.split)
    also have "\<dots> = ?r @ (case children (parts ! depth) of None \<Rightarrow> []
         | Some c \<Rightarrow> concat (map (subs_at c) ?rest))"
      using "1.IH"(2) [OF refl refl False refl refl] inv(2)
      by (cases "children (parts ! depth)") simp_all
    finally show ?thesis
      unfolding r drop matching_filters.simps map_append concat_append
        concat_subs_at_single concat_subs_at_next [OF "1.prems"]
      by simp
  qed
qed

lemma tree_matches_eq:
  "tree_inv t \<Longrightarrow>
     tree_matches t topic = concat (map (subs_at t) (matching_filters (split_on slash topic)))"
  by (simp add: tree_matches_def matches_recursive_eq)

section \<open>The interface of the index\<close>

text \<open>
  What the broker relies on: an index stores subscribers under filters in insertion order,
  removal by client filters those lists, and \<open>matches\<close> returns the concatenation of the
  lists of the filters it visits, in a fixed order that depends on the topic only.
\<close>

locale subscription_index =
  fixes empty :: "'t"
    and add :: "'t \<Rightarrow> rstring \<Rightarrow> subscriber \<Rightarrow> 't"
    and remove :: "'t \<Rightarrow> rstring \<Rightarrow> rstring \<Rightarrow> 't"
    and remove_all :: "'t \<Rightarrow> rstring \<Rightarrow> 't"
    and matches :: "'t \<Rightarrow> rstring \<Rightarrow> subscriber list"
    and stored :: "'t \<Rightarrow> rstring list \<Rightarrow> subscriber list"
    and invar :: "'t \<Rightarrow> bool"
    and visited :: "rstring \<Rightarrow> rstring list list"
    and key :: "rstring \<Rightarrow> rstring list"
  assumes stored_empty: "stored empty fs = []"
    and stored_add: "stored (add t f s) fs = stored t fs @ (if fs = key f then [s] else [])"
    and stored_remove: "stored (remove t f c) fs =
      (if fs = key f then filter (\<lambda>s. sub_client_id s \<noteq> c) (stored t fs) else stored t fs)"
    and stored_remove_all: "stored (remove_all t c) fs =
      filter (\<lambda>s. sub_client_id s \<noteq> c) (stored t fs)"
    and matches_stored: "invar t \<Longrightarrow> matches t topic = concat (map (stored t) (visited topic))"
    and visited_distinct: "distinct (visited topic)"
    and invar_empty: "invar empty"
    and invar_add: "invar t \<Longrightarrow> invar (add t f s)"
    and invar_remove: "invar t \<Longrightarrow> invar (remove t f c)"
    and invar_remove_all: "invar t \<Longrightarrow> invar (remove_all t c)"
begin

lemmas invar_ops = invar_empty invar_add invar_remove invar_remove_all
lemmas stored_ops = stored_empty stored_add stored_remove stored_remove_all

lemma stored_add_fun:
  "stored (add t f s) = (\<lambda>fs. stored t fs @ (if fs = key f then [s] else []))"
  by (rule ext) (rule stored_add)

lemma stored_remove_all_fun:
  "stored (remove_all t c) = (\<lambda>fs. filter (\<lambda>s. sub_client_id s \<noteq> c) (stored t fs))"
  by (rule ext) (rule stored_remove_all)

lemma matches_remove_all:
  "invar t \<Longrightarrow> matches (remove_all t c) topic
     = filter (\<lambda>s. sub_client_id s \<noteq> c) (matches t topic)"
  by (simp add: matches_stored invar_ops stored_remove_all_fun filter_concat comp_def)

lemma set_matches:
  "invar t \<Longrightarrow> s \<in> set (matches t topic) \<longleftrightarrow> (\<exists>fs \<in> set (visited topic). s \<in> set (stored t fs))"
  by (auto simp: matches_stored)

lemma count_visited:
  "distinct fss \<Longrightarrow> mset (concat (map (\<lambda>fs. g fs @ (if fs = k then [s] else [])) fss))
     = mset (concat (map g fss)) + (if k \<in> set fss then {#s#} else {#})"
  by (induction fss) auto

text \<open>A new subscription adds exactly one delivery to the topics whose traversal visits it.\<close>

lemma mset_matches_add:
  "invar t \<Longrightarrow> mset (matches (add t f s) topic) =
     mset (matches t topic) + (if key f \<in> set (visited topic) then {#s#} else {#})"
  by (simp only: matches_stored invar_ops stored_add_fun count_visited [OF visited_distinct])

text \<open>A predicate on all stored subscribers is kept by every operation.\<close>

definition all_stored :: "(subscriber \<Rightarrow> bool) \<Rightarrow> 't \<Rightarrow> bool" where
  "all_stored P t \<longleftrightarrow> (\<forall>fs. list_all P (stored t fs))"

lemma all_stored_empty: "all_stored P empty"
  by (simp add: all_stored_def stored_ops)

lemma all_stored_add: "all_stored P t \<Longrightarrow> P s \<Longrightarrow> all_stored P (add t f s)"
  by (simp add: all_stored_def stored_ops)

lemma all_stored_remove: "all_stored P t \<Longrightarrow> all_stored P (remove t f c)"
  by (auto simp: all_stored_def stored_ops list_all_iff)

lemma all_stored_remove_all: "all_stored P t \<Longrightarrow> all_stored P (remove_all t c)"
  by (auto simp: all_stored_def stored_ops list_all_iff)

lemmas all_stored_ops =
  all_stored_empty all_stored_add all_stored_remove all_stored_remove_all

lemma all_stored_matches: "invar t \<Longrightarrow> all_stored P t \<Longrightarrow> list_all P (matches t topic)"
  by (auto simp: all_stored_def matches_stored list_all_iff)

lemma all_stored_mono: "all_stored P t \<Longrightarrow> (\<And>s. P s \<Longrightarrow> Q s) \<Longrightarrow> all_stored Q t"
  by (auto simp: all_stored_def list_all_iff)

lemma all_stored_removed: "all_stored (\<lambda>s. sub_client_id s \<noteq> c) (remove_all t c)"
  by (simp add: all_stored_def stored_ops list_all_iff)

end

definition topic_key :: "rstring \<Rightarrow> rstring list" where
  "topic_key f = canonical (split_on slash f)"

definition visited_filters :: "rstring \<Rightarrow> rstring list list" where
  "visited_filters topic = matching_filters (split_on slash topic)"

interpretation tree: subscription_index
  empty_node tree_add tree_remove tree_remove_all tree_matches subs_at tree_inv
  visited_filters topic_key
  by unfold_locales
    (simp_all add: tree_add_def tree_remove_def tree_remove_all_def topic_key_def
      visited_filters_def subs_at_add subs_at_remove subs_at_remove_all tree_matches_eq
      distinct_matching_filters tree_inv_add tree_inv_remove tree_inv_remove_all)

section \<open>Refinement of a list of subscriptions\<close>

text \<open>
  The specification of the component: a list of entries (filter, subscriber) in the order of
  subscription. \<open>subscribe\<close> appends, \<open>unsubscribe\<close> deletes the entries of the client
  under the filter, and a client's departure deletes all its entries.
\<close>

datatype index_op = OpAdd rstring subscriber | OpRemove rstring rstring | OpRemoveAll rstring

fun apply_tree :: "topic_node \<Rightarrow> index_op \<Rightarrow> topic_node" where
  "apply_tree t (OpAdd f s) = tree_add t f s"
| "apply_tree t (OpRemove f c) = tree_remove t f c"
| "apply_tree t (OpRemoveAll c) = tree_remove_all t c"

type_synonym entry = "rstring list \<times> subscriber"

fun apply_spec :: "entry list \<Rightarrow> index_op \<Rightarrow> entry list" where
  "apply_spec es (OpAdd f s) = es @ [(topic_key f, s)]"
| "apply_spec es (OpRemove f c) =
     filter (\<lambda>e. \<not> (fst e = topic_key f \<and> sub_client_id (snd e) = c)) es"
| "apply_spec es (OpRemoveAll c) = filter (\<lambda>e. sub_client_id (snd e) \<noteq> c) es"

definition tree_run :: "index_op list \<Rightarrow> topic_node" where
  "tree_run ops = foldl apply_tree empty_node ops"

definition spec_run :: "index_op list \<Rightarrow> entry list" where
  "spec_run ops = foldl apply_spec [] ops"

definition entries_under :: "entry list \<Rightarrow> rstring list \<Rightarrow> subscriber list" where
  "entries_under es k = map snd (filter (\<lambda>e. fst e = k) es)"

lemma apply_refines:
  assumes "\<And>k. subs_at t k = entries_under es k"
  shows "subs_at (apply_tree t op) k = entries_under (apply_spec es op) k"
proof (cases op)
  case (OpRemove f c)
  have "filter (\<lambda>e. fst e = k \<and> \<not> (fst e = topic_key f \<and> sub_client_id (snd e) = c)) es =
      (if k = topic_key f then filter (\<lambda>e. fst e = k \<and> sub_client_id (snd e) \<noteq> c) es
       else filter (\<lambda>e. fst e = k) es)"
    by (auto intro: filter_cong)
  then show ?thesis
    using OpRemove assms
    by (simp add: tree.stored_ops entries_under_def filter_map comp_def conj_commute)
qed (simp_all add: assms tree.stored_ops entries_under_def filter_map comp_def conj_commute)

lemma apply_tree_inv: "tree_inv t \<Longrightarrow> tree_inv (apply_tree t op)"
  by (cases op) (simp_all add: tree.invar_ops)

interpretation tree_machine: invariant_run apply_tree tree_inv
  by unfold_locales (rule apply_tree_inv)

lemma tree_run_inv: "tree_inv (tree_run ops)"
  by (simp add: tree_run_def tree_machine.run_inv)

lemma run_refines:
  "(\<And>k. subs_at t k = entries_under es k) \<Longrightarrow>
     subs_at (foldl apply_tree t ops) k = entries_under (foldl apply_spec es ops) k"
proof (induction ops arbitrary: t es)
  case (Cons op ops)
  then have "subs_at (apply_tree t op) k = entries_under (apply_spec es op) k" for k
    by (intro apply_refines)
  with Cons.IH show ?case by simp
qed simp

lemma tree_run_stored: "subs_at (tree_run ops) k = entries_under (spec_run ops) k"
  unfolding tree_run_def spec_run_def by (rule run_refines) (simp add: entries_under_def)

lemma set_entries_under: "s \<in> set (entries_under es k) \<longleftrightarrow> (k, s) \<in> set es"
  by (force simp: entries_under_def)

lemma set_tree_matches:
  "tree_inv t \<Longrightarrow> s \<in> set (tree_matches t topic) \<longleftrightarrow>
     (\<exists>k. s \<in> set (subs_at t k) \<and> prefix_match k (split_on slash topic))"
  by (auto simp: tree.set_matches visited_filters_def matching_filters_iff)

section \<open>Properties\<close>

text \<open>
  C5: The tree implements the list of subscriptions. After any sequence of operations on an
  empty tree, \<open>matches\<close> returns, for the filters the traversal visits in its order, the
  subscribers whose entries survive under each filter, in the order of subscription.
\<close>

theorem tree_refines_entries:
  "tree_matches (tree_run ops) topic =
     concat (map (entries_under (spec_run ops)) (visited_filters topic))"
proof -
  have "subs_at (tree_run ops) = entries_under (spec_run ops)"
    by (rule ext) (rule tree_run_stored)
  then show ?thesis
    using tree.matches_stored [OF tree_run_inv [of ops]] by simp
qed

text \<open>
  No subscription is missed: whatever the history of the tree, a subscriber whose entry
  is present under a filter that matches the topic by the rules of the standard is among the
  subscribers \<open>matches\<close> returns.
\<close>

theorem matches_complete:
  assumes "(topic_key f, s) \<in> set (spec_run ops)"
    and "mqtt_match (topic_key f) (split_on slash topic)"
  shows "s \<in> set (tree_matches (tree_run ops) topic)"
  using assms mqtt_match_prefix
  by (auto simp: set_tree_matches tree_run_inv tree_run_stored set_entries_under)

theorem matches_complete_witness:
  "\<lparr>sub_client_id = [99], sub_sender = Tx 0, sub_qos = AtLeastOnce\<rparr> \<in>
     set (tree_matches (tree_run [OpAdd (bytes_of ''s/+/t'')
       \<lparr>sub_client_id = [99], sub_sender = Tx 0, sub_qos = AtLeastOnce\<rparr>])
       (bytes_of ''s/r/t''))"
  by (rule matches_complete [of "bytes_of ''s/+/t''"])
    (simp_all add: spec_run_def bytes_of_def topic_key_def)

text \<open>
  C14: What is delivered exactly: a subscriber is returned if and only if it has an entry under
  a filter that matches the topic or some sequence of the topic's first levels. A filter
  therefore also receives everything published below the topics it matches.
\<close>

theorem matches_exact:
  "(s \<in> set (tree_matches (tree_run ops) topic)) =
     (\<exists>k n. (k, s) \<in> set (spec_run ops) \<and> n \<le> length (split_on slash topic)
        \<and> mqtt_match k (take n (split_on slash topic)))"
  by (auto simp: set_tree_matches tree_run_inv tree_run_stored set_entries_under
      prefix_match_def)

text \<open>
  Over-delivery: a subscription to a topic without wildcards is also returned for every
  topic below it, although its filter does not match that topic by the rules of the standard.
\<close>

theorem parent_subscription_matches:
  assumes "tree_inv t" and "hash \<notin> set f" and "plus_sign \<notin> set f"
  shows "s \<in> set (tree_matches (tree_add t f s) (f @ slash # rest)) \<and>
    \<not> mqtt_match (split_on slash f) (split_on slash (f @ slash # rest))"
proof
  have free: "list_all (\<lambda>l. l \<noteq> [hash] \<and> l \<noteq> [plus_sign]) (split_on slash f)"
    using split_on_levels_free [OF assms(2), of slash] split_on_levels_free [OF assms(3), of slash]
    by (auto simp: list_all_iff)
  have key: "topic_key f = split_on slash f"
    using free canonical_free by (simp add: topic_key_def list_all_iff)
  have "prefix_match (split_on slash f) (split_on slash (f @ slash # rest))"
    using free by (simp add: split_on_sep_append prefix_match_append)
  then have "topic_key f \<in> set (visited_filters (f @ slash # rest))"
    by (simp add: visited_filters_def matching_filters_iff key)
  then have "s \<in># mset (tree_matches (tree_add t f s) (f @ slash # rest))"
    unfolding tree.mset_matches_add [OF assms(1)] by simp
  then show "s \<in> set (tree_matches (tree_add t f s) (f @ slash # rest))"
    by simp
  show "\<not> mqtt_match (split_on slash f) (split_on slash (f @ slash # rest))"
    using free mqtt_match_longer by (simp add: split_on_sep_append)
qed

theorem parent_subscription_matches_witness:
  "\<lparr>sub_client_id = [99], sub_sender = Tx 0, sub_qos = AtLeastOnce\<rparr> \<in>
     set (tree_matches (tree_add empty_node [97]
       \<lparr>sub_client_id = [99], sub_sender = Tx 0, sub_qos = AtLeastOnce\<rparr>) ([97] @ slash # [98]))
   \<and> \<not> mqtt_match (split_on slash [97]) (split_on slash ([97] @ slash # [98]))"
  by (rule parent_subscription_matches) simp_all

text \<open>
  Removing a client from the tree removes exactly its deliveries: for every topic, what
  \<open>matches\<close> returns afterwards is what it returned before without the subscribers of this
  client, in the same order.
\<close>

theorem remove_all_exact:
  assumes "tree_inv t"
  shows "tree_matches (tree_remove_all t c) topic
    = filter (\<lambda>s. sub_client_id s \<noteq> c) (tree_matches t topic)"
  using assms by (rule tree.matches_remove_all)

theorem remove_all_exact_witness:
  "tree_matches (tree_remove_all empty_node [99]) [97]
     = filter (\<lambda>s. sub_client_id s \<noteq> [99]) (tree_matches empty_node [97])"
  by (rule remove_all_exact) simp

end
