(* ===== verification/Session.thy ===== *)
theory Session
  imports Subscriptions
begin

text \<open>
  A client's session (\<open>src/src/broker/session.rs\<close>): its fields, its packet-identifier
  counter and the QoS 1 and QoS 2 bookkeeping.

  The channel to the client, the locks and their scheduling are tokio's. What the code does
  with them is recorded, not modelled: every \<open>send\<close> is appended to \<open>calls\<close>, in program
  order, and an environment decides what the calls return. \<open>send_ok k\<close> is the result of the
  k-th \<open>send\<close> (false when the receiver is gone) and \<open>try_lock_ok k\<close> that of the k-th
  \<open>try_lock\<close> (false when another task holds the lock). Theorems hold for every environment.
  \<open>.lock().await\<close> always returns the guard. An operation is one step; the last section
  takes \<open>enqueue_publish\<close>, which holds two locks one after the other, apart.
\<close>

section \<open>Calls to the runtime\<close>

record environment =
  send_ok :: "nat \<Rightarrow> bool"
  try_lock_ok :: "nat \<Rightarrow> bool"

record io_state =
  calls :: "(sender \<times> packet) list"
  try_locks :: nat

definition send :: "environment \<Rightarrow> sender \<Rightarrow> packet \<Rightarrow> 'a io_state_scheme \<Rightarrow> bool \<times> 'a io_state_scheme"
  where
  "send env tx p io =
     (tx \<noteq> Orphan \<and> send_ok env (length (calls io)), io\<lparr>calls := calls io @ [(tx, p)]\<rparr>)"

text \<open>An environment in which every call succeeds, and the state before the first call.\<close>

definition ideal_env :: environment where
  "ideal_env = \<lparr>send_ok = (\<lambda>_. True), try_lock_ok = (\<lambda>_. True)\<rparr>"

definition no_calls :: io_state where
  "no_calls = \<lparr>calls = [], try_locks = 0\<rparr>"

section \<open>Data\<close>

record pending_qos1 =
  p1_packet :: publish_packet

datatype qos2_state = WaitingPubrec | WaitingPubcomp

record pending_qos2 =
  p2_packet :: publish_packet
  p2_state :: qos2_state

record session =
  se_client_id :: rstring
  se_clean_session :: bool
  se_keep_alive :: u16
  se_sender :: sender
  se_next_packet_id :: u16
  se_pending_qos1 :: "packet_id \<Rightarrow> pending_qos1 option"
  se_pending_qos2 :: "packet_id \<Rightarrow> pending_qos2 option"
  se_pending_outgoing :: "publish_packet list"

section \<open>Operations\<close>

text \<open>\<open>Session::new\<close>; the reference names the new session and its channel.\<close>

definition session_new :: "nat \<Rightarrow> rstring \<Rightarrow> bool \<Rightarrow> u16 \<Rightarrow> session" where
  "session_new r client_id clean_session keep_alive =
     \<lparr>se_client_id = client_id, se_clean_session = clean_session,
      se_keep_alive = keep_alive, se_sender = Tx r, se_next_packet_id = 1,
      se_pending_qos1 = Map.empty, se_pending_qos2 = Map.empty, se_pending_outgoing = []\<rparr>"

definition new_packet_id :: "session \<Rightarrow> packet_id \<times> session" where
  "new_packet_id s =
     (let id = se_next_packet_id s;
          s = s\<lparr>se_next_packet_id := id + 1\<rparr>
      in if id = 0 then (PacketId 1, s\<lparr>se_next_packet_id := 1\<rparr>)
         else (PacketId id, s))"

text \<open>
  \<open>Session::sender\<close>: a failed \<open>try_lock\<close> yields the sending half of a fresh channel
  whose receiver has already been dropped.
\<close>

definition session_sender ::
  "environment \<Rightarrow> session \<Rightarrow> 'a io_state_scheme \<Rightarrow> sender \<times> 'a io_state_scheme" where
  "session_sender env s io =
     (if try_lock_ok env (try_locks io) then se_sender s else Orphan,
      io\<lparr>try_locks := try_locks io + 1\<rparr>)"

definition enqueue_publish ::
  "environment \<Rightarrow> publish_packet \<Rightarrow> session \<Rightarrow> 'a io_state_scheme
    \<Rightarrow> session \<times> 'a io_state_scheme" where
  "enqueue_publish env packet s io =
     (if pp_qos packet \<noteq> AtMostOnce then
        (let (packet_id, s) = new_packet_id s;
             packet = packet\<lparr>pp_packet_id := Some packet_id\<rparr>;
             (sent, io) = send env (se_sender s) (Publish packet) io
         in if \<not> sent then (s, io)
            else (case pp_qos packet of
                    AtLeastOnce \<Rightarrow>
                      (s\<lparr>se_pending_qos1 :=
                           (se_pending_qos1 s)(packet_id \<mapsto> \<lparr>p1_packet = packet\<rparr>)\<rparr>, io)
                  | ExactlyOnce \<Rightarrow>
                      (s\<lparr>se_pending_qos2 :=
                           (se_pending_qos2 s)(packet_id \<mapsto>
                              \<lparr>p2_packet = packet, p2_state = WaitingPubrec\<rparr>)\<rparr>, io)
                  | AtMostOnce \<Rightarrow> (s, io)))
      else
        (let (_, io) = send env (se_sender s) (Publish packet) io in (s, io)))"

definition session_puback :: "packet_id \<Rightarrow> session \<Rightarrow> session" where
  "session_puback packet_id s =
     s\<lparr>se_pending_qos1 := (se_pending_qos1 s)(packet_id := None)\<rparr>"

definition session_pubrec :: "packet_id \<Rightarrow> session \<Rightarrow> session" where
  "session_pubrec packet_id s =
     (case se_pending_qos2 s packet_id of
        None \<Rightarrow> s
      | Some entry \<Rightarrow>
          s\<lparr>se_pending_qos2 :=
              (se_pending_qos2 s)(packet_id \<mapsto> entry\<lparr>p2_state := WaitingPubcomp\<rparr>)\<rparr>)"

definition session_pubcomp :: "packet_id \<Rightarrow> session \<Rightarrow> session" where
  "session_pubcomp packet_id s =
     s\<lparr>se_pending_qos2 := (se_pending_qos2 s)(packet_id := None)\<rparr>"

lemmas session_defs =
  enqueue_publish_def session_puback_def session_pubrec_def session_pubcomp_def

section \<open>Packet identifiers\<close>

text \<open>The identifiers of \<open>n\<close> successive calls.\<close>

fun packet_ids :: "nat \<Rightarrow> session \<Rightarrow> packet_id list" where
  "packet_ids 0 s = []"
| "packet_ids (Suc n) s = (let (i, s') = new_packet_id s in i # packet_ids n s')"

text \<open>The identifier of the call with number \<open>k\<close>, counted from 0, in closed form.\<close>

definition nth_id :: "nat \<Rightarrow> packet_id" where
  "nth_id k = PacketId (if k mod 65536 = 65535 then 1 else of_nat (k mod 65536 + 1))"

lemma of_nat_u16_eq_0: "(of_nat n :: u16) = 0 \<longleftrightarrow> n mod 65536 = 0"
  by (simp add: word_of_nat_eq_0_iff dvd_eq_mod_eq_0)

lemma of_nat_u16_mod: "(of_nat (n mod 65536) :: u16) = of_nat n"
  by (rule word_unat_eq_iff [THEN iffD2]) (simp add: unat_of_nat take_bit_eq_mod)

text \<open>The counter after \<open>k\<close> calls on a new session.\<close>

definition counter :: "nat \<Rightarrow> u16" where
  "counter k = of_nat (k mod 65536 + 1)"

lemma counter_0: "counter k = 0 \<longleftrightarrow> k mod 65536 = 65535"
proof -
  have "k mod 65536 < 65536" by simp
  then show ?thesis
    unfolding counter_def of_nat_u16_eq_0 by (cases "k mod 65536 = 65535") auto
qed

lemma counter_Suc: "counter (Suc k) = (if counter k = 0 then 1 else counter k + 1)"
proof (cases "k mod 65536 = 65535")
  case True
  then have "Suc k mod 65536 = 0" by (simp add: mod_Suc)
  with True show ?thesis by (simp add: counter_0) (simp add: counter_def)
next
  case False
  then have "Suc k mod 65536 = Suc (k mod 65536)" by (simp add: mod_Suc)
  with False show ?thesis by (simp add: counter_0) (simp add: counter_def)
qed

lemma nth_id_counter: "nth_id k = PacketId (if counter k = 0 then 1 else counter k)"
  by (simp add: nth_id_def counter_0) (simp add: counter_def)

lemma new_packet_id_counter:
  "se_next_packet_id s = counter k \<Longrightarrow>
     new_packet_id s = (nth_id k, s\<lparr>se_next_packet_id := counter (Suc k)\<rparr>)"
  by (simp add: new_packet_id_def nth_id_counter counter_Suc Let_def)

lemma packet_ids_counter:
  "se_next_packet_id s = counter k \<Longrightarrow> packet_ids n s = map nth_id [k..<k + n]"
proof (induction n arbitrary: s k)
  case (Suc n)
  then show ?case
    by (simp add: new_packet_id_counter upt_conv_Cons Suc.IH [of _ "Suc k"] del: upt_Suc)
qed simp

lemma counter_new: "se_next_packet_id (session_new r cid clean ka) = counter 0"
  by (simp add: session_new_def counter_def)

lemma nth_id_inj:
  assumes "i < 65535" and "j < 65535" and "nth_id i = nth_id j"
  shows "i = j"
proof -
  have "(of_nat (i + 1) :: u16) = of_nat (j + 1)"
    using assms by (simp add: nth_id_def)
  then have "unat (of_nat (i + 1) :: u16) = unat (of_nat (j + 1) :: u16)"
    by simp
  with assms(1,2) show ?thesis
    by (simp del: of_nat_add of_nat_Suc)
qed

lemma nth_id_not_0: "nth_id k \<noteq> PacketId 0"
  by (auto simp: nth_id_counter)

text \<open>
  C22: Packet identifiers in closed form: on a new session the call with number \<open>k\<close> returns
  \<open>k mod 65536 + 1\<close>, except that it returns 1 when this would be 65536; the identifier 0,
  which the protocol forbids, is never returned, and the first 65535 identifiers are pairwise
  different.
\<close>

theorem packet_ids_new_session:
  "packet_ids n (session_new r cid clean ka) = map nth_id [0..<n] \<and>
   PacketId 0 \<notin> set (packet_ids n (session_new r cid clean ka)) \<and>
   distinct (packet_ids (min n 65535) (session_new r cid clean ka))"
proof -
  have "packet_ids m (session_new r cid clean ka) = map nth_id [0..<m]" for m
    using packet_ids_counter [OF counter_new] by simp
  moreover have "PacketId 0 \<notin> set (map nth_id [0..<n])"
    using nth_id_not_0 by force
  moreover have "distinct (map nth_id [0..<min n 65535])"
    by (auto simp: distinct_map inj_on_def intro: nth_id_inj)
  ultimately show ?thesis by simp
qed

text \<open>
  The identifier 1 is issued twice in a row when the counter wraps: on a new session the
  calls with numbers 65535 and 65536 both return 1.
\<close>

theorem packet_id_wrap_repeats:
  "packet_ids 65537 (session_new r cid clean ka) ! 65535 = PacketId 1 \<and>
   packet_ids 65537 (session_new r cid clean ka) ! 65536 = PacketId 1"
proof -
  have "packet_ids 65537 (session_new r cid clean ka) = map nth_id [0..<65537]"
    using packet_ids_counter [OF counter_new] by simp
  then show ?thesis by (simp add: nth_id_def)
qed

section \<open>The session as a state machine\<close>

datatype session_event =
    Enqueue publish_packet | Ack packet_id | Rec packet_id | Comp packet_id

fun session_step ::
  "environment \<Rightarrow> session \<times> 'a io_state_scheme \<Rightarrow> session_event \<Rightarrow> session \<times> 'a io_state_scheme"
  where
  "session_step env (s, io) (Enqueue p) = enqueue_publish env p s io"
| "session_step env (s, io) (Ack i) = (session_puback i s, io)"
| "session_step env (s, io) (Rec i) = (session_pubrec i s, io)"
| "session_step env (s, io) (Comp i) = (session_pubcomp i s, io)"

text \<open>The pending tables hold what was sent: a message of their QoS under its own identifier.\<close>

definition pending_ok :: "session \<Rightarrow> bool" where
  "pending_ok s \<longleftrightarrow>
     se_pending_qos1 s (PacketId 0) = None \<and> se_pending_qos2 s (PacketId 0) = None \<and>
     (\<forall>i e. se_pending_qos1 s i = Some e \<longrightarrow>
        pp_packet_id (p1_packet e) = Some i \<and> pp_qos (p1_packet e) = AtLeastOnce) \<and>
     (\<forall>i e. se_pending_qos2 s i = Some e \<longrightarrow>
        pp_packet_id (p2_packet e) = Some i \<and> pp_qos (p2_packet e) = ExactlyOnce)"

lemma new_packet_id_frame:
  "new_packet_id s = (i, s') \<Longrightarrow>
     i \<noteq> PacketId 0 \<and> se_sender s' = se_sender s
     \<and> se_pending_qos1 s' = se_pending_qos1 s \<and> se_pending_qos2 s' = se_pending_qos2 s"
  by (auto simp: new_packet_id_def Let_def split: if_splits)

text \<open>The three outcomes of \<open>enqueue_publish\<close>.\<close>

lemma enqueue_publish_cases:
  assumes "new_packet_id s = (i, s')"
    and "send env (se_sender s) (Publish (p\<lparr>pp_packet_id := Some i\<rparr>)) io = (sent, io')"
    and "pp_qos p \<noteq> AtMostOnce"
  shows "enqueue_publish env p s io =
    (if \<not> sent then (s', io')
     else if pp_qos p = AtLeastOnce then
       (s'\<lparr>se_pending_qos1 := (se_pending_qos1 s)
            (i \<mapsto> \<lparr>p1_packet = p\<lparr>pp_packet_id := Some i\<rparr>\<rparr>)\<rparr>, io')
     else
       (s'\<lparr>se_pending_qos2 := (se_pending_qos2 s)
            (i \<mapsto> \<lparr>p2_packet = p\<lparr>pp_packet_id := Some i\<rparr>, p2_state = WaitingPubrec\<rparr>)\<rparr>, io'))"
  using assms new_packet_id_frame [OF assms(1)]
  by (cases "pp_qos p") (simp_all add: enqueue_publish_def Let_def)

lemma session_step_frame:
  assumes "session_step env (s, io) ev = (s', io')"
  shows "se_client_id s' = se_client_id s" and "se_sender s' = se_sender s"
    and "se_clean_session s' = se_clean_session s" and "se_keep_alive s' = se_keep_alive s"
    and "se_pending_outgoing s' = se_pending_outgoing s"
  using assms
  by (cases ev; auto simp: session_defs new_packet_id_def send_def Let_def
        split: qos.splits option.splits if_splits)+

lemma pending_ok_new: "pending_ok (session_new r cid clean ka)"
  by (simp add: pending_ok_def session_new_def)

lemma pending_ok_enqueue:
  assumes "pending_ok s" and "enqueue_publish env p s io = (s', io')"
  shows "pending_ok s'"
proof (cases "pp_qos p = AtMostOnce")
  case True
  with assms show ?thesis by (auto simp: enqueue_publish_def send_def)
next
  case False
  obtain i s1 where id: "new_packet_id s = (i, s1)" by fastforce
  obtain sent io1
    where sd: "send env (se_sender s) (Publish (p\<lparr>pp_packet_id := Some i\<rparr>)) io = (sent, io1)"
    by fastforce
  have i: "i \<noteq> PacketId 0" and s1: "pending_ok s1"
    using new_packet_id_frame [OF id] assms(1) by (simp_all add: pending_ok_def)
  have q: "pp_qos p = AtLeastOnce \<or> pp_qos p = ExactlyOnce"
    using False by (cases "pp_qos p") simp_all
  show ?thesis
    using assms(2) assms(1) i s1 q unfolding enqueue_publish_cases [OF id sd False]
    by (auto simp: pending_ok_def split: if_splits)
qed

lemma pending_ok_step: "pending_ok (fst sio) \<Longrightarrow> pending_ok (fst (session_step env sio ev))"
proof (cases sio; cases ev)
  fix s io p
  assume "pending_ok (fst sio)" and "sio = (s, io)" and "ev = Enqueue p"
  then show ?thesis
    using pending_ok_enqueue [of s env p io] by (cases "enqueue_publish env p s io") simp
qed (auto simp: pending_ok_def session_defs split: option.splits if_splits)

interpretation session_machine: invariant_run "session_step env" "\<lambda>sio. pending_ok (fst sio)"
  for env
  by unfold_locales (rule pending_ok_step)

section \<open>Retention of QoS 1 messages\<close>

text \<open>The number of identifiers a sequence of events takes.\<close>

fun takes_id :: "session_event \<Rightarrow> bool" where
  "takes_id (Enqueue p) = (pp_qos p \<noteq> AtMostOnce)"
| "takes_id _ = False"

lemma step_counter:
  "se_next_packet_id s = counter k \<Longrightarrow> session_step env (s, io) ev = (s', io') \<Longrightarrow>
     se_next_packet_id s' = counter (if takes_id ev then Suc k else k)"
  by (cases ev)
    (auto simp: session_defs new_packet_id_counter send_def Let_def
      split: qos.splits option.splits if_splits)

lemma step_keeps_pending1:
  assumes "se_next_packet_id s = counter k" and "session_step env (s, io) ev = (s', io')"
    and "se_pending_qos1 s i = Some e" and "ev \<noteq> Ack i" and "takes_id ev \<Longrightarrow> nth_id k \<noteq> i"
  shows "se_pending_qos1 s' i = Some e"
  using assms
  by (cases ev)
    (auto simp: session_defs new_packet_id_counter send_def Let_def
      split: qos.splits option.splits if_splits)

lemma run_counter:
  "se_next_packet_id s = counter k \<Longrightarrow> foldl (session_step env) (s, io) evs = (s', io') \<Longrightarrow>
     se_next_packet_id s' = counter (k + length (filter takes_id evs))"
proof (induction evs arbitrary: s io k)
  case (Cons ev evs)
  obtain s1 io1 where step: "session_step env (s, io) ev = (s1, io1)" by fastforce
  have "se_next_packet_id s' =
      counter ((if takes_id ev then Suc k else k) + length (filter takes_id evs))"
    using Cons.prems(2) step by (intro Cons.IH [OF step_counter [OF Cons.prems(1) step]]) simp
  then show ?case by (simp split: if_splits)
qed simp

lemma run_keeps_pending1:
  "se_next_packet_id s = counter k \<Longrightarrow> foldl (session_step env) (s, io) evs = (s', io') \<Longrightarrow>
     se_pending_qos1 s i = Some e \<Longrightarrow> Ack i \<notin> set evs \<Longrightarrow>
     (\<And>j. k \<le> j \<Longrightarrow> j < k + length (filter takes_id evs) \<Longrightarrow> nth_id j \<noteq> i) \<Longrightarrow>
     se_pending_qos1 s' i = Some e"
proof (induction evs arbitrary: s io k)
  case (Cons ev evs)
  obtain s1 io1 where step: "session_step env (s, io) ev = (s1, io1)" by fastforce
  have "se_pending_qos1 s1 i = Some e"
    using Cons.prems by (intro step_keeps_pending1 [OF Cons.prems(1) step]) auto
  moreover have "\<And>j. (if takes_id ev then Suc k else k) \<le> j \<Longrightarrow>
      j < (if takes_id ev then Suc k else k) + length (filter takes_id evs) \<Longrightarrow> nth_id j \<noteq> i"
    using Cons.prems(5) by (auto split: if_splits)
  ultimately show ?case
    using Cons.prems(2,4) step
    by (intro Cons.IH [OF step_counter [OF Cons.prems(1) step]]) simp_all
qed simp

lemma run_sender: "se_sender (fst (foldl (session_step env) sio evs)) = se_sender (fst sio)"
proof (induction evs arbitrary: sio)
  case (Cons ev evs)
  obtain s io s1 io1 where "sio = (s, io)" and "session_step env (s, io) ev = (s1, io1)"
    by (metis surj_pair)
  then show ?case
    using Cons.IH session_step_frame(2) by simp
qed simp

text \<open>A QoS 1 message whose \<open>send\<close> succeeded is in the table under its new identifier.\<close>

lemma enqueue_qos1_sent:
  assumes "pp_qos p = AtLeastOnce" and "se_sender s \<noteq> Orphan"
    and "send_ok env (length (calls io))"
  shows "enqueue_publish env p s io =
    (let (i, s') = new_packet_id s; p' = p\<lparr>pp_packet_id := Some i\<rparr>
     in (s'\<lparr>se_pending_qos1 := (se_pending_qos1 s)(i \<mapsto> \<lparr>p1_packet = p'\<rparr>)\<rparr>,
         io\<lparr>calls := calls io @ [(se_sender s, Publish p')]\<rparr>))"
proof -
  obtain i s' where id: "new_packet_id s = (i, s')" by fastforce
  have sd: "send env (se_sender s) (Publish (p\<lparr>pp_packet_id := Some i\<rparr>)) io =
      (True, io\<lparr>calls := calls io @ [(se_sender s, Publish (p\<lparr>pp_packet_id := Some i\<rparr>))]\<rparr>)"
    using assms(2,3) by (simp add: send_def)
  then show ?thesis
    using enqueue_publish_cases [OF id sd] assms(1) id by (simp add: Let_def)
qed

text \<open>
  C11: At-least-once retention: as long as a session has taken fewer than 65536 packet
  identifiers, a QoS 1 message that was sent successfully stays in \<open>pending_qos1\<close> under
  its identifier, whatever else happens in the session, until the PUBACK of that identifier
  arrives.
\<close>

theorem qos1_retained_until_ack:
  assumes before: "foldl (session_step env) (session_new r cid clean ka, io) evs = (s, io1)"
    and qos: "pp_qos p = AtLeastOnce" and sent: "send_ok env (length (calls io1))"
    and new_id: "fst (new_packet_id s) = i"
    and "Ack i \<notin> set evs'"
    and "length (filter takes_id evs) + length (filter takes_id evs') < 65535"
  shows "se_pending_qos1
      (fst (foldl (session_step env) (session_step env (s, io1) (Enqueue p)) evs')) i
    = Some \<lparr>p1_packet = p\<lparr>pp_packet_id := Some i\<rparr>\<rparr>"
proof -
  define k where "k = length (filter takes_id evs)"
  have k: "se_next_packet_id s = counter k"
    using run_counter [OF counter_new before] by (simp add: k_def)
  have i: "i = nth_id k"
    using new_id by (simp add: new_packet_id_counter [OF k])
  have tx: "se_sender s \<noteq> Orphan"
    using run_sender [of env "(session_new r cid clean ka, io)" evs] before
    by (simp add: session_new_def)
  obtain s1 io1' where step: "session_step env (s, io1) (Enqueue p) = (s1, io1')" by fastforce
  have pend: "se_pending_qos1 s1 i = Some \<lparr>p1_packet = p\<lparr>pp_packet_id := Some i\<rparr>\<rparr>"
    using step new_id enqueue_qos1_sent [OF qos tx sent] by (auto simp: Let_def split: prod.splits)
  have k1: "se_next_packet_id s1 = counter (Suc k)"
    using step_counter [OF k step] qos by simp
  have fresh: "nth_id j \<noteq> i" if "Suc k \<le> j" "j < Suc k + length (filter takes_id evs')" for j
    using nth_id_inj [of j k] that assms(6) unfolding i k_def by auto
  show ?thesis
    using run_keeps_pending1 [OF k1 _ pend assms(5) fresh] step by (metis prod.collapse)
qed

theorem qos1_retained_until_ack_witness:
  "se_pending_qos1
     (fst (foldl (session_step ideal_env)
       (session_step ideal_env (session_new 0 [99] True 60, no_calls)
         (Enqueue (message AtLeastOnce [97] None [1])))
       [Ack (PacketId 2)])) (PacketId 1)
   = Some \<lparr>p1_packet = message AtLeastOnce [97] (Some (PacketId 1)) [1]\<rparr>"
  using qos1_retained_until_ack [of ideal_env 0 "[99]" True 60 no_calls "[]"
      "session_new 0 [99] True 60" no_calls "message AtLeastOnce [97] None [1]" "PacketId 1"
      "[Ack (PacketId 2)]"]
  by (simp add: new_packet_id_def session_new_def ideal_env_def)

text \<open>
  C40: The wrap of the identifier counter loses a message: when the counter is 0, two QoS 1
  messages sent successfully one after the other both carry the identifier 1, and the second
  replaces the first in the table although the first has not been acknowledged.
\<close>

theorem packet_id_wrap_overwrites:
  assumes "se_next_packet_id s = 0" and "se_sender s \<noteq> Orphan"
    and "pp_qos p = AtLeastOnce" and "pp_qos q = AtLeastOnce"
    and "send_ok env (length (calls io))" and "send_ok env (Suc (length (calls io)))"
    and "foldl (session_step env) (s, io) [Enqueue p, Enqueue q] = (s', io')"
  shows "calls io' = calls io
      @ [(se_sender s, Publish (p\<lparr>pp_packet_id := Some (PacketId 1)\<rparr>)),
         (se_sender s, Publish (q\<lparr>pp_packet_id := Some (PacketId 1)\<rparr>))] \<and>
    se_pending_qos1 s' = (se_pending_qos1 s)
      (PacketId 1 \<mapsto> \<lparr>p1_packet = q\<lparr>pp_packet_id := Some (PacketId 1)\<rparr>\<rparr>)"
  using assms by (auto simp: enqueue_qos1_sent new_packet_id_def Let_def)

theorem packet_id_wrap_overwrites_witness:
  "calls (snd (foldl (session_step ideal_env)
       (session_new 0 [99] True 60\<lparr>se_next_packet_id := 0\<rparr>, no_calls)
       [Enqueue (message AtLeastOnce [97] None [1]), Enqueue (message AtLeastOnce [97] None [2])]))
     = [(Tx 0, Publish (message AtLeastOnce [97] (Some (PacketId 1)) [1])),
        (Tx 0, Publish (message AtLeastOnce [97] (Some (PacketId 1)) [2]))]"
  using packet_id_wrap_overwrites
    [of "session_new 0 [99] True 60\<lparr>se_next_packet_id := 0\<rparr>"
      "message AtLeastOnce [97] None [1]" "message AtLeastOnce [97] None [2]" ideal_env no_calls]
  by (simp add: session_new_def ideal_env_def no_calls_def)
    (metis prod.collapse)

section \<open>The QoS 2 handshake\<close>

text \<open>
  The sender's side of the handshake for one identifier: a message waits for its PUBREC, then
  for its PUBCOMP. An event for the identifier always has its effect; all other events leave
  the state alone.
\<close>

inductive qos2_step ::
  "packet_id \<Rightarrow> session_event \<Rightarrow> qos2_state option \<Rightarrow> qos2_state option \<Rightarrow> bool" for i where
  published: "pp_qos p = ExactlyOnce \<Longrightarrow> qos2_step i (Enqueue p) st (Some WaitingPubrec)"
| received: "qos2_step i (Rec i) (Some st) (Some WaitingPubcomp)"
| completed: "qos2_step i (Comp i) (Some st) None"
| idle: "ev \<noteq> Rec i \<or> st = None \<Longrightarrow> ev \<noteq> Comp i \<or> st = None \<Longrightarrow> qos2_step i ev st st"

inductive_cases qos2_to_pubcomp: "qos2_step i ev st (Some WaitingPubcomp)"

definition qos2_status :: "session \<Rightarrow> packet_id \<Rightarrow> qos2_state option" where
  "qos2_status s i = map_option p2_state (se_pending_qos2 s i)"

lemma enqueue_qos2_step:
  "qos2_step i (Enqueue p) (qos2_status s i) (qos2_status (fst (enqueue_publish env p s io)) i)"
proof (cases "pp_qos p = AtMostOnce")
  case True
  then show ?thesis
    by (simp add: enqueue_publish_def split_beta qos2_step.idle)
next
  case False
  obtain j s1 where id: "new_packet_id s = (j, s1)" by fastforce
  obtain sent io1
    where sd: "send env (se_sender s) (Publish (p\<lparr>pp_packet_id := Some j\<rparr>)) io = (sent, io1)"
    by fastforce
  have s1: "se_pending_qos2 s1 = se_pending_qos2 s"
    using new_packet_id_frame [OF id] by simp
  show ?thesis
  proof (cases "pp_qos p = ExactlyOnce \<and> sent \<and> i = j")
    case True
    then show ?thesis
      unfolding enqueue_publish_cases [OF id sd False]
      by (simp add: qos2_status_def qos2_step.published)
  next
    case other: False
    then have "qos2_status (fst (enqueue_publish env p s io)) i = qos2_status s i"
      unfolding enqueue_publish_cases [OF id sd False]
      using False s1 by (cases "pp_qos p") (auto simp: qos2_status_def)
    then show ?thesis by (simp add: qos2_step.idle)
  qed
qed

lemma qos2_machine_step:
  "qos2_step i ev (qos2_status s i) (qos2_status (fst (session_step env (s, io) ev)) i)"
proof (cases ev)
  case (Enqueue p)
  then show ?thesis by (simp add: enqueue_qos2_step)
next
  case (Ack j)
  then show ?thesis
    by (simp add: session_puback_def qos2_status_def qos2_step.idle)
next
  case (Rec j)
  then show ?thesis
    by (cases "se_pending_qos2 s j"; cases "j = i")
      (simp_all add: session_pubrec_def qos2_status_def qos2_step.received qos2_step.idle)
next
  case (Comp j)
  then show ?thesis
    by (cases "se_pending_qos2 s j"; cases "j = i")
      (simp_all add: session_pubcomp_def qos2_status_def qos2_step.completed qos2_step.idle)
qed

text \<open>
  No message of a session waits for PUBCOMP unless its PUBREC has arrived: in every run
  from a new session, an entry in state \<open>WaitingPubcomp\<close> has been preceded by a PUBREC
  with its identifier.
\<close>

theorem waiting_pubcomp_after_pubrec:
  assumes "qos2_status (fst (foldl (session_step env) (session_new r cid clean ka, io) evs)) i
    = Some WaitingPubcomp"
  shows "Rec i \<in> set evs"
  using assms
proof (induction evs rule: rev_induct)
  case Nil
  then show ?case by (simp add: qos2_status_def session_new_def)
next
  case (snoc ev evs)
  obtain s io1 where run: "foldl (session_step env) (session_new r cid clean ka, io) evs = (s, io1)"
    by fastforce
  have "qos2_step i ev (qos2_status s i) (Some WaitingPubcomp)"
    using qos2_machine_step [of i ev s env io1] snoc.prems run by simp
  then show ?case
    using snoc.IH run by (auto elim: qos2_to_pubcomp)
qed

theorem waiting_pubcomp_after_pubrec_witness:
  "Rec (PacketId 1) \<in> set [Enqueue (message ExactlyOnce [97] None [1]), Rec (PacketId 1)]"
  by (rule waiting_pubcomp_after_pubrec [of ideal_env 0 "[99]" True 60 no_calls])
    (simp add: session_new_def enqueue_publish_def new_packet_id_def send_def ideal_env_def
      no_calls_def session_pubrec_def qos2_status_def Let_def)

text \<open>Between two uses of an identifier, only the events that name it change its entry.\<close>

fun qos2_event :: "packet_id \<Rightarrow> session_event \<Rightarrow> pending_qos2 option \<Rightarrow> pending_qos2 option" where
  "qos2_event i (Rec j) e = (if j = i then map_option (\<lambda>x. x\<lparr>p2_state := WaitingPubcomp\<rparr>) e else e)"
| "qos2_event i (Comp j) e = (if j = i then None else e)"
| "qos2_event i _ e = e"

lemma step_pending2:
  assumes "se_next_packet_id s = counter k" and "session_step env (s, io) ev = (s', io')"
    and "takes_id ev \<Longrightarrow> nth_id k \<noteq> i"
  shows "se_pending_qos2 s' i = qos2_event i ev (se_pending_qos2 s i)"
  using assms
  by (cases ev)
    (auto simp: session_defs new_packet_id_counter send_def Let_def
      split: qos.splits option.splits if_splits)

lemma run_pending2:
  "se_next_packet_id s = counter k \<Longrightarrow> foldl (session_step env) (s, io) evs = (s', io') \<Longrightarrow>
     (\<And>j. k \<le> j \<Longrightarrow> j < k + length (filter takes_id evs) \<Longrightarrow> nth_id j \<noteq> i) \<Longrightarrow>
     se_pending_qos2 s' i = fold (qos2_event i) evs (se_pending_qos2 s i)"
proof (induction evs arbitrary: s io k)
  case (Cons ev evs)
  obtain s1 io1 where step: "session_step env (s, io) ev = (s1, io1)" by fastforce
  have s1: "se_pending_qos2 s1 i = qos2_event i ev (se_pending_qos2 s i)"
    using Cons.prems(3) by (intro step_pending2 [OF Cons.prems(1) step]) auto
  have "\<And>j. (if takes_id ev then Suc k else k) \<le> j \<Longrightarrow>
      j < (if takes_id ev then Suc k else k) + length (filter takes_id evs) \<Longrightarrow> nth_id j \<noteq> i"
    using Cons.prems(3) by (auto split: if_splits)
  from Cons.IH [OF step_counter [OF Cons.prems(1) step] _ this] Cons.prems(2) step s1
  show ?case by simp
qed simp

lemma fold_qos2_None: "fold (qos2_event i) evs None = None"
proof (induction evs)
  case (Cons ev evs)
  then show ?case by (cases ev) simp_all
qed simp

lemma fold_qos2_Some:
  "fold (qos2_event i) evs (Some e) =
     (if Comp i \<in> set evs then None
      else Some (if Rec i \<in> set evs then e\<lparr>p2_state := WaitingPubcomp\<rparr> else e))"
proof (induction evs arbitrary: e)
  case (Cons ev evs)
  show ?case
    by (cases ev) (auto simp: Cons.IH fold_qos2_None)
qed simp

lemma enqueue_qos2_sent:
  assumes "pp_qos p = ExactlyOnce" and "se_sender s \<noteq> Orphan"
    and "send_ok env (length (calls io))"
  shows "se_pending_qos2 (fst (enqueue_publish env p s io)) =
    (se_pending_qos2 s)(fst (new_packet_id s) \<mapsto>
      \<lparr>p2_packet = p\<lparr>pp_packet_id := Some (fst (new_packet_id s))\<rparr>, p2_state = WaitingPubrec\<rparr>)"
proof -
  obtain i s' where id: "new_packet_id s = (i, s')" by fastforce
  have sd: "send env (se_sender s) (Publish (p\<lparr>pp_packet_id := Some i\<rparr>)) io =
      (True, io\<lparr>calls := calls io @ [(se_sender s, Publish (p\<lparr>pp_packet_id := Some i\<rparr>))]\<rparr>)"
    using assms(2,3) by (simp add: send_def)
  then show ?thesis
    using enqueue_publish_cases [OF id sd] assms(1) id new_packet_id_frame [OF id] by simp
qed

text \<open>
  C18: The QoS 2 handshake of a session as the sender of a message: as long as the session has
  taken fewer than 65536 packet identifiers, a QoS 2 message that was sent successfully is in
  \<open>pending_qos2\<close>, unchanged and under its identifier, until the PUBCOMP of that identifier
  arrives and not afterwards; it waits for PUBREC until the PUBREC of that identifier arrives
  and for PUBCOMP from then on. No other event changes its entry.
\<close>

theorem qos2_handshake:
  assumes before: "foldl (session_step env) (session_new r cid clean ka, io) evs = (s, io1)"
    and qos: "pp_qos p = ExactlyOnce" and sent: "send_ok env (length (calls io1))"
    and new_id: "fst (new_packet_id s) = i"
    and "length (filter takes_id evs) + length (filter takes_id evs') < 65535"
  shows "se_pending_qos2
      (fst (foldl (session_step env) (session_step env (s, io1) (Enqueue p)) evs')) i
    = (if Comp i \<in> set evs' then None
       else Some \<lparr>p2_packet = p\<lparr>pp_packet_id := Some i\<rparr>,
         p2_state = (if Rec i \<in> set evs' then WaitingPubcomp else WaitingPubrec)\<rparr>)"
proof -
  define k where "k = length (filter takes_id evs)"
  have k: "se_next_packet_id s = counter k"
    using run_counter [OF counter_new before] by (simp add: k_def)
  have i: "i = nth_id k"
    using new_id by (simp add: new_packet_id_counter [OF k])
  have tx: "se_sender s \<noteq> Orphan"
    using run_sender [of env "(session_new r cid clean ka, io)" evs] before
    by (simp add: session_new_def)
  obtain s1 io1' where step: "session_step env (s, io1) (Enqueue p) = (s1, io1')" by fastforce
  have pend: "se_pending_qos2 s1 i
      = Some \<lparr>p2_packet = p\<lparr>pp_packet_id := Some i\<rparr>, p2_state = WaitingPubrec\<rparr>"
    using enqueue_qos2_sent [OF qos tx sent] step new_id by simp
  have k1: "se_next_packet_id s1 = counter (Suc k)"
    using step_counter [OF k step] qos by simp
  have fresh: "nth_id j \<noteq> i" if "Suc k \<le> j" "j < Suc k + length (filter takes_id evs')" for j
    using nth_id_inj [of j k] that assms(5) unfolding i k_def by auto
  obtain s2 io2 where run: "foldl (session_step env) (s1, io1') evs' = (s2, io2)" by fastforce
  from run_pending2 [OF k1 run fresh] pend step run show ?thesis
    by (simp add: fold_qos2_Some)
qed

theorem qos2_handshake_witness:
  "se_pending_qos2
     (fst (foldl (session_step ideal_env)
       (session_step ideal_env (session_new 0 [99] True 60, no_calls)
         (Enqueue (message ExactlyOnce [97] None [1])))
       [Rec (PacketId 2), Rec (PacketId 1), Ack (PacketId 1)])) (PacketId 1)
   = Some \<lparr>p2_packet = message ExactlyOnce [97] (Some (PacketId 1)) [1], p2_state = WaitingPubcomp\<rparr>"
  using qos2_handshake [of ideal_env 0 "[99]" True 60 no_calls "[]"
      "session_new 0 [99] True 60" no_calls "message ExactlyOnce [97] None [1]" "PacketId 1"
      "[Rec (PacketId 2), Rec (PacketId 1), Ack (PacketId 1)]"]
  by (simp add: new_packet_id_def session_new_def ideal_env_def)

section \<open>The two halves of \<open>enqueue_publish\<close>\<close>

text \<open>
  Between the two locks it takes, \<open>enqueue_publish\<close> can be interrupted by other tasks. The
  first half ends when the sender's lock is released; what it leaves to insert, if anything,
  is in its result. The second half is the insertion.
\<close>

definition enqueue_send ::
  "environment \<Rightarrow> publish_packet \<Rightarrow> session \<Rightarrow> 'a io_state_scheme
    \<Rightarrow> (packet_id \<times> publish_packet) option \<times> session \<times> 'a io_state_scheme" where
  "enqueue_send env packet s io =
     (if pp_qos packet \<noteq> AtMostOnce then
        (let (packet_id, s) = new_packet_id s;
             packet = packet\<lparr>pp_packet_id := Some packet_id\<rparr>;
             (sent, io) = send env (se_sender s) (Publish packet) io
         in (if sent then Some (packet_id, packet) else None, s, io))
      else
        (let (_, io) = send env (se_sender s) (Publish packet) io in (None, s, io)))"

definition enqueue_insert :: "(packet_id \<times> publish_packet) option \<Rightarrow> session \<Rightarrow> session" where
  "enqueue_insert pending s =
     (case pending of
        None \<Rightarrow> s
      | Some (packet_id, packet) \<Rightarrow>
          (case pp_qos packet of
             AtLeastOnce \<Rightarrow>
               s\<lparr>se_pending_qos1 := (se_pending_qos1 s)(packet_id \<mapsto> \<lparr>p1_packet = packet\<rparr>)\<rparr>
           | ExactlyOnce \<Rightarrow>
               s\<lparr>se_pending_qos2 :=
                   (se_pending_qos2 s)(packet_id \<mapsto>
                      \<lparr>p2_packet = packet, p2_state = WaitingPubrec\<rparr>)\<rparr>
           | AtMostOnce \<Rightarrow> s))"

lemma enqueue_publish_halves:
  "enqueue_publish env p s io =
     (let (pending, s, io) = enqueue_send env p s io in (enqueue_insert pending s, io))"
  by (cases "pp_qos p")
    (simp_all add: enqueue_publish_def enqueue_send_def enqueue_insert_def Let_def split_def)

text \<open>
  An acknowledgement that overtakes the insertion is lost. \<open>enqueue_publish\<close> is its two
  halves in a row, and after the first half the message is already in the client's channel:
  if the PUBACK of the message is handled before the second half, the message is retained
  afterwards as if it had never been acknowledged, whereas in the other order it is gone.
\<close>

theorem ack_before_insert_is_lost:
  assumes "pp_qos p = AtLeastOnce" and "enqueue_send env p s io = (Some (i, q), s', io')"
  shows "enqueue_publish env p s io = (enqueue_insert (Some (i, q)) s', io') \<and>
    calls io' = calls io @ [(se_sender s, Publish q)] \<and> pp_packet_id q = Some i \<and>
    se_pending_qos1 (enqueue_insert (Some (i, q)) (session_puback i s')) i
      = Some \<lparr>p1_packet = q\<rparr> \<and>
    se_pending_qos1 (session_puback i (enqueue_insert (Some (i, q)) s')) i = None"
proof -
  obtain j t where id: "new_packet_id s = (j, t)" by fastforce
  then have q: "q = p\<lparr>pp_packet_id := Some i\<rparr>" "i = j" "s' = t"
    "io' = io\<lparr>calls := calls io @ [(se_sender s, Publish q)]\<rparr>"
    using assms new_packet_id_frame [OF id]
    by (auto simp: enqueue_send_def send_def Let_def split: if_splits)
  have "enqueue_publish env p s io = (enqueue_insert (Some (i, q)) s', io')"
    using assms(2) by (simp add: enqueue_publish_halves)
  with q assms(1) show ?thesis
    by (simp add: enqueue_insert_def session_puback_def)
qed

theorem ack_before_insert_is_lost_witness:
  "se_pending_qos1 (enqueue_insert (Some (PacketId 1, message AtLeastOnce [97] (Some (PacketId 1)) []))
     (session_puback (PacketId 1)
       ((session_new 0 [99] True 60)\<lparr>se_next_packet_id := 2\<rparr>))) (PacketId 1)
   = Some \<lparr>p1_packet = message AtLeastOnce [97] (Some (PacketId 1)) []\<rparr>"
proof -
  have "enqueue_send ideal_env (message AtLeastOnce [97] None []) (session_new 0 [99] True 60)
      no_calls =
    (Some (PacketId 1, message AtLeastOnce [97] (Some (PacketId 1)) []),
     (session_new 0 [99] True 60)\<lparr>se_next_packet_id := 2\<rparr>,
     no_calls\<lparr>calls := [(Tx 0, Publish (message AtLeastOnce [97] (Some (PacketId 1)) []))]\<rparr>)"
    by (simp add: enqueue_send_def session_new_def new_packet_id_def send_def ideal_env_def
        no_calls_def Let_def)
  from ack_before_insert_is_lost [OF _ this] show ?thesis by simp
qed

end
