(* ===== verification/Broker.thy ===== *)
theory Broker
  imports Session
begin

text \<open>
  The broker (\<open>src/src/broker/mod.rs\<close>): the shared state behind \<open>Arc<Broker>\<close> and its
  handlers. An \<open>Arc<Session>\<close> is a reference into \<open>heap\<close>; \<open>sessions\<close> is the
  \<open>DashMap\<close> from client identifiers to sessions, \<open>subscriptions\<close> the tree behind the
  \<open>RwLock\<close>. Every handler is one step on this state.
\<close>

section \<open>State\<close>

record broker_state = io_state +
  heap :: "nat \<Rightarrow> session"
  next_ref :: nat
  sessions :: "rstring \<Rightarrow> nat option"
  subscriptions :: topic_node

text \<open>\<open>Broker::new\<close>. References from \<open>next_ref\<close> on are not allocated.\<close>

definition broker_new :: broker_state where
  "broker_new =
     \<lparr>calls = [], try_locks = 0, heap = (\<lambda>r. session_new r [] False 0), next_ref = 0,
      sessions = Map.empty, subscriptions = empty_node\<rparr>"

text \<open>The allocation of a session by \<open>Session::new\<close>.\<close>

definition alloc_session ::
  "rstring \<Rightarrow> bool \<Rightarrow> u16 \<Rightarrow> broker_state \<Rightarrow> nat \<times> broker_state" where
  "alloc_session client_id clean_session keep_alive st =
     (let r = next_ref st
      in (r, st\<lparr>heap := (heap st)(r := session_new r client_id clean_session keep_alive),
                next_ref := r + 1\<rparr>))"

section \<open>Operations\<close>

definition register_session :: "nat \<Rightarrow> broker_state \<Rightarrow> broker_state" where
  "register_session r st = st\<lparr>sessions := (sessions st)(se_client_id (heap st r) \<mapsto> r)\<rparr>"

definition remove_session :: "rstring \<Rightarrow> broker_state \<Rightarrow> broker_state" where
  "remove_session client_id st = st\<lparr>sessions := (sessions st)(client_id := None)\<rparr>"

definition get_session :: "rstring \<Rightarrow> broker_state \<Rightarrow> nat option" where
  "get_session client_id st = sessions st client_id"

definition handle_connect :: "nat \<Rightarrow> broker_state \<Rightarrow> connack_return_code \<times> bool" where
  "handle_connect r st = (Accepted, \<not> se_clean_session (heap st r))"

definition update_session :: "nat \<Rightarrow> (session \<Rightarrow> session) \<Rightarrow> broker_state \<Rightarrow> broker_state" where
  "update_session r f st = st\<lparr>heap := (heap st)(r := f (heap st r))\<rparr>"

definition session_enqueue :: "environment \<Rightarrow> nat \<Rightarrow> publish_packet \<Rightarrow> broker_state \<Rightarrow> broker_state"
  where
  "session_enqueue env r packet st =
     (let (s, st') = enqueue_publish env packet (heap st r) st
      in st'\<lparr>heap := (heap st')(r := s)\<rparr>)"

text \<open>The body of the loop of \<open>handle_publish\<close>, then the handler.\<close>

definition deliver ::
  "environment \<Rightarrow> publish_packet \<Rightarrow> broker_state \<Rightarrow> subscriber \<Rightarrow> broker_state" where
  "deliver env packet st s =
     (let effective_qos = min (pp_qos packet) (sub_qos s);
          publish = packet\<lparr>pp_qos := effective_qos\<rparr>
      in if effective_qos = AtMostOnce then snd (send env (sub_sender s) (Publish publish) st)
         else (case get_session (sub_client_id s) st of
                 Some session \<Rightarrow> session_enqueue env session publish st
               | None \<Rightarrow> st))"

definition handle_publish ::
  "environment \<Rightarrow> publish_packet \<Rightarrow> broker_state \<Rightarrow> (broker_error + unit) \<times> broker_state" where
  "handle_publish env packet st =
     (let subscribers = tree_matches (subscriptions st) (pp_topic_name packet)
      in (Inr (), foldl (deliver env packet) st subscribers))"

fun granted_code :: "qos \<Rightarrow> subscribe_return_code" where
  "granted_code AtMostOnce = SuccessQoS0"
| "granted_code AtLeastOnce = SuccessQoS1"
| "granted_code ExactlyOnce = SuccessQoS2"

text \<open>The loop of \<open>handle_subscribe\<close> over the requested filters.\<close>

fun subscribe_filters ::
  "sender \<Rightarrow> rstring \<Rightarrow> (rstring \<times> qos) list \<Rightarrow> subscribe_return_code list \<Rightarrow> broker_state
    \<Rightarrow> subscribe_return_code list \<times> broker_state" where
  "subscribe_filters tx client_id [] return_codes st = (return_codes, st)"
| "subscribe_filters tx client_id ((topic, requested_qos) # rest) return_codes st =
     (if is_valid_topic_filter topic then
        (let granted_qos = AtLeastOnce;
             return_codes = return_codes @ [granted_code granted_qos];
             s = \<lparr>sub_client_id = client_id, sub_sender = tx, sub_qos = granted_qos\<rparr>;
             st = st\<lparr>subscriptions := tree_add (subscriptions st) topic s\<rparr>
         in subscribe_filters tx client_id rest return_codes st)
      else subscribe_filters tx client_id rest (return_codes @ [Failure]) st)"

definition handle_subscribe ::
  "environment \<Rightarrow> nat \<Rightarrow> subscribe_packet \<Rightarrow> broker_state \<Rightarrow> suback_packet \<times> broker_state" where
  "handle_subscribe env r packet st =
     (let (tx, st) = session_sender env (heap st r) st;
          client_id = se_client_id (heap st r);
          (return_codes, st) =
            subscribe_filters tx client_id (sp_subscriptions packet) [] st
      in (\<lparr>sa_packet_id = sp_packet_id packet, sa_return_codes = return_codes\<rparr>, st))"

definition handle_unsubscribe :: "nat \<Rightarrow> unsubscribe_packet \<Rightarrow> broker_state \<Rightarrow> broker_state" where
  "handle_unsubscribe r packet st =
     st\<lparr>subscriptions :=
         foldl (\<lambda>tree topic. tree_remove tree topic (se_client_id (heap st r)))
           (subscriptions st) (up_topic_filters packet)\<rparr>"

definition handle_disconnect :: "nat \<Rightarrow> broker_state \<Rightarrow> broker_state" where
  "handle_disconnect r st =
     (let client_id = se_client_id (heap st r);
          st = remove_session client_id st
      in st\<lparr>subscriptions := tree_remove_all (subscriptions st) client_id\<rparr>)"

definition handle_puback :: "nat \<Rightarrow> packet_id \<Rightarrow> broker_state \<Rightarrow> broker_state" where
  "handle_puback r packet_id st = update_session r (session_puback packet_id) st"

text \<open>\<open>session.sender().send(packet)\<close> with the result ignored.\<close>

definition reply :: "environment \<Rightarrow> nat \<Rightarrow> packet \<Rightarrow> broker_state \<Rightarrow> broker_state" where
  "reply env r packet st =
     (let (tx, st) = session_sender env (heap st r) st
      in snd (send env tx packet st))"

definition handle_pubrec :: "environment \<Rightarrow> nat \<Rightarrow> packet_id \<Rightarrow> broker_state \<Rightarrow> broker_state" where
  "handle_pubrec env r packet_id st =
     reply env r (Pubrel packet_id) (update_session r (session_pubrec packet_id) st)"

definition handle_pubrel :: "environment \<Rightarrow> nat \<Rightarrow> packet_id \<Rightarrow> broker_state \<Rightarrow> broker_state" where
  "handle_pubrel env r packet_id st = reply env r (Pubcomp packet_id) st"

definition handle_pubcomp :: "nat \<Rightarrow> packet_id \<Rightarrow> broker_state \<Rightarrow> broker_state" where
  "handle_pubcomp r packet_id st = update_session r (session_pubcomp packet_id) st"

section \<open>Frames\<close>

text \<open>What the calls to the runtime leave alone.\<close>

lemma send_fields [simp]:
  "snd (send env tx p st) = st\<lparr>calls := calls st @ [(tx, p)]\<rparr>"
  by (simp add: send_def)

lemma reply_eq:
  "reply env r p st =
     st\<lparr>try_locks := Suc (try_locks st),
        calls := calls st
          @ [(if try_lock_ok env (try_locks st) then se_sender (heap st r) else Orphan, p)]\<rparr>"
  by (simp add: reply_def session_sender_def)

lemma subscribe_filters_eq:
  "subscribe_filters tx c subs codes st =
     (codes @ map (\<lambda>(f, q). if is_valid_topic_filter f then SuccessQoS1 else Failure) subs,
      st\<lparr>subscriptions :=
         foldl (\<lambda>t f. tree_add t f \<lparr>sub_client_id = c, sub_sender = tx, sub_qos = AtLeastOnce\<rparr>)
           (subscriptions st) (filter is_valid_topic_filter (map fst subs))\<rparr>)"
  by (induction tx c subs codes st rule: subscribe_filters.induct) (simp_all add: Let_def)

lemma enqueue_publish_io:
  fixes st :: "'a io_state_scheme"
  assumes "enqueue_publish env p s st = (s', st')"
  shows "st' = st\<lparr>calls := calls st'\<rparr>"
  using assms
  by (auto simp: enqueue_publish_def send_def Let_def
      split: if_splits qos.splits prod.splits)

section \<open>Invariant\<close>

definition sendable :: "packet \<Rightarrow> bool" where
  "sendable p \<longleftrightarrow> server_packet p \<and> wf_packet p \<and> (\<forall>q. p = Publish q \<longrightarrow> pp_qos q \<noteq> ExactlyOnce)"

definition session_ok :: "nat \<Rightarrow> session \<Rightarrow> bool" where
  "session_ok r s \<longleftrightarrow>
     se_sender s = Tx r \<and> se_pending_qos2 s = Map.empty \<and> pending_ok s"

definition broker_inv :: "broker_state \<Rightarrow> bool" where
  "broker_inv st \<longleftrightarrow>
     tree_inv (subscriptions st) \<and>
     tree.all_stored (\<lambda>s. sub_qos s = AtLeastOnce) (subscriptions st) \<and>
     (\<forall>r. session_ok r (heap st r)) \<and>
     (\<forall>c r. sessions st c = Some r \<longrightarrow> r < next_ref st \<and> se_client_id (heap st r) = c) \<and>
     list_all (\<lambda>c. sendable (snd c)) (calls st)"

lemma broker_invD:
  assumes "broker_inv st"
  shows "tree_inv (subscriptions st)"
    and "tree.all_stored (\<lambda>s. sub_qos s = AtLeastOnce) (subscriptions st)"
    and "session_ok r (heap st r)"
    and "sessions st c = Some r \<Longrightarrow> r < next_ref st \<and> se_client_id (heap st r) = c"
    and "list_all (\<lambda>c. sendable (snd c)) (calls st)"
  using assms by (auto simp: broker_inv_def)

lemma session_ok_new: "session_ok r (session_new r c clean ka)"
  using pending_ok_new by (simp add: session_ok_def session_new_def)

lemma broker_inv_new: "broker_inv broker_new"
  by (simp add: broker_inv_def broker_new_def tree.all_stored_empty session_ok_new)

text \<open>The effect of queueing a message of QoS 1 for a session.\<close>

definition enqueued_session :: "bool \<Rightarrow> publish_packet \<Rightarrow> session \<Rightarrow> session" where
  "enqueued_session sent p s =
     (let (i, s') = new_packet_id s
      in if sent then
           s'\<lparr>se_pending_qos1 := (se_pending_qos1 s)
                (i \<mapsto> \<lparr>p1_packet = p\<lparr>pp_packet_id := Some i\<rparr>\<rparr>)\<rparr>
         else s')"

lemma session_enqueue_qos1:
  assumes "pp_qos p = AtLeastOnce" and "se_sender (heap st r) = Tx r"
  shows "session_enqueue env r p st =
    st\<lparr>calls := calls st
         @ [(Tx r, Publish (p\<lparr>pp_packet_id := Some (fst (new_packet_id (heap st r)))\<rparr>))],
       heap := (heap st)(r := enqueued_session (send_ok env (length (calls st))) p (heap st r))\<rparr>"
proof -
  obtain i s' where id: "new_packet_id (heap st r) = (i, s')" by fastforce
  have sd: "send env (se_sender (heap st r)) (Publish (p\<lparr>pp_packet_id := Some i\<rparr>)) st =
      (send_ok env (length (calls st)),
       st\<lparr>calls := calls st @ [(Tx r, Publish (p\<lparr>pp_packet_id := Some i\<rparr>))]\<rparr>)"
    using assms(2) by (simp add: send_def)
  show ?thesis
    using enqueue_publish_cases [OF id sd] assms(1) id
    by (simp add: session_enqueue_def enqueued_session_def)
qed

lemma enqueued_session_ok:
  assumes "session_ok r s" and "pp_qos p = AtLeastOnce"
  shows "session_ok r (enqueued_session sent p s)"
    and "se_client_id (enqueued_session sent p s) = se_client_id s"
  using assms
  by (auto simp: enqueued_session_def session_ok_def pending_ok_def new_packet_id_def Let_def)

lemma broker_inv_heap:
  assumes "broker_inv st" and "session_ok r s" and "se_client_id s = se_client_id (heap st r)"
  shows "broker_inv (st\<lparr>heap := (heap st)(r := s)\<rparr>)"
  using assms by (auto simp: broker_inv_def)

lemma broker_inv_call:
  assumes "broker_inv st" and "sendable p"
  shows "broker_inv (st\<lparr>calls := calls st @ [(tx, p)]\<rparr>)"
  using assms by (auto simp: broker_inv_def)

lemma broker_inv_try: "broker_inv (st\<lparr>try_locks := n\<rparr>) \<longleftrightarrow> broker_inv st"
  by (simp add: broker_inv_def)

lemma broker_inv_reply: "broker_inv st \<Longrightarrow> sendable p \<Longrightarrow> broker_inv (reply env r p st)"
  unfolding reply_eq
  by (auto simp: broker_inv_def)

lemma broker_inv_enqueue:
  assumes inv: "broker_inv st" and "wf_string (pp_topic_name p)" and "pp_qos p = AtLeastOnce"
  shows "broker_inv (session_enqueue env r p st)"
proof -
  have ok: "session_ok r (heap st r)" by (rule broker_invD [OF inv])
  have "sendable (Publish (p\<lparr>pp_packet_id := Some i\<rparr>))" for i
    using assms by (simp add: sendable_def wf_publish_def)
  with assms ok show ?thesis
    using session_enqueue_qos1 [of p st r env] enqueued_session_ok [OF ok]
      broker_inv_call broker_inv_heap
    by (auto simp: session_ok_def broker_inv_def)
qed

lemma broker_inv_deliver:
  assumes "broker_inv st" and "wf_publish p" and "sub_qos s = AtLeastOnce"
  shows "broker_inv (deliver env p st s)"
proof (cases "pp_qos p = AtMostOnce")
  case True
  then have "p\<lparr>pp_qos := AtMostOnce\<rparr> = p" by simp
  with True assms show ?thesis
    by (auto simp: deliver_def min_AtLeastOnce sendable_def wf_publish_def intro!: broker_inv_call)
next
  case False
  with assms show ?thesis
    by (auto simp: deliver_def min_AtLeastOnce Let_def wf_publish_def intro!: broker_inv_enqueue
        split: option.splits)
qed

lemma broker_inv_deliver_all:
  "broker_inv st \<Longrightarrow> wf_publish p \<Longrightarrow> list_all (\<lambda>s. sub_qos s = AtLeastOnce) subs \<Longrightarrow>
     broker_inv (foldl (deliver env p) st subs)"
  by (induction subs arbitrary: st) (simp_all add: broker_inv_deliver)

lemma broker_inv_publish:
  assumes "broker_inv st" and "wf_publish p"
  shows "broker_inv (snd (handle_publish env p st))"
  using assms broker_inv_deliver_all tree.all_stored_matches [OF broker_invD(1,2) [OF assms(1)]]
  by (simp add: handle_publish_def)

lemma broker_inv_subscribe:
  assumes "broker_inv st"
  shows "broker_inv (snd (handle_subscribe env r p st))"
proof -
  have "tree_inv (foldl (\<lambda>t f. tree_add t f s) t fs) \<and>
      tree.all_stored (\<lambda>s. sub_qos s = AtLeastOnce) (foldl (\<lambda>t f. tree_add t f s) t fs)"
    if "sub_qos s = AtLeastOnce" "tree_inv t"
      "tree.all_stored (\<lambda>s. sub_qos s = AtLeastOnce) t" for s t fs
    using that by (induction fs arbitrary: t) (simp_all add: tree.invar_add tree.all_stored_add)
  with broker_invD [OF assms] assms show ?thesis
    by (auto simp: handle_subscribe_def session_sender_def subscribe_filters_eq broker_inv_def)
qed

lemma broker_inv_unsubscribe:
  assumes "broker_inv st"
  shows "broker_inv (handle_unsubscribe r p st)"
proof -
  have "tree_inv (foldl (\<lambda>t f. tree_remove t f c) t fs) \<and>
      tree.all_stored Q (foldl (\<lambda>t f. tree_remove t f c) t fs)"
    if "tree_inv t" "tree.all_stored Q t" for Q c t fs
    using that by (induction fs arbitrary: t) (simp_all add: tree.invar_remove tree.all_stored_remove)
  with broker_invD [OF assms] assms show ?thesis
    by (auto simp: handle_unsubscribe_def broker_inv_def)
qed

lemma broker_inv_disconnect: "broker_inv st \<Longrightarrow> broker_inv (handle_disconnect r st)"
  by (auto simp: handle_disconnect_def remove_session_def broker_inv_def Let_def
      tree.invar_remove_all tree.all_stored_remove_all)

lemma broker_inv_update:
  assumes "broker_inv st" and "\<And>s. session_ok r s \<Longrightarrow> session_ok r (f s)"
    and "\<And>s. se_client_id (f s) = se_client_id s"
  shows "broker_inv (update_session r f st)"
  using assms unfolding update_session_def
  by (auto intro!: broker_inv_heap dest: broker_invD(3))

lemma session_ok_acks:
  "session_ok r s \<Longrightarrow> session_ok r (session_puback i s)"
  "session_ok r s \<Longrightarrow> session_ok r (session_pubrec i s)"
  "session_ok r s \<Longrightarrow> session_ok r (session_pubcomp i s)"
  by (auto simp: session_ok_def pending_ok_def session_defs)

lemma client_id_acks:
  "se_client_id (session_puback i s) = se_client_id s"
  "se_client_id (session_pubrec i s) = se_client_id s"
  "se_client_id (session_pubcomp i s) = se_client_id s"
  by (auto simp: session_defs split: option.splits)

lemma broker_inv_acks:
  assumes "broker_inv st"
  shows "broker_inv (handle_puback r i st)" and "broker_inv (handle_pubrec env r i st)"
    and "broker_inv (handle_pubrel env r i st)" and "broker_inv (handle_pubcomp r i st)"
  unfolding handle_puback_def handle_pubrec_def handle_pubrel_def handle_pubcomp_def
  using assms
  by (auto intro!: broker_inv_reply broker_inv_update
      simp: session_ok_acks client_id_acks sendable_def)

lemma broker_inv_connect:
  assumes "broker_inv st" and "alloc_session c clean ka st = (r, st1)"
  shows "broker_inv (register_session r st1)"
  using assms session_ok_new
  by (auto simp: alloc_session_def register_session_def broker_inv_def Let_def session_new_def)
     (meson less_Suc_eq less_irrefl)+

section \<open>Deliveries\<close>

text \<open>The message a subscriber receives under a packet identifier.\<close>

definition qos1_message :: "publish_packet \<Rightarrow> packet_id \<Rightarrow> publish_packet" where
  "qos1_message p i = p\<lparr>pp_qos := AtLeastOnce, pp_packet_id := Some i\<rparr>"

text \<open>The sessions a publish reaches: those registered for the subscribers, in order.\<close>

definition recipients :: "broker_state \<Rightarrow> subscriber list \<Rightarrow> nat list" where
  "recipients st subs = List.map_filter (\<lambda>s. get_session (sub_client_id s) st) subs"

lemma recipients_Nil [simp]: "recipients st [] = []"
  by (simp add: recipients_def map_filter_def)

lemma recipients_Cons [simp]:
  "recipients st (s # subs) =
     (case get_session (sub_client_id s) st of None \<Rightarrow> recipients st subs
      | Some r \<Rightarrow> r # recipients st subs)"
  by (simp add: recipients_def map_filter_def split: option.splits)

lemma recipients_cong: "sessions st' = sessions st \<Longrightarrow> recipients st' = recipients st"
  by (rule ext) (simp add: recipients_def get_session_def)

lemma new_packet_id_cong:
  assumes "se_next_packet_id s = se_next_packet_id s'"
  shows "fst (new_packet_id s) = fst (new_packet_id s')"
    and "se_next_packet_id (snd (new_packet_id s)) = se_next_packet_id (snd (new_packet_id s'))"
  using assms by (simp_all add: new_packet_id_def Let_def)

lemma packet_ids_cong:
  "se_next_packet_id s = se_next_packet_id s' \<Longrightarrow> packet_ids n s = packet_ids n s'"
proof (induction n arbitrary: s s')
  case (Suc n)
  from Suc.IH [OF new_packet_id_cong(2) [OF Suc.prems]] new_packet_id_cong(1) [OF Suc.prems]
  show ?case by (simp add: split_def Let_def)
qed simp

lemma next_id_enqueued:
  "se_next_packet_id (enqueued_session sent p s) = se_next_packet_id (snd (new_packet_id s))"
  by (simp add: enqueued_session_def Let_def split_def)

lemma enqueued_pending:
  "se_pending_qos1 (enqueued_session sent p s) =
     (if sent then (se_pending_qos1 s)(fst (new_packet_id s) \<mapsto>
        \<lparr>p1_packet = p\<lparr>pp_packet_id := Some (fst (new_packet_id s))\<rparr>\<rparr>)
      else se_pending_qos1 s)"
  by (simp add: enqueued_session_def Let_def split_def new_packet_id_def)

lemma enqueued_sender: "se_sender (enqueued_session sent p s) = se_sender s"
  by (simp add: enqueued_session_def Let_def split_def new_packet_id_def)

text \<open>One subscriber of a message of QoS 1 or 2.\<close>

lemma deliver_qos1:
  assumes "pp_qos p \<noteq> AtMostOnce" and "sub_qos s = AtLeastOnce"
    and "\<And>r. se_sender (heap st r) = Tx r"
  shows "deliver env p st s =
    (case get_session (sub_client_id s) st of None \<Rightarrow> st
     | Some r \<Rightarrow>
         st\<lparr>calls := calls st
              @ [(Tx r, Publish (qos1_message p (fst (new_packet_id (heap st r)))))],
            heap := (heap st)(r := enqueued_session (send_ok env (length (calls st)))
              (p\<lparr>pp_qos := AtLeastOnce\<rparr>) (heap st r))\<rparr>)"
  using assms
  by (simp add: deliver_def min_AtLeastOnce Let_def session_enqueue_qos1 qos1_message_def
      split: option.split)

text \<open>The sessions keep the messages of this publish.\<close>

lemma deliver_all_keeps:
  assumes "\<And>r. se_sender (heap st r) = Tx r" and "pp_qos p \<noteq> AtMostOnce"
    and "list_all (\<lambda>s. sub_qos s = AtLeastOnce) subs"
    and "se_pending_qos1 (heap st r) i = Some \<lparr>p1_packet = qos1_message p i\<rparr>"
  shows "se_pending_qos1 (heap (foldl (deliver env p) st subs) r) i
    = Some \<lparr>p1_packet = qos1_message p i\<rparr>"
  using assms
proof (induction subs arbitrary: st)
  case (Cons s subs)
  have "se_sender (heap (deliver env p st s) r) = Tx r" for r
    using Cons.prems by (auto simp: deliver_qos1 enqueued_sender split: option.splits)
  moreover have "se_pending_qos1 (heap (deliver env p st s) r) i
      = Some \<lparr>p1_packet = qos1_message p i\<rparr>"
    using Cons.prems
    by (auto simp: deliver_qos1 enqueued_pending qos1_message_def split: option.splits)
  ultimately show ?case using Cons by simp
qed simp

definition ids_of :: "nat \<Rightarrow> nat list \<Rightarrow> packet_id list \<Rightarrow> packet_id list" where
  "ids_of r rs ids = map snd (filter (\<lambda>x. fst x = r) (zip rs ids))"

lemma deliver_all_qos1:
  assumes "\<And>r. se_sender (heap st r) = Tx r" and "pp_qos p \<noteq> AtMostOnce"
    and "list_all (\<lambda>s. sub_qos s = AtLeastOnce) subs"
  shows "\<exists>ids. length ids = length (recipients st subs) \<and>
    calls (foldl (deliver env p) st subs) = calls st
      @ map2 (\<lambda>r i. (Tx r, Publish (qos1_message p i))) (recipients st subs) ids \<and>
    sessions (foldl (deliver env p) st subs) = sessions st \<and>
    subscriptions (foldl (deliver env p) st subs) = subscriptions st \<and>
    (\<forall>r. ids_of r (recipients st subs) ids
       = packet_ids (count_list (recipients st subs) r) (heap st r)) \<and>
    (\<forall>j < length ids. send_ok env (length (calls st) + j) \<longrightarrow>
       se_pending_qos1 (heap (foldl (deliver env p) st subs) (recipients st subs ! j)) (ids ! j)
         = Some \<lparr>p1_packet = qos1_message p (ids ! j)\<rparr>)"
  using assms
proof (induction subs arbitrary: st)
  case (Cons s subs)
  show ?case
  proof (cases "get_session (sub_client_id s) st")
    case None
    with Cons show ?thesis by (simp add: deliver_qos1)
  next
    case (Some r)
    let ?st = "deliver env p st s" and ?i = "fst (new_packet_id (heap st r))"
    let ?h = "enqueued_session (send_ok env (length (calls st))) (p\<lparr>pp_qos := AtLeastOnce\<rparr>)
      (heap st r)"
    have st: "?st = st\<lparr>calls := calls st @ [(Tx r, Publish (qos1_message p ?i))],
        heap := (heap st)(r := ?h)\<rparr>"
      using Some Cons.prems by (simp add: deliver_qos1)
    have snd': "se_sender (heap ?st r') = Tx r'" for r'
      using Cons.prems(1) by (simp add: st enqueued_sender)
    have rec: "recipients ?st = recipients st"
      by (rule recipients_cong) (simp add: st)
    obtain ids where ids: "length ids = length (recipients st subs)"
      "calls (foldl (deliver env p) ?st subs) = calls ?st
        @ map2 (\<lambda>r i. (Tx r, Publish (qos1_message p i))) (recipients st subs) ids"
      "sessions (foldl (deliver env p) ?st subs) = sessions ?st"
      "subscriptions (foldl (deliver env p) ?st subs) = subscriptions ?st"
      "\<And>r'. ids_of r' (recipients st subs) ids
         = packet_ids (count_list (recipients st subs) r') (heap ?st r')"
      "\<And>j. j < length ids \<Longrightarrow> send_ok env (length (calls ?st) + j) \<Longrightarrow>
         se_pending_qos1 (heap (foldl (deliver env p) ?st subs) (recipients st subs ! j)) (ids ! j)
           = Some \<lparr>p1_packet = qos1_message p (ids ! j)\<rparr>"
      using Cons.IH [of ?st] snd' Cons.prems(2,3) unfolding rec by auto
    have "ids_of r' (r # recipients st subs) (?i # ids)
        = packet_ids (count_list (r # recipients st subs) r') (heap st r')" for r'
    proof (cases "r' = r")
      case True
      have "ids_of r (recipients st subs) ids
          = packet_ids (count_list (recipients st subs) r) (snd (new_packet_id (heap st r)))"
        using packet_ids_cong [OF next_id_enqueued] by (simp add: ids(5) st)
      with True show ?thesis by (simp add: ids_of_def split_def Let_def)
    next
      case False
      with ids(5) [of r'] show ?thesis by (simp add: ids_of_def st)
    qed
    moreover have "se_pending_qos1 (heap (foldl (deliver env p) ?st subs)
        ((r # recipients st subs) ! j)) ((?i # ids) ! j)
        = Some \<lparr>p1_packet = qos1_message p ((?i # ids) ! j)\<rparr>"
      if "j < length (?i # ids)" "send_ok env (length (calls st) + j)" for j
    proof (cases j)
      case 0
      with that have "se_pending_qos1 (heap ?st r) ?i = Some \<lparr>p1_packet = qos1_message p ?i\<rparr>"
        by (simp add: st enqueued_pending qos1_message_def)
      with deliver_all_keeps [OF snd'] Cons.prems(2,3) 0 show ?thesis by simp
    next
      case (Suc j')
      with that ids(6) [of j'] show ?thesis by (simp add: st)
    qed
    ultimately show ?thesis
      using Some ids(1-4)
      by (intro exI [of _ "?i # ids"]) (simp add: st)
  qed
qed (simp add: ids_of_def)

section \<open>Properties\<close>

lemma handle_publish_qos0:
  assumes "pp_qos p = AtMostOnce"
  shows "handle_publish env p st =
    (Inr (), st\<lparr>calls := calls st
      @ map (\<lambda>s. (sub_sender s, Publish p)) (tree_matches (subscriptions st) (pp_topic_name p))\<rparr>)"
proof -
  have "deliver env p st s = st\<lparr>calls := calls st @ [(sub_sender s, Publish p)]\<rparr>" for st s
    using assms by (auto simp: deliver_def min_def less_eq_qos_def Let_def)
  then have "foldl (deliver env p) st subs
      = st\<lparr>calls := calls st @ map (\<lambda>s. (sub_sender s, Publish p)) subs\<rparr>" for subs
    by (induction subs arbitrary: st) simp_all
  then show ?thesis by (simp add: handle_publish_def)
qed

text \<open>
  A message of QoS 0 goes out exactly once per subscription the tree returns for its
  topic, in the order of the tree, unchanged and on the channel of that subscription; nothing
  else in the broker changes and publishing cannot fail.
\<close>

theorem publish_qos0_exact:
  assumes "pp_qos p = AtMostOnce"
  shows "handle_publish env p st =
    (Inr (), st\<lparr>calls := calls st
      @ map (\<lambda>s. (sub_sender s, Publish p)) (tree_matches (subscriptions st) (pp_topic_name p))\<rparr>)"
  using assms by (rule handle_publish_qos0)

text \<open>A broker with one session, subscribed to \<open>a/+\<close>.\<close>

definition one_subscriber :: broker_state where
  "one_subscriber =
     register_session 0 (snd (alloc_session [99] True 0 broker_new))
       \<lparr>subscriptions := tree_add empty_node [97, 47, 43]
          \<lparr>sub_client_id = [99], sub_sender = Tx 0, sub_qos = AtLeastOnce\<rparr>\<rparr>"

lemma one_subscriber_inv: "broker_inv one_subscriber"
proof -
  have "broker_inv (register_session 0 (snd (alloc_session [99] True 0 broker_new)))"
    by (rule broker_inv_connect [OF broker_inv_new, of "[99]" True 0])
      (simp add: alloc_session_def broker_new_def Let_def)
  then show ?thesis
    by (simp add: broker_inv_def one_subscriber_def tree.invar_add tree.all_stored_add
        tree.all_stored_empty)
qed

lemma one_subscriber_matches:
  "tree_matches (subscriptions one_subscriber) [97, 47, 98] =
     [\<lparr>sub_client_id = [99], sub_sender = Tx 0, sub_qos = AtLeastOnce\<rparr>]"
  by (simp add: one_subscriber_def tree_matches_def tree_add_def empty_node_def
      matches_recursive.simps Let_def)

theorem publish_qos0_exact_witness:
  "calls (snd (handle_publish ideal_env (message AtMostOnce [97, 47, 98] None [1]) one_subscriber))
     = [(Tx 0, Publish (message AtMostOnce [97, 47, 98] None [1]))]"
proof -
  have "pp_qos (message AtMostOnce [97, 47, 98] None [1]) = AtMostOnce"
    by (simp add: message_def)
  from publish_qos0_exact [OF this, of ideal_env one_subscriber]
  have "calls (snd (handle_publish ideal_env (message AtMostOnce [97, 47, 98] None [1])
      one_subscriber)) = calls one_subscriber @ map (\<lambda>s. (sub_sender s,
        Publish (message AtMostOnce [97, 47, 98] None [1])))
        (tree_matches (subscriptions one_subscriber) [97, 47, 98])"
    by (simp add: message_def)
  then show ?thesis
    by (simp only: one_subscriber_matches)
      (simp add: one_subscriber_def alloc_session_def register_session_def broker_new_def Let_def)
qed

text \<open>
  C8: A message of QoS 1 or 2 goes out once per subscription the tree returns whose client is
  still registered, in the order of the tree, always with QoS 1 and with an identifier the
  receiving session has just issued (the identifiers of each session are its next ones, in
  order). Right after the publish, every message whose send succeeded is in its session's table
  of unacknowledged messages under its identifier, and the subscriptions and the registered
  sessions are those from before.
\<close>

theorem publish_qos1_exact:
  assumes "broker_inv st" and "pp_qos p \<noteq> AtMostOnce"
    and "recipients st (tree_matches (subscriptions st) (pp_topic_name p)) = rs"
    and "handle_publish env p st = (res, st')"
  shows "\<exists>ids. res = Inr () \<and> length ids = length rs \<and>
    calls st' = calls st @ map2 (\<lambda>r i. (Tx r, Publish (qos1_message p i))) rs ids \<and>
    sessions st' = sessions st \<and> subscriptions st' = subscriptions st \<and>
    (\<forall>r. ids_of r rs ids = packet_ids (count_list rs r) (heap st r)) \<and>
    (\<forall>j < length ids. send_ok env (length (calls st) + j) \<longrightarrow>
       se_pending_qos1 (heap st' (rs ! j)) (ids ! j)
         = Some \<lparr>p1_packet = qos1_message p (ids ! j)\<rparr>)"
proof -
  let ?subs = "tree_matches (subscriptions st) (pp_topic_name p)"
  have "list_all (\<lambda>s. sub_qos s = AtLeastOnce) ?subs"
    by (rule tree.all_stored_matches [OF broker_invD(1,2) [OF assms(1)]])
  moreover have "se_sender (heap st r) = Tx r" for r
    using broker_invD(3) [OF assms(1), of r] by (simp add: session_ok_def)
  moreover have "st' = foldl (deliver env p) st ?subs" and "res = Inr ()"
    using assms(4) by (simp_all add: handle_publish_def)
  ultimately show ?thesis
    using deliver_all_qos1 [of st p ?subs env] assms(2,3) by simp
qed

theorem publish_qos1_exact_witness:
  "calls (snd (handle_publish ideal_env (message ExactlyOnce [97, 47, 98] (Some (PacketId 9)) [1])
     one_subscriber))
     = [(Tx 0, Publish (message AtLeastOnce [97, 47, 98] (Some (PacketId 1)) [1]))]"
proof -
  let ?p = "message ExactlyOnce [97, 47, 98] (Some (PacketId 9)) [1]"
  have rs: "recipients one_subscriber (tree_matches (subscriptions one_subscriber)
      (pp_topic_name ?p)) = [0]"
    by (simp add: message_def one_subscriber_matches)
      (simp add: one_subscriber_def alloc_session_def register_session_def broker_new_def
        get_session_def session_new_def Let_def)
  have h: "calls one_subscriber = []" "heap one_subscriber 0 = session_new 0 [99] True 0"
    by (simp_all add: one_subscriber_def alloc_session_def register_session_def broker_new_def
        Let_def)
  obtain res st' where st': "handle_publish ideal_env ?p one_subscriber = (res, st')"
    by fastforce
  obtain ids where ids: "length ids = length [0::nat]"
    "calls st' = calls one_subscriber
      @ map2 (\<lambda>r i. (Tx r, Publish (qos1_message ?p i))) [0] ids"
    "ids_of 0 [0] ids = packet_ids (count_list [0] (0::nat)) (heap one_subscriber 0)"
    using publish_qos1_exact [OF one_subscriber_inv _ rs st'] by (auto simp: message_def)
  then obtain i where "ids = [i]" by (cases ids) auto
  with ids st' h show ?thesis
    by (simp add: ids_of_def qos1_message_def message_def new_packet_id_def session_new_def Let_def)
qed

text \<open>
  C23: SUBSCRIBE answers every filter in order, with "success, QoS 1" for a valid filter and
  "failure" for an invalid one, and adds the valid ones, and only those, to the tree under the
  client's identifier. The QoS the client asked for plays no role: another request for the
  same filters has the same effect and the same return codes.
\<close>

theorem subscribe_exact:
  assumes "handle_subscribe env r p st = (ack, st')"
  shows "sa_packet_id ack = sp_packet_id p \<and>
    sa_return_codes ack
      = map (\<lambda>f. if is_valid_topic_filter f then SuccessQoS1 else Failure)
          (map fst (sp_subscriptions p)) \<and>
    subscriptions st' =
      foldl (\<lambda>t f. tree_add t f
          \<lparr>sub_client_id = se_client_id (heap st r),
           sub_sender = (if try_lock_ok env (try_locks st) then se_sender (heap st r) else Orphan),
           sub_qos = AtLeastOnce\<rparr>)
        (subscriptions st) (filter is_valid_topic_filter (map fst (sp_subscriptions p))) \<and>
    calls st' = calls st \<and> heap st' = heap st \<and> sessions st' = sessions st \<and>
    (map fst (sp_subscriptions p') = map fst (sp_subscriptions p) \<and>
       sp_packet_id p' = sp_packet_id p \<longrightarrow> handle_subscribe env r p' st = (ack, st'))"
proof -
  have codes: "map (\<lambda>(f, q). if is_valid_topic_filter f then SuccessQoS1 else Failure) subs =
      map (\<lambda>f. if is_valid_topic_filter f then SuccessQoS1 else Failure) (map fst subs)"
    for subs :: "(rstring \<times> qos) list"
    by (simp add: split_def)
  show ?thesis
    using assms unfolding handle_subscribe_def session_sender_def subscribe_filters_eq codes
    by (auto simp: Let_def simp del: map_map)
qed

theorem subscribe_exact_witness:
  "sa_return_codes (fst (handle_subscribe ideal_env 0
     \<lparr>sp_packet_id = PacketId 7, sp_subscriptions = [([97, 35], ExactlyOnce), ([97], AtMostOnce)]\<rparr>
     broker_new)) = [Failure, SuccessQoS1]"
proof -
  obtain ack st' where "handle_subscribe ideal_env 0
     \<lparr>sp_packet_id = PacketId 7, sp_subscriptions = [([97, 35], ExactlyOnce), ([97], AtMostOnce)]\<rparr>
     broker_new = (ack, st')" by fastforce
  with subscribe_exact [OF this] show ?thesis
    by (simp add: is_valid_topic_filter_def ends_with_def)
qed

lemma foldl_add_keeps:
  "s \<in> set (subs_at t k) \<Longrightarrow> s \<in> set (subs_at (foldl (\<lambda>t f. tree_add t f s') t fs) k)"
  by (induction fs arbitrary: t) (simp_all add: tree.stored_ops)

lemma foldl_add_stored:
  "f \<in> set fs \<Longrightarrow> s \<in> set (subs_at (foldl (\<lambda>t f. tree_add t f s) t fs) (topic_key f))"
proof (induction fs arbitrary: t)
  case (Cons g fs)
  show ?case
  proof (cases "f = g")
    case True
    then have "s \<in> set (subs_at (tree_add t g s) (topic_key f))"
      by (simp add: tree.stored_ops)
    then show ?thesis by (simp add: foldl_add_keeps)
  qed (use Cons in simp)
qed simp

lemma foldl_remove_stored:
  "subs_at (foldl (\<lambda>t f. tree_remove t f c) t fs) k =
     (if k \<in> topic_key ` set fs then filter (\<lambda>s. sub_client_id s \<noteq> c) (subs_at t k)
      else subs_at t k)"
  by (induction fs arbitrary: t) (auto simp: tree.stored_ops)

lemma subscribed_match:
  assumes "broker_inv st" and "try_lock_ok env (try_locks st)"
    and "(f, q) \<in> set (sp_subscriptions p)" and "is_valid_topic_filter f"
    and "mqtt_match (split_on slash f) (split_on slash topic)"
    and "handle_subscribe env r p st = (ack, st')"
  shows "\<lparr>sub_client_id = se_client_id (heap st r), sub_sender = Tx r, sub_qos = AtLeastOnce\<rparr>
    \<in> set (tree_matches (subscriptions st') topic)"
proof -
  let ?s = "\<lparr>sub_client_id = se_client_id (heap st r), sub_sender = Tx r, sub_qos = AtLeastOnce\<rparr>"
  let ?fs = "filter is_valid_topic_filter (map fst (sp_subscriptions p))"
  have st': "subscriptions st' = foldl (\<lambda>t f. tree_add t f ?s) (subscriptions st) ?fs"
    using assms(2,6) broker_invD(3) [OF assms(1), of r]
    by (auto simp: handle_subscribe_def session_sender_def subscribe_filters_eq session_ok_def)
  have "f \<in> set ?fs" using assms(3,4) by force
  then have stored: "?s \<in> set (subs_at (subscriptions st') (topic_key f))"
    unfolding st' by (rule foldl_add_stored)
  have inv: "tree_inv (subscriptions st')"
    using broker_invD(1) [OF broker_inv_subscribe [OF assms(1), of env r p]] assms(6) by simp
  have "topic_key f = split_on slash f"
    using assms(4) by (simp add: topic_key_def canonical_valid valid_filter_iff)
  with stored inv assms(5) show ?thesis
    by (auto simp: set_tree_matches intro: mqtt_match_prefix)
qed

text \<open>
  Subscribe, then publish: after a session has subscribed to a valid filter (its sender
  lock being free), every QoS 0 message on a topic that matches the filter by the rules of the
  standard is sent to this session, unchanged.
\<close>

theorem subscribed_client_receives:
  assumes "broker_inv st" and "try_lock_ok env (try_locks st)"
    and "(f, q) \<in> set (sp_subscriptions p)" and "is_valid_topic_filter f"
    and "mqtt_match (split_on slash f) (split_on slash (pp_topic_name m))"
    and "pp_qos m = AtMostOnce"
    and "handle_subscribe env r p st = (ack, st')"
  shows "(Tx r, Publish m) \<in> set (calls (snd (handle_publish env m st')))"
  using subscribed_match [OF assms(1-5,7)] by (force simp: handle_publish_qos0 [OF assms(6)])

theorem subscribed_client_receives_witness:
  "(Tx 0, Publish (message AtMostOnce [97, 47, 98] None [1])) \<in>
     set (calls (snd (handle_publish ideal_env (message AtMostOnce [97, 47, 98] None [1])
       (snd (handle_subscribe ideal_env 0
          \<lparr>sp_packet_id = PacketId 7, sp_subscriptions = [([97, 47, 35], ExactlyOnce)]\<rparr>
          one_subscriber)))))"
proof -
  let ?p = "\<lparr>sp_packet_id = PacketId 7, sp_subscriptions = [([97, 47, 35], ExactlyOnce)]\<rparr>"
  obtain ack st' where *: "handle_subscribe ideal_env 0 ?p one_subscriber = (ack, st')"
    by fastforce
  have "(Tx 0, Publish (message AtMostOnce [97, 47, 98] None [1])) \<in>
     set (calls (snd (handle_publish ideal_env (message AtMostOnce [97, 47, 98] None [1]) st')))"
    by (rule subscribed_client_receives [OF one_subscriber_inv _ _ _ _ _ *,
          of "[97, 47, 35]" ExactlyOnce])
      (simp_all add: ideal_env_def message_def is_valid_topic_filter_def ends_with_def)
  with * show ?thesis by simp
qed

text \<open>
  C38: Subscribing twice to one filter creates two subscriptions instead of replacing the first:
  for every topic the (valid) filter matches, the tree afterwards returns one more subscription
  of this client than after the first SUBSCRIBE, which itself adds one.
\<close>

theorem duplicate_subscription_delivers_twice:
  assumes "tree_inv (subscriptions st)" and "is_valid_topic_filter f"
    and "mqtt_match (split_on slash f) (split_on slash topic)"
    and "handle_subscribe env r \<lparr>sp_packet_id = i, sp_subscriptions = [(f, q)]\<rparr> st = (ack, st1)"
    and "handle_subscribe env r \<lparr>sp_packet_id = j, sp_subscriptions = [(f, q')]\<rparr> st1 = (ack', st2)"
  shows "\<exists>s s'. sub_client_id s = se_client_id (heap st r) \<and>
    sub_client_id s' = se_client_id (heap st r) \<and>
    mset (tree_matches (subscriptions st1) topic)
      = mset (tree_matches (subscriptions st) topic) + {#s#} \<and>
    mset (tree_matches (subscriptions st2) topic)
      = mset (tree_matches (subscriptions st) topic) + {#s, s'#}"
proof -
  let ?s = "\<lambda>st. \<lparr>sub_client_id = se_client_id (heap st r),
    sub_sender = fst (session_sender env (heap st r) st), sub_qos = AtLeastOnce\<rparr>"
  have key: "topic_key f \<in> set (visited_filters topic)"
    using assms(2,3) valid_filter_iff [of f]
    by (simp add: visited_filters_def matching_filters_iff topic_key_def canonical_valid
        mqtt_match_prefix)
  have sub: "subscriptions st' = tree_add (subscriptions st) f (?s st)" "heap st' = heap st"
    if "handle_subscribe env r \<lparr>sp_packet_id = i, sp_subscriptions = [(f, q)]\<rparr> st = (ack, st')"
    for i q st ack st'
    using that assms(2)
    by (auto simp: handle_subscribe_def session_sender_def subscribe_filters_eq)
  show ?thesis
    using key assms(1)
    by (intro exI [of _ "?s st"] exI [of _ "?s st1"])
      (simp add: sub [OF assms(4)] sub [OF assms(5)] tree.mset_matches_add tree.invar_add)
qed

theorem duplicate_subscription_delivers_twice_witness:
  "map sub_client_id (tree_matches (subscriptions (snd (handle_subscribe ideal_env 0
        \<lparr>sp_packet_id = PacketId 2, sp_subscriptions = [([97], AtMostOnce)]\<rparr>
        (snd (handle_subscribe ideal_env 0
          \<lparr>sp_packet_id = PacketId 1, sp_subscriptions = [([97], ExactlyOnce)]\<rparr> broker_new))))) [97])
      = [[], []]"
proof -
  obtain a st1 where 1: "handle_subscribe ideal_env 0
      \<lparr>sp_packet_id = PacketId 1, sp_subscriptions = [([97], ExactlyOnce)]\<rparr> broker_new = (a, st1)"
    by fastforce
  obtain b st2 where 2: "handle_subscribe ideal_env 0
      \<lparr>sp_packet_id = PacketId 2, sp_subscriptions = [([97], AtMostOnce)]\<rparr> st1 = (b, st2)"
    by fastforce
  have empty: "tree_matches (subscriptions broker_new) [97] = []"
    by (simp add: broker_new_def tree_matches_def empty_node_def matches_recursive.simps Let_def)
  obtain s s' where "sub_client_id s = []" "sub_client_id s' = []"
    and "mset (tree_matches (subscriptions st2) [97]) = {#s, s'#}"
    using duplicate_subscription_delivers_twice [OF _ _ _ 1 2, of "[97]"] empty
    by (auto simp: broker_new_def is_valid_topic_filter_def session_new_def)
  moreover from this(3) have "length (tree_matches (subscriptions st2) [97]) = 2"
    by (metis size_mset size_add_mset size_empty numeral_2_eq_2)
  then obtain x y where "tree_matches (subscriptions st2) [97] = [x, y]"
    by (auto simp: length_Suc_conv numeral_2_eq_2)
  ultimately show ?thesis
    using 1 2 by (auto simp: add_eq_conv_ex)
qed

lemma topic_key_valid: "is_valid_topic_filter f \<Longrightarrow> topic_key f = split_on slash f"
  by (simp add: topic_key_def canonical_valid valid_filter_iff)

lemma topic_key_inject:
  assumes "is_valid_topic_filter f" and "is_valid_topic_filter g" and "topic_key f = topic_key g"
  shows "f = g"
  using assms by (metis join_split topic_key_valid)

lemma unsubscribe_stored:
  "subs_at (subscriptions (handle_unsubscribe r p st)) k =
     (if k \<in> topic_key ` set (up_topic_filters p)
      then filter (\<lambda>s. sub_client_id s \<noteq> se_client_id (heap st r)) (subs_at (subscriptions st) k)
      else subs_at (subscriptions st) k)"
  by (simp add: handle_unsubscribe_def foldl_remove_stored)

text \<open>
  C24: UNSUBSCRIBE with valid filters removes exactly the subscriptions of this client under the
  filters it names: for every valid filter, the subscribers stored under it are those before
  without this client's if the packet names the filter, and the same as before if it does not.
  Nothing is sent, and neither sessions nor registrations change.
\<close>

theorem unsubscribe_exact:
  assumes "list_all is_valid_topic_filter (up_topic_filters p)" and "is_valid_topic_filter f"
    and "handle_unsubscribe r p st = st'"
  shows "subs_at (subscriptions st') (topic_key f) =
     (if f \<in> set (up_topic_filters p)
      then filter (\<lambda>s. sub_client_id s \<noteq> se_client_id (heap st r))
        (subs_at (subscriptions st) (topic_key f))
      else subs_at (subscriptions st) (topic_key f)) \<and>
   calls st' = calls st \<and> sessions st' = sessions st \<and> heap st' = heap st"
proof -
  have "topic_key f \<in> topic_key ` set (up_topic_filters p) \<longleftrightarrow> f \<in> set (up_topic_filters p)"
    using assms(1,2) topic_key_inject by (auto simp: list_all_iff)
  then show ?thesis
    by (simp add: unsubscribe_stored flip: assms(3)) (simp add: handle_unsubscribe_def)
qed

theorem unsubscribe_exact_witness:
  "subs_at (subscriptions (handle_unsubscribe 0
      \<lparr>up_packet_id = PacketId 7, up_topic_filters = [[97, 47, 43]]\<rparr> one_subscriber)) [[97], [43]] = [] \<and>
   subs_at (subscriptions one_subscriber) [[97], [43]] \<noteq> []"
proof -
  let ?p = "\<lparr>up_packet_id = PacketId 7, up_topic_filters = [[97, 47, 43]]\<rparr>"
  have "is_valid_topic_filter [97, 47, 43]"
    by (simp add: is_valid_topic_filter_def ends_with_def)
  from unsubscribe_exact [OF _ this refl, of ?p 0 one_subscriber] this
  have "subs_at (subscriptions (handle_unsubscribe 0 ?p one_subscriber)) [[97], [43]] =
      filter (\<lambda>s. sub_client_id s \<noteq> se_client_id (heap one_subscriber 0))
        (subs_at (subscriptions one_subscriber) [[97], [43]])"
    by (simp add: topic_key_def)
  moreover have "subs_at (subscriptions one_subscriber) [[97], [43]]
      = [\<lparr>sub_client_id = [99], sub_sender = Tx 0, sub_qos = AtLeastOnce\<rparr>]"
    by (simp add: one_subscriber_def topic_key_def tree.stored_add tree.stored_empty)
  moreover have "se_client_id (heap one_subscriber 0) = [99]"
    by (simp add: one_subscriber_def alloc_session_def register_session_def broker_new_def
        session_new_def Let_def)
  ultimately show ?thesis by simp
qed

text \<open>
  C39: UNSUBSCRIBE does not check its filters, and the tree ignores what follows a level #: an
  UNSUBSCRIBE that names only \<open>f/rest\<close>, where \<open>f\<close> is a valid filter that ends in #, removes the
  client's subscriptions under \<open>f\<close>, although \<open>f/rest\<close> is a different and invalid filter.
\<close>

theorem unsubscribe_truncates:
  assumes "is_valid_topic_filter f" and "last f = hash"
    and "up_topic_filters p = [f @ slash # rest]" and "handle_unsubscribe r p st = st'"
  shows "\<not> is_valid_topic_filter (f @ slash # rest) \<and>
    subs_at (subscriptions st') (topic_key f) =
      filter (\<lambda>s. sub_client_id s \<noteq> se_client_id (heap st r))
        (subs_at (subscriptions st) (topic_key f))"
proof -
  let ?ls = "split_on slash f" and ?ms = "split_on slash rest"
  have f: "f \<noteq> []" "valid_levels ?ls"
    using assms(1) by (simp_all add: valid_filter_iff)
  then have "hash \<in> set (last ?ls)"
    using last_split_on [OF f(1), of slash] assms(2) by simp
  then have "canonical (?ls @ ?ms) = ?ls \<and> \<not> valid_levels (?ls @ ?ms)"
    using f by (intro levels_behind_hash) simp_all
  then have "topic_key (f @ slash # rest) = topic_key f" "\<not> is_valid_topic_filter (f @ slash # rest)"
    using topic_key_valid [OF assms(1)]
    by (simp_all add: topic_key_def valid_filter_iff split_on_sep_append)
  then show ?thesis
    using assms(3) by (simp add: unsubscribe_stored flip: assms(4))
qed

theorem unsubscribe_truncates_witness:
  "\<not> is_valid_topic_filter [97, 47, 35, 47, 98] \<and>
   map sub_client_id (subs_at (tree_add empty_node [97, 47, 35]
     \<lparr>sub_client_id = [], sub_sender = Tx 0, sub_qos = AtLeastOnce\<rparr>) [[97], [35]]) = [[]] \<and>
   subs_at (subscriptions (handle_unsubscribe 0
      \<lparr>up_packet_id = PacketId 7, up_topic_filters = [[97, 47, 35, 47, 98]]\<rparr>
      (broker_new\<lparr>subscriptions := tree_add empty_node [97, 47, 35]
         \<lparr>sub_client_id = [], sub_sender = Tx 0, sub_qos = AtLeastOnce\<rparr>\<rparr>))) [[97], [35]] = []"
proof -
  let ?st = "broker_new\<lparr>subscriptions := tree_add empty_node [97, 47, 35]
         \<lparr>sub_client_id = [], sub_sender = Tx 0, sub_qos = AtLeastOnce\<rparr>\<rparr>"
  have "is_valid_topic_filter [97, 47, 35]"
    by (simp add: is_valid_topic_filter_def ends_with_def)
  from unsubscribe_truncates [OF this, of "\<lparr>up_packet_id = PacketId 7,
      up_topic_filters = [[97, 47, 35, 47, 98]]\<rparr>" "[98]" 0 ?st]
  show ?thesis
    by (simp add: topic_key_def tree.stored_add tree.stored_empty broker_new_def session_new_def)
qed

text \<open>What queueing and publishing leave alone.\<close>

lemma session_enqueue_frame:
  "next_ref (session_enqueue env r p st) = next_ref st \<and>
   try_locks (session_enqueue env r p st) = try_locks st \<and>
   se_client_id (heap (session_enqueue env r p st) r') = se_client_id (heap st r')"
proof -
  obtain s st1 where e: "enqueue_publish env p (heap st r) st = (s, st1)" by fastforce
  then have "next_ref st1 = next_ref st \<and> try_locks st1 = try_locks st \<and> heap st1 = heap st"
    by (subst (1 2 3) enqueue_publish_io [OF e]) simp
  moreover have "se_client_id s = se_client_id (heap st r)"
    using e by (auto simp: enqueue_publish_def send_def new_packet_id_def Let_def
        split: if_splits qos.splits)
  ultimately show ?thesis
    using e by (simp add: session_enqueue_def)
qed

lemma publish_frame:
  "next_ref (snd (handle_publish env p st)) = next_ref st \<and>
   try_locks (snd (handle_publish env p st)) = try_locks st \<and>
   se_client_id (heap (snd (handle_publish env p st)) r) = se_client_id (heap st r)"
proof -
  have "next_ref (deliver env p st s) = next_ref st \<and> try_locks (deliver env p st s) = try_locks st \<and>
      se_client_id (heap (deliver env p st s) r) = se_client_id (heap st r)" for st s
    using session_enqueue_frame by (simp add: deliver_def Let_def split: option.split)
  then have "next_ref (foldl (deliver env p) st subs) = next_ref st \<and>
      try_locks (foldl (deliver env p) st subs) = try_locks st \<and>
      se_client_id (heap (foldl (deliver env p) st subs) r) = se_client_id (heap st r)" for subs
    by (induction subs arbitrary: st) simp_all
  then show ?thesis by (simp add: handle_publish_def)
qed

text \<open>
  The channel of an answer whose \<open>sender()\<close> makes the \<open>n\<close>th call of \<open>try_lock\<close>: that of the
  session, or one without a receiver when the lock is taken.
\<close>

definition answer_channel :: "environment \<Rightarrow> nat \<Rightarrow> nat \<Rightarrow> sender" where
  "answer_channel env r n = (if try_lock_ok env n then Tx r else Orphan)"

lemma reply_calls:
  assumes "broker_inv st"
  shows "calls (reply env r p st) = calls st @ [(answer_channel env r (try_locks st), p)]"
  using broker_invD(3) [OF assms, of r] by (simp add: reply_eq session_ok_def answer_channel_def)

text \<open>
  C25: After a client's disconnection nothing of it is left: its identifier is not registered,
  and for every topic the subscribers returned are those returned before without this client's,
  in the same order. The registrations of the other clients do not change and nothing is sent.
\<close>

theorem disconnect_cleans_up:
  assumes "broker_inv st" and "se_client_id (heap st r) = c"
  shows "get_session c (handle_disconnect r st) = None \<and>
    (c' \<noteq> c \<longrightarrow> get_session c' (handle_disconnect r st) = get_session c' st) \<and>
    tree_matches (subscriptions (handle_disconnect r st)) topic
      = filter (\<lambda>s. sub_client_id s \<noteq> c) (tree_matches (subscriptions st) topic) \<and>
    calls (handle_disconnect r st) = calls st"
  using assms tree.matches_remove_all [OF broker_invD(1)]
  by (simp add: handle_disconnect_def remove_session_def get_session_def Let_def)

theorem disconnect_cleans_up_witness:
  "get_session [99] one_subscriber = Some 0 \<and>
   tree_matches (subscriptions one_subscriber) [97, 47, 98] \<noteq> [] \<and>
   get_session [99] (handle_disconnect 0 one_subscriber) = None \<and>
   tree_matches (subscriptions (handle_disconnect 0 one_subscriber)) [97, 47, 98] = []"
proof -
  have "se_client_id (heap one_subscriber 0) = [99]" and "get_session [99] one_subscriber = Some 0"
    by (simp_all add: one_subscriber_def alloc_session_def register_session_def broker_new_def
        session_new_def get_session_def Let_def)
  then show ?thesis
    using disconnect_cleans_up [OF one_subscriber_inv, of 0 "[99]" "[]" "[97, 47, 98]"]
    by (simp add: one_subscriber_matches)
qed

end
