(* ===== verification/Decode.thy ===== *)
theory Decode
  imports Protocol_Types
begin

text \<open>
  The decoder (\<open>src/src/protocol/decode.rs\<close>). Every function of the file is a reader: it
  gets the bytes behind the cursor and returns a \<open>broker_error\<close> or a value and the bytes
  left. The two \<open>while !src.is_empty()\<close> loops are recursive functions whose termination
  rests on the fact that each item takes at least one byte. \<open>usize\<close> values are
  \<open>nat\<close>: \<open>decode_remaining_length_bounds\<close> shows that they fit 28 bits.
\<close>

section \<open>Primitive readers\<close>

definition inner_read_u8 :: "(broker_error, u8) reader" where
  "inner_read_u8 src =
     (case src of
        [] \<Rightarrow> Inl (Decode ''Buffer exhausted'')
      | byte # rest \<Rightarrow> Inr (byte, rest))"

definition inner_read_u16 :: "(broker_error, u16) reader" where
  "inner_read_u16 src =
     (case src of
        a # b # rest \<Rightarrow> Inr (u16_from_be_bytes a b, rest)
      | _ \<Rightarrow> Inl (Decode ''Buffer too short for u16''))"

definition inner_read_exact :: "nat \<Rightarrow> (broker_error, u8 list) reader" where
  "inner_read_exact len src =
     (if length src < len
      then Inl (Decode (''Buffer too short: need '' @ show_nat len @ '', have ''
                        @ show_nat (length src)))
      else Inr (take len src, drop len src))"

text \<open>\<open>String::from_utf8(bytes.to_vec()).map_err(...)\<close> with the message's first words.\<close>

definition string_from_utf8 :: "string \<Rightarrow> u8 list \<Rightarrow> (broker_error, rstring) reader" where
  "string_from_utf8 msg bs src =
     (case from_utf8 bs of
        Inl e \<Rightarrow> Inl (Decode (msg @ show_utf8_error e))
      | Inr s \<Rightarrow> Inr (s, src))"

definition read_utf8_string :: "(broker_error, rstring) reader" where
  "read_utf8_string =
     and_then inner_read_u16 (\<lambda>len.
     and_then (inner_read_exact (unat len)) (\<lambda>bytes.
     string_from_utf8 ''Invalid UTF-8 in string: '' bytes))"

definition read_payload :: "nat \<Rightarrow> (broker_error, u8 list) reader" where
  "read_payload len = inner_read_exact len"

definition read_packet_id :: "(broker_error, packet_id) reader" where
  "read_packet_id = and_then inner_read_u16 (\<lambda>raw. ok (PacketId raw))"

lemma inner_read_u8_Inr [reader_iff]:
  "inner_read_u8 src = Inr (b, rest) \<longleftrightarrow> src = b # rest"
  by (cases src) (auto simp: inner_read_u8_def)

lemma inner_read_u8_Cons [simp]: "inner_read_u8 (b # rest) = Inr (b, rest)"
  by (simp add: inner_read_u8_def)

lemma inner_read_u16_Inr [reader_iff]:
  "inner_read_u16 src = Inr (x, rest) \<longleftrightarrow> src = u16_to_be_bytes x @ rest"
proof
  assume "inner_read_u16 src = Inr (x, rest)"
  then obtain a b where "src = a # b # rest" and "x = u16_from_be_bytes a b"
    by (auto simp: inner_read_u16_def split: list.splits)
  then show "src = u16_to_be_bytes x @ rest"
    by (simp add: u16_be_roundtrip2)
next
  assume "src = u16_to_be_bytes x @ rest"
  then show "inner_read_u16 src = Inr (x, rest)"
    by (simp add: inner_read_u16_def u16_to_be_bytes_def)
qed

lemma inner_read_exact_Inr [reader_iff]:
  "inner_read_exact n src = Inr (bs, rest) \<longleftrightarrow> src = bs @ rest \<and> length bs = n"
proof -
  have "length src \<ge> n \<Longrightarrow> src = take n src @ drop n src"
    by simp
  then show ?thesis
    by (auto simp: inner_read_exact_def)
qed

lemma string_from_utf8_Inr [reader_iff]:
  "string_from_utf8 msg bs src = Inr (s, rest) \<longleftrightarrow> s = bs \<and> utf8_valid bs \<and> rest = src"
  by (auto simp: string_from_utf8_def from_utf8_def utf8_valid_def split: option.splits)

lemma read_payload_Inr [reader_iff]:
  "read_payload n src = Inr (bs, rest) \<longleftrightarrow> src = bs @ rest \<and> length bs = n"
  by (simp add: read_payload_def inner_read_exact_Inr)

lemma read_packet_id_Inr [reader_iff]:
  "read_packet_id src = Inr (p, rest) \<longleftrightarrow> src = packet_id_to_be_bytes p @ rest"
  by (cases p) (auto simp: read_packet_id_def packet_id_to_be_bytes_def reader_iff)

text \<open>The wire form of a string: its length in two bytes, then its bytes.\<close>

definition string_bytes :: "u8 list \<Rightarrow> u8 list" where
  "string_bytes s = u16_to_be_bytes (of_nat (length s)) @ s"

text \<open>A length-prefixed field, shared by strings and binary data.\<close>

lemma length_prefixed_iff:
  "(\<exists>len. src = u16_to_be_bytes len @ bs @ rest \<and> length bs = unat len)
     \<longleftrightarrow> src = string_bytes bs @ rest \<and> length bs < 65536" (is "?L \<longleftrightarrow> ?R")
proof
  assume ?L
  then obtain len where "src = u16_to_be_bytes len @ bs @ rest" and "length bs = unat len"
    by blast
  then show ?R
    using unat_u16_bound [of len] by (simp add: string_bytes_def)
next
  assume ?R
  then show ?L
    by (intro exI [of _ "of_nat (length bs)"]) (simp add: string_bytes_def)
qed

lemma read_utf8_string_Inr [reader_iff]:
  "read_utf8_string src = Inr (s, rest) \<longleftrightarrow> src = string_bytes s @ rest \<and> wf_string s"
proof -
  have "read_utf8_string src = Inr (s, rest) \<longleftrightarrow>
      (\<exists>len. src = u16_to_be_bytes len @ s @ rest \<and> length s = unat len) \<and> utf8_valid s"
    by (auto simp: read_utf8_string_def reader_iff)
  then show ?thesis
    by (auto simp: length_prefixed_iff wf_string_def)
qed

lemma length_string_bytes [simp]: "length (string_bytes s) = 2 + length s"
  by (simp add: string_bytes_def)

lemma length_packet_id_bytes [simp]: "length (packet_id_to_be_bytes p) = 2"
  by (simp add: packet_id_to_be_bytes_def)

section \<open>Fixed header\<close>

text \<open>
  The loop of \<open>decode_remaining_length\<close> with its locals \<open>multiplier\<close>,
  \<open>value\<close> and \<open>bytes_consumed\<close>. \<open>BytesMut::new().remaining()\<close> is 0, so the
  first test is that the buffer is empty.
\<close>

fun remaining_length_loop ::
  "nat \<Rightarrow> nat \<Rightarrow> nat \<Rightarrow> (broker_error, nat \<times> nat) reader" where
  "remaining_length_loop multiplier value consumed [] =
     Inl (Decode ''Unexpected end of remaining length'')"
| "remaining_length_loop multiplier value consumed (byte # buf) =
     (let value' = value + multiplier * unat (byte AND 0x7F);
          multiplier' = multiplier * 128;
          consumed' = consumed + 1
      in if byte AND 0x80 = 0 then Inr ((value', consumed'), buf)
         else if consumed' \<ge> 4 then Inl (Decode ''Malformed remaining length'')
         else if multiplier' > 128 * 128 * 128
         then Inl (Decode ''Remaining length too large'')
         else remaining_length_loop multiplier' value' consumed' buf)"

definition decode_remaining_length :: "(broker_error, nat \<times> nat) reader" where
  "decode_remaining_length = remaining_length_loop 1 0 0"

definition decode_fixed_header :: "(broker_error, fixed_header) reader" where
  "decode_fixed_header =
     and_then inner_read_u8 (\<lambda>first_byte.
       let packet_type_byte = drop_bit 4 first_byte;
           flags = first_byte AND 0x0F
       in case packet_type_try_from_u8 packet_type_byte of
            None \<Rightarrow>
              fail (Decode (''Unknown packet type: '' @ show_nat (unat packet_type_byte)))
          | Some packet_type \<Rightarrow>
              and_then decode_remaining_length (\<lambda>(remaining_length, consumed).
                ok \<lparr>fh_packet_type = packet_type, fh_flags = flags,
                    fh_remaining_length = remaining_length\<rparr>))"

section \<open>Variable headers and payloads\<close>

definition decode_connect :: "(broker_error, connect_packet) reader" where
  "decode_connect =
     and_then inner_read_u16 (\<lambda>protocol_name_len.
     and_then (inner_read_exact (unat protocol_name_len)) (\<lambda>protocol_name_bytes.
     and_then (string_from_utf8 ''Invalid UTF-8 in protocol name: '' protocol_name_bytes)
       (\<lambda>protocol_name.
     and_then inner_read_u8 (\<lambda>protocol_level.
     and_then inner_read_u8 (\<lambda>flags_byte.
       let username_flag = (flags_byte AND 0x80 \<noteq> 0);
           password_flag = (flags_byte AND 0x40 \<noteq> 0);
           will_retain = (flags_byte AND 0x20 \<noteq> 0);
           will_qos_bits = drop_bit 3 flags_byte AND 0x03;
           will_qos = qos_try_from_u8 will_qos_bits;
           will_flag = (flags_byte AND 0x04 \<noteq> 0);
           clean_session = (flags_byte AND 0x02 \<noteq> 0)
       in if flags_byte AND 0x01 \<noteq> 0
          then fail (Decode ''Reserved bit set in connect flags'')
          else if will_flag \<and> will_qos = None
          then fail (Decode ''Will QoS invalid'')
          else
            and_then inner_read_u16 (\<lambda>keep_alive.
            and_then read_utf8_string (\<lambda>client_id.
            and_then
              (if will_flag then
                 and_then read_utf8_string (\<lambda>topic.
                 and_then inner_read_u16 (\<lambda>msg_len.
                 and_then (inner_read_exact (unat msg_len)) (\<lambda>msg_bytes.
                 ok (Some topic, Some msg_bytes))))
               else ok (None, None)) (\<lambda>(will_topic, will_message).
            and_then
              (if username_flag then
                 and_then read_utf8_string (\<lambda>name. ok (Some name))
               else ok None) (\<lambda>username.
            and_then
              (if password_flag then
                 and_then inner_read_u16 (\<lambda>pwd_len.
                 and_then (inner_read_exact (unat pwd_len)) (\<lambda>pwd_bytes.
                 ok (Some pwd_bytes)))
               else ok None) (\<lambda>password.
            ok \<lparr>cp_protocol_name = protocol_name, cp_protocol_level = protocol_level,
                cp_clean_session = clean_session, cp_will_flag = will_flag,
                cp_will_qos = will_qos, cp_will_retain = will_retain,
                cp_username_flag = username_flag, cp_password_flag = password_flag,
                cp_keep_alive = keep_alive, cp_client_id = client_id,
                cp_will_topic = will_topic, cp_will_message = will_message,
                cp_username = username, cp_password = password\<rparr>))))))))))"

definition decode_publish :: "fixed_header \<Rightarrow> (broker_error, publish_packet) reader" where
  "decode_publish header =
     (let dup = (fh_flags header AND 0x08 \<noteq> 0);
          qos_bits = drop_bit 1 (fh_flags header) AND 0x03
      in case qos_try_from_u8 qos_bits of
           None \<Rightarrow> fail (Decode (''Invalid QoS value: '' @ show_nat (unat qos_bits)))
         | Some qos \<Rightarrow>
             (let retain = (fh_flags header AND 0x01 \<noteq> 0)
              in and_then read_utf8_string (\<lambda>topic_name.
                 and_then
                   (if qos \<noteq> AtMostOnce then
                      and_then read_packet_id (\<lambda>pid. ok (Some pid))
                    else ok None) (\<lambda>packet_id.
                 and_then (\<lambda>src. read_payload (length src) src) (\<lambda>payload.
                 ok \<lparr>pp_dup = dup, pp_qos = qos, pp_retain = retain,
                     pp_topic_name = topic_name, pp_packet_id = packet_id,
                     pp_payload = payload\<rparr>)))))"

definition decode_puback :: "(broker_error, packet_id) reader" where
  "decode_puback = read_packet_id"

definition decode_pubrec :: "(broker_error, packet_id) reader" where
  "decode_pubrec = read_packet_id"

definition decode_pubrel :: "(broker_error, packet_id) reader" where
  "decode_pubrel = read_packet_id"

definition decode_pubcomp :: "(broker_error, packet_id) reader" where
  "decode_pubcomp = read_packet_id"

text \<open>The body of the loop of \<open>decode_subscribe\<close>, then the loop.\<close>

definition read_subscription :: "(broker_error, rstring \<times> qos) reader" where
  "read_subscription =
     and_then read_utf8_string (\<lambda>topic_filter.
     and_then inner_read_u8 (\<lambda>qos_byte.
       case qos_try_from_u8 (qos_byte AND 0x03) of
         None \<Rightarrow> fail (Decode (''Invalid subscribe QoS: '' @ show_nat (unat qos_byte)))
       | Some qos \<Rightarrow> ok (topic_filter, qos)))"

lemma read_utf8_string_consumes [consumes]:
  "read_utf8_string src = Inr (s, rest) \<Longrightarrow> length rest < length src"
  by (auto simp: reader_iff)

lemma read_subscription_consumes [consumes]:
  "read_subscription src = Inr (s, rest) \<Longrightarrow> length rest < length src"
  by (auto simp: read_subscription_def reader_iff split: option.splits)

function subscribe_loop ::
  "(rstring \<times> qos) list \<Rightarrow> (broker_error, (rstring \<times> qos) list) reader" where
  "subscribe_loop subscriptions src =
     (if src = [] then Inr (subscriptions, src)
      else (case read_subscription src of
              Inl e \<Rightarrow> Inl e
            | Inr (s, rest) \<Rightarrow> subscribe_loop (subscriptions @ [s]) rest))"
  by pat_completeness auto
termination
  by (relation "measure (\<lambda>(acc, src). length src)") (auto dest: consumes)

declare subscribe_loop.simps [simp del]

definition decode_subscribe :: "(broker_error, subscribe_packet) reader" where
  "decode_subscribe =
     and_then read_packet_id (\<lambda>packet_id.
     and_then (subscribe_loop []) (\<lambda>subscriptions.
       if subscriptions = [] then fail (Decode ''Subscribe packet with no subscriptions'')
       else ok \<lparr>sp_packet_id = packet_id, sp_subscriptions = subscriptions\<rparr>))"

function unsubscribe_loop ::
  "rstring list \<Rightarrow> (broker_error, rstring list) reader" where
  "unsubscribe_loop topic_filters src =
     (if src = [] then Inr (topic_filters, src)
      else (case read_utf8_string src of
              Inl e \<Rightarrow> Inl e
            | Inr (f, rest) \<Rightarrow> unsubscribe_loop (topic_filters @ [f]) rest))"
  by pat_completeness auto
termination
  by (relation "measure (\<lambda>(acc, src). length src)") (auto dest: consumes)

declare unsubscribe_loop.simps [simp del]

definition decode_unsubscribe :: "(broker_error, unsubscribe_packet) reader" where
  "decode_unsubscribe =
     and_then read_packet_id (\<lambda>packet_id.
     and_then (unsubscribe_loop []) (\<lambda>topic_filters.
       if topic_filters = [] then fail (Decode ''Unsubscribe packet with no topics'')
       else ok \<lparr>up_packet_id = packet_id, up_topic_filters = topic_filters\<rparr>))"

section \<open>Whole packets\<close>

fun decode_body :: "fixed_header \<Rightarrow> packet_type \<Rightarrow> (broker_error, packet) reader" where
  "decode_body header TConnect = and_then decode_connect (\<lambda>p. ok (Connect p))"
| "decode_body header TConnack =
     and_then inner_read_u8 (\<lambda>_. fail (Decode ''Server received CONNACK''))"
| "decode_body header TPublish = and_then (decode_publish header) (\<lambda>p. ok (Publish p))"
| "decode_body header TPuback = and_then decode_puback (\<lambda>p. ok (Puback p))"
| "decode_body header TPubrec = and_then decode_pubrec (\<lambda>p. ok (Pubrec p))"
| "decode_body header TPubrel = and_then decode_pubrel (\<lambda>p. ok (Pubrel p))"
| "decode_body header TPubcomp = and_then decode_pubcomp (\<lambda>p. ok (Pubcomp p))"
| "decode_body header TSubscribe = and_then decode_subscribe (\<lambda>p. ok (Subscribe p))"
| "decode_body header TSuback = fail (Decode ''Server received SUBACK'')"
| "decode_body header TUnsubscribe = and_then decode_unsubscribe (\<lambda>p. ok (Unsubscribe p))"
| "decode_body header TUnsuback = fail (Decode ''Server received UNSUBACK'')"
| "decode_body header TPingreq = ok Pingreq"
| "decode_body header TPingresp = fail (Decode ''Server received PINGRESP'')"
| "decode_body header TDisconnect = ok Disconnect"

definition decode :: "(broker_error, packet) reader" where
  "decode =
     and_then decode_fixed_header (\<lambda>header src.
       if length src < fh_remaining_length header
       then Inl (Decode (''Incomplete packet: need '' @ show_nat (fh_remaining_length header)
                         @ '' bytes, have '' @ show_nat (length src)))
       else decode_body header (fh_packet_type header) src)"

section \<open>What a remaining length is\<close>

text \<open>
  The reference: a variable-length integer is a sequence of bytes of which all but the last
  have the continuation bit, and its value is little-endian in base 128.
\<close>

fun vbi_shape :: "u8 list \<Rightarrow> bool" where
  "vbi_shape [] = False"
| "vbi_shape (b # bs) = (if b AND 0x80 = 0 then bs = [] else vbi_shape bs)"

fun vbi_value :: "u8 list \<Rightarrow> nat" where
  "vbi_value [] = 0"
| "vbi_value (b # bs) = unat (b AND 0x7F) + 128 * vbi_value bs"

lemma unat_and_127: "unat (b AND 0x7F :: u8) < 128"
proof -
  have "unat (b AND 0x7F) \<le> unat (0x7F :: u8)"
    by (rule word_and_le1 [THEN word_le_nat_alt [THEN iffD1]])
  then show ?thesis by simp
qed

lemma vbi_value_bound: "vbi_value bs < 128 ^ length bs"
proof (induction bs)
  case (Cons b bs)
  have "unat (b AND 0x7F) + 128 * vbi_value bs < 128 * (vbi_value bs + 1)"
    using unat_and_127 [of b] by simp
  also have "\<dots> \<le> 128 * 128 ^ length bs"
    using Cons.IH by (intro mult_le_mono2) simp
  finally show ?case by simp
qed simp

lemma vbi_shape_not_Nil: "vbi_shape bs \<Longrightarrow> bs \<noteq> []"
  by auto

lemma remaining_length_loop_Inr:
  "c < 4 \<Longrightarrow> remaining_length_loop (128 ^ c) v c src = Inr ((x, n), rest) \<longleftrightarrow>
     (\<exists>bs. src = bs @ rest \<and> vbi_shape bs \<and> n = c + length bs \<and> n \<le> 4
           \<and> x = v + 128 ^ c * vbi_value bs)"
proof (induction src arbitrary: c v)
  case Nil
  then show ?case by (auto dest: vbi_shape_not_Nil)
next
  case (Cons b src)
  let ?v = "v + 128 ^ c * unat (b AND 0x7F)"
  show ?case
  proof (cases "b AND 0x80 = 0")
    case True
    then have "remaining_length_loop (128 ^ c) v c (b # src) = Inr ((?v, c + 1), src)"
      by (simp add: Let_def)
    moreover have "(\<exists>bs. b # src = bs @ rest \<and> vbi_shape bs \<and> n = c + length bs \<and> n \<le> 4
           \<and> x = v + 128 ^ c * vbi_value bs) \<longleftrightarrow> rest = src \<and> n = c + 1 \<and> x = ?v"
      using True Cons.prems by (auto simp: Cons_eq_append_conv)
    ultimately show ?thesis by auto
  next
    case cont: False
    have tail: "(\<exists>bs. b # src = bs @ rest \<and> vbi_shape bs \<and> n = c + length bs \<and> n \<le> 4
           \<and> x = v + 128 ^ c * vbi_value bs) \<longleftrightarrow>
        (\<exists>bs. src = bs @ rest \<and> vbi_shape bs \<and> n = Suc c + length bs \<and> n \<le> 4
           \<and> x = ?v + 128 ^ Suc c * vbi_value bs)"
      using cont by (auto simp: Cons_eq_append_conv algebra_simps)
    show ?thesis
    proof (cases "c = 3")
      case True
      then have loop: "remaining_length_loop (128 ^ c) v c (b # src)
          = Inl (Decode ''Malformed remaining length'')"
        using cont by (simp add: Let_def)
      have "\<not> (vbi_shape bs \<and> n = Suc c + length bs \<and> n \<le> 4)" for bs
        using True by (cases bs) auto
      then show ?thesis unfolding tail loop by blast
    next
      case False
      with Cons.prems have c: "Suc c < 4" by simp
      then have "(128 :: nat) ^ Suc c \<le> 128 ^ 3"
        by (intro power_increasing) simp_all
      then have "remaining_length_loop (128 ^ c) v c (b # src)
          = remaining_length_loop (128 ^ Suc c) ?v (Suc c) src"
        using cont c by (simp add: Let_def mult.commute)
      then show ?thesis
        unfolding tail using Cons.IH [OF c, of ?v] by simp
    qed
  qed
qed

lemma decode_remaining_length_Inr [reader_iff]:
  "decode_remaining_length src = Inr ((v, n), rest) \<longleftrightarrow>
     (\<exists>bs. src = bs @ rest \<and> vbi_shape bs \<and> length bs \<le> 4 \<and> n = length bs
           \<and> v = vbi_value bs)"
  using remaining_length_loop_Inr [of 0 0 src v n rest]
  by (auto simp: decode_remaining_length_def)

text \<open>The last test of the loop cannot fail: the byte count is checked before it.\<close>

lemma remaining_length_never_too_large:
  "c < 4 \<Longrightarrow> remaining_length_loop (128 ^ c) v c src
     \<noteq> Inl (Decode ''Remaining length too large'')"
proof (induction src arbitrary: c v)
  case (Cons b src)
  show ?case
  proof (cases "c = 3")
    case False
    with Cons.prems have c: "Suc c < 4" by simp
    then have "(128 :: nat) ^ Suc c \<le> 128 ^ 3"
      by (intro power_increasing) simp_all
    with c Cons.IH [OF c] show ?thesis
      by (simp add: Let_def mult.commute)
  qed (simp add: Let_def)
qed simp

section \<open>The errors of the decoder\<close>

text \<open>Every error of the decoder is a \<open>Decode\<close> error.\<close>

definition decode_errors :: "(broker_error, 'a) reader \<Rightarrow> bool" where
  "decode_errors p \<longleftrightarrow> (\<forall>s e. p s = Inl e \<longrightarrow> (\<exists>m. e = Decode m))"

named_theorems error_kind

lemma decode_errors_combinators [error_kind]:
  "decode_errors (ok x)" "decode_errors (fail (Decode m))"
  "decode_errors p \<Longrightarrow> (\<And>x. decode_errors (k x)) \<Longrightarrow> decode_errors (and_then p k)"
  "(b \<Longrightarrow> decode_errors p) \<Longrightarrow> (\<not> b \<Longrightarrow> decode_errors q) \<Longrightarrow> decode_errors (if b then p else q)"
  by (auto simp: decode_errors_def ok_def fail_def and_then_def split: sum.splits)

lemma decode_errors_cases [error_kind]:
  "decode_errors p \<Longrightarrow> (\<And>x. decode_errors (q x)) \<Longrightarrow> decode_errors (case y of None \<Rightarrow> p | Some x \<Rightarrow> q x)"
  "(\<And>a b. decode_errors (f a b)) \<Longrightarrow> decode_errors (case z of (a, b) \<Rightarrow> f a b)"
  by (auto split: option.split prod.split)

lemma decode_errors_primitive [error_kind]:
  "decode_errors inner_read_u8" "decode_errors inner_read_u16"
  "decode_errors (inner_read_exact n)" "decode_errors (string_from_utf8 msg bs)"
  by (auto simp: decode_errors_def inner_read_u8_def inner_read_u16_def inner_read_exact_def
      string_from_utf8_def split: list.splits if_splits sum.splits)

lemma decode_errors_fields [error_kind]:
  "decode_errors read_utf8_string" "decode_errors (read_payload n)" "decode_errors read_packet_id"
  unfolding read_utf8_string_def read_payload_def read_packet_id_def
  by (intro error_kind)+

lemma decode_errors_remaining_length [error_kind]: "decode_errors decode_remaining_length"
proof -
  have "remaining_length_loop m v c s = Inl e \<Longrightarrow> \<exists>msg. e = Decode msg" for m v c s e
    by (induction m v c s rule: remaining_length_loop.induct) (auto simp: Let_def split: if_splits)
  then show ?thesis by (simp add: decode_errors_def decode_remaining_length_def)
qed

lemma decode_errors_header [error_kind]: "decode_errors decode_fixed_header"
  unfolding decode_fixed_header_def Let_def by (intro error_kind)

lemma decode_errors_connect [error_kind]: "decode_errors decode_connect"
  unfolding decode_connect_def Let_def by (intro error_kind)

lemma decode_errors_rest [error_kind]: "decode_errors (\<lambda>src. read_payload (length src) src)"
  by (simp add: decode_errors_def read_payload_def inner_read_exact_def)

lemma decode_errors_publish [error_kind]: "decode_errors (decode_publish h)"
  unfolding decode_publish_def Let_def by (intro error_kind)

lemma decode_errors_subscription [error_kind]: "decode_errors read_subscription"
  unfolding read_subscription_def by (intro error_kind)

lemma decode_errors_loops [error_kind]:
  "decode_errors (subscribe_loop xs)" "decode_errors (unsubscribe_loop ys)"
proof -
  have "subscribe_loop xs s = Inl e \<Longrightarrow> \<exists>m. e = Decode m" for s e
  proof (induction xs s rule: subscribe_loop.induct)
    case (1 acc src)
    with decode_errors_subscription show ?case
      by (subst (asm) (2) subscribe_loop.simps)
        (auto simp: decode_errors_def split: if_splits sum.splits)
  qed
  then show "decode_errors (subscribe_loop xs)" by (simp add: decode_errors_def)
  have "unsubscribe_loop ys s = Inl e \<Longrightarrow> \<exists>m. e = Decode m" for s e
  proof (induction ys s rule: unsubscribe_loop.induct)
    case (1 acc src)
    with decode_errors_fields(1) show ?case
      by (subst (asm) (2) unsubscribe_loop.simps)
        (auto simp: decode_errors_def split: if_splits sum.splits)
  qed
  then show "decode_errors (unsubscribe_loop ys)" by (simp add: decode_errors_def)
qed

lemma decode_errors_body [error_kind]: "decode_errors (decode_body h t)"
  unfolding decode_puback_def decode_pubrec_def decode_pubrel_def decode_pubcomp_def
  by (cases t; simp only: decode_body.simps decode_puback_def decode_pubrec_def
      decode_pubrel_def decode_pubcomp_def decode_subscribe_def decode_unsubscribe_def;
      intro error_kind)

lemma decode_error:
  assumes "decode src = Inl e"
  shows "\<exists>m. e = Decode m"
proof -
  have "decode_errors decode"
    using decode_errors_body unfolding decode_def
    by (intro error_kind) (simp add: decode_errors_def)
  with assms show ?thesis by (simp add: decode_errors_def)
qed

lemma decode_fixed_header_error: "decode_fixed_header src = Inl e \<Longrightarrow> \<exists>m. e = Decode m"
  using decode_errors_header by (simp add: decode_errors_def)

end
