(* ===== verification/Encode.thy ===== *)
theory Encode
  imports Protocol_Types
begin

text \<open>
  The encoder (\<open>src/src/protocol/encode.rs\<close>). A \<open>BytesMut\<close> that is only appended
  to is the byte list it holds; a function that takes the buffer by \<open>&mut\<close> returns the
  buffer with what it has written behind the old contents. Casts between integer types are
  written out: \<open>value.len() as u16\<close> truncates.
\<close>

section \<open>Primitives\<close>

function encode_remaining_length :: "nat \<Rightarrow> u8 list" where
  "encode_remaining_length len =
     (let byte = (of_nat (len mod 128) :: u8);
          rest = len div 128
      in if rest > 0 then (byte OR 0x80) # encode_remaining_length rest
         else [byte])"
  by pat_completeness auto
termination
  by (relation "measure id") auto

declare encode_remaining_length.simps [simp del]

definition write_utf8_string :: "u8 list \<Rightarrow> rstring \<Rightarrow> u8 list" where
  "write_utf8_string buf value = buf @ u16_to_be_bytes (of_nat (length value)) @ value"

definition write_fixed_header :: "u8 list \<Rightarrow> u8 \<Rightarrow> u8 \<Rightarrow> nat \<Rightarrow> u8 list" where
  "write_fixed_header buf packet_type flags remaining_length =
     buf @ [push_bit 4 packet_type OR flags] @ encode_remaining_length remaining_length"

definition put_u8 :: "u8 list \<Rightarrow> u8 \<Rightarrow> u8 list" where
  "put_u8 buf b = buf @ [b]"

definition put_u16 :: "u8 list \<Rightarrow> u16 \<Rightarrow> u8 list" where
  "put_u16 buf x = buf @ u16_to_be_bytes x"

fun remaining_length_for_packet :: "packet \<Rightarrow> nat" where
  "remaining_length_for_packet (Connack _) = 2"
| "remaining_length_for_packet (Publish p) =
     (let len = 2 + length (pp_topic_name p);
          len = (if pp_qos p \<noteq> AtMostOnce then len + 2 else len)
      in len + length (pp_payload p))"
| "remaining_length_for_packet (Puback _) = 2"
| "remaining_length_for_packet (Pubrec _) = 2"
| "remaining_length_for_packet (Pubrel _) = 2"
| "remaining_length_for_packet (Pubcomp _) = 2"
| "remaining_length_for_packet (Unsuback _) = 2"
| "remaining_length_for_packet (Suback s) = 2 + length (sa_return_codes s)"
| "remaining_length_for_packet Pingresp = 0"
| "remaining_length_for_packet (Connect _) = 0"
| "remaining_length_for_packet (Subscribe _) = 0"
| "remaining_length_for_packet (Unsubscribe _) = 0"
| "remaining_length_for_packet Pingreq = 0"
| "remaining_length_for_packet Disconnect = 0"

section \<open>One function per packet\<close>

definition encode_connack :: "connack_packet \<Rightarrow> u8 list" where
  "encode_connack packet =
     (let buf = write_fixed_header [] 2 0 2;
          buf = put_u8 buf (if ca_session_present packet then 1 else 0)
      in put_u8 buf (connack_code_u8 (ca_return_code packet)))"

definition encode_suback :: "suback_packet \<Rightarrow> u8 list" where
  "encode_suback packet =
     (let remaining = 2 + length (sa_return_codes packet);
          buf = write_fixed_header [] 9 0 remaining;
          buf = put_u16 buf (packet_id_raw (sa_packet_id packet))
      in foldl (\<lambda>buf code. put_u8 buf (subscribe_code_u8 code)) buf (sa_return_codes packet))"

definition encode_unsuback :: "packet_id \<Rightarrow> u8 list" where
  "encode_unsuback packet_id =
     (let buf = write_fixed_header [] 11 0 2
      in put_u16 buf (packet_id_raw packet_id))"

definition simple_packet_with_flags :: "u8 \<Rightarrow> u8 \<Rightarrow> packet_id \<Rightarrow> u8 list" where
  "simple_packet_with_flags packet_type flags packet_id =
     (let buf = write_fixed_header [] packet_type flags 2
      in put_u16 buf (packet_id_raw packet_id))"

definition simple_packet_with_id :: "u8 \<Rightarrow> packet_id \<Rightarrow> u8 list" where
  "simple_packet_with_id packet_type packet_id =
     simple_packet_with_flags packet_type 0 packet_id"

definition encode_puback :: "packet_id \<Rightarrow> u8 list" where
  "encode_puback packet_id = simple_packet_with_id 4 packet_id"

definition encode_pubrec :: "packet_id \<Rightarrow> u8 list" where
  "encode_pubrec packet_id = simple_packet_with_id 5 packet_id"

definition encode_pubrel :: "packet_id \<Rightarrow> u8 list" where
  "encode_pubrel packet_id = simple_packet_with_flags 6 0x02 packet_id"

definition encode_pubcomp :: "packet_id \<Rightarrow> u8 list" where
  "encode_pubcomp packet_id = simple_packet_with_id 7 packet_id"

definition encode_pingresp :: "u8 list" where
  "encode_pingresp = write_fixed_header [] 13 0 0"

definition publish_flags :: "publish_packet \<Rightarrow> u8" where
  "publish_flags packet =
     (let flags = 0;
          flags = (if pp_dup packet then flags OR 0x08 else flags);
          flags = flags OR push_bit 1 (qos_u8 (pp_qos packet))
      in if pp_retain packet then flags OR 0x01 else flags)"

definition encode_publish :: "publish_packet \<Rightarrow> broker_error + u8 list" where
  "encode_publish packet =
     (let remaining = remaining_length_for_packet (Publish packet);
          flags = publish_flags packet;
          buf = write_fixed_header [] 3 flags remaining;
          buf = write_utf8_string buf (pp_topic_name packet)
      in if pp_qos packet \<noteq> AtMostOnce
         then (case pp_packet_id packet of
                 None \<Rightarrow> Inl (Encode ''QoS > 0 requires packet_id'')
               | Some pid \<Rightarrow> Inr (put_u16 buf (packet_id_raw pid) @ pp_payload packet))
         else Inr (buf @ pp_payload packet))"

definition cannot_encode :: "packet \<Rightarrow> broker_error + u8 list" where
  "cannot_encode packet =
     Inl (Encode (''Cannot encode client-to-server packet: ''
                  @ debug_packet_type (type_of_packet packet)))"

fun encode :: "packet \<Rightarrow> broker_error + u8 list" where
  "encode (Connack p) = Inr (encode_connack p)"
| "encode (Publish p) = encode_publish p"
| "encode (Puback pid) = Inr (encode_puback pid)"
| "encode (Pubrec pid) = Inr (encode_pubrec pid)"
| "encode (Pubrel pid) = Inr (encode_pubrel pid)"
| "encode (Pubcomp pid) = Inr (encode_pubcomp pid)"
| "encode (Suback p) = Inr (encode_suback p)"
| "encode (Unsuback pid) = Inr (encode_unsuback pid)"
| "encode Pingresp = Inr encode_pingresp"
| "encode (Connect c) = cannot_encode (Connect c)"
| "encode (Subscribe s) = cannot_encode (Subscribe s)"
| "encode (Unsubscribe u) = cannot_encode (Unsubscribe u)"
| "encode Pingreq = cannot_encode Pingreq"
| "encode Disconnect = cannot_encode Disconnect"

lemmas encode_defs =
  encode_connack_def encode_suback_def encode_unsuback_def simple_packet_with_flags_def
  simple_packet_with_id_def encode_puback_def encode_pubrec_def encode_pubrel_def
  encode_pubcomp_def encode_pingresp_def encode_publish_def

lemmas write_defs = write_utf8_string_def write_fixed_header_def put_u8_def put_u16_def

section \<open>The layout of a frame\<close>

text \<open>
  What every encoder produces: the byte holding the packet type and the flags, the length of
  the body as a variable-length integer, then the body. \<open>packet_body\<close> and
  \<open>packet_flags\<close> name the parts; they are the reference the encoders are compared with.
\<close>

definition frame :: "u8 \<Rightarrow> u8 \<Rightarrow> u8 list \<Rightarrow> u8 list" where
  "frame packet_type flags body =
     (push_bit 4 packet_type OR flags) # encode_remaining_length (length body) @ body"

fun packet_flags :: "packet \<Rightarrow> u8" where
  "packet_flags (Publish p) = publish_flags p"
| "packet_flags (Pubrel _) = 0x02"
| "packet_flags _ = 0"

fun packet_body :: "packet \<Rightarrow> u8 list" where
  "packet_body (Connack p) =
     [if ca_session_present p then 1 else 0, connack_code_u8 (ca_return_code p)]"
| "packet_body (Publish p) =
     u16_to_be_bytes (of_nat (length (pp_topic_name p))) @ pp_topic_name p
     @ (case pp_packet_id p of
          Some pid \<Rightarrow> if pp_qos p \<noteq> AtMostOnce then packet_id_to_be_bytes pid else []
        | None \<Rightarrow> [])
     @ pp_payload p"
| "packet_body (Suback p) =
     packet_id_to_be_bytes (sa_packet_id p) @ map subscribe_code_u8 (sa_return_codes p)"
| "packet_body (Puback pid) = packet_id_to_be_bytes pid"
| "packet_body (Pubrec pid) = packet_id_to_be_bytes pid"
| "packet_body (Pubrel pid) = packet_id_to_be_bytes pid"
| "packet_body (Pubcomp pid) = packet_id_to_be_bytes pid"
| "packet_body (Unsuback pid) = packet_id_to_be_bytes pid"
| "packet_body _ = []"

lemma foldl_put_u8: "foldl (\<lambda>buf x. put_u8 buf (f x)) buf xs = buf @ map f xs"
  by (induction xs arbitrary: buf) (simp_all add: put_u8_def)

definition encodable :: "packet \<Rightarrow> bool" where
  "encodable p \<longleftrightarrow> server_packet p \<and>
     (case p of Publish pk \<Rightarrow> pp_qos pk \<noteq> AtMostOnce \<longrightarrow> pp_packet_id pk \<noteq> None | _ \<Rightarrow> True)"

lemma encode_frame:
  "encodable p \<Longrightarrow>
     encode p = Inr (frame (packet_type_u8 (type_of_packet p)) (packet_flags p) (packet_body p))"
  by (cases p)
     (auto simp: encodable_def encode_defs write_defs frame_def packet_id_to_be_bytes_def
       numeral_2_eq_2 foldl_put_u8 [unfolded put_u8_def] split: option.splits)

lemma encode_error_iff: "(\<exists>e. encode p = Inl e) \<longleftrightarrow> \<not> encodable p"
  by (cases p)
     (auto simp: encodable_def cannot_encode_def encode_publish_def Let_def split: option.splits)

end
