(* ===== verification/Wire_Format.thy ===== *)
theory Wire_Format
  imports Decode Encode
begin

text \<open>
  The two halves of the codec together. The readers of the decoder are prefix codecs (the
  locale of the prelude) for the byte forms they accept, the reading loops are codec loops,
  and from these follow the round trips: what the encoder writes is what the decoder reads,
  and the decoder accepts the wire form of every well-formed client packet.
\<close>

section \<open>Variable-length integers\<close>

lemma bit_u8_of_small:
  assumes "m < 128"
  shows "\<not> bit (of_nat m :: u8) 7"
proof -
  have "take_bit 7 m = m"
    using assms by (simp add: take_bit_nat_eq_self)
  then have "\<not> bit m 7"
    by (metis bit_take_bit_iff less_irrefl)
  then show ?thesis
    by (simp add: bit_of_nat_iff)
qed

lemma bit_0x80 [simp]: "bit (0x80 :: u8) n \<longleftrightarrow> n = 7"
proof -
  have eq: "(0x80 :: u8) = 2 ^ 7" by simp
  show ?thesis unfolding eq bit_exp_iff by (auto simp: possible_bit_word)
qed

lemma bit_0x7F [simp]: "bit (0x7F :: u8) n \<longleftrightarrow> n < 7"
proof -
  have eq: "(0x7F :: u8) = mask 7" by (simp add: mask_eq_exp_minus_1)
  show ?thesis unfolding eq bit_mask_iff by (auto simp: possible_bit_word)
qed

lemma bit_0x0F [simp]: "bit (0x0F :: u8) n \<longleftrightarrow> n < 4"
proof -
  have eq: "(0x0F :: u8) = mask 4" by (simp add: mask_eq_exp_minus_1)
  show ?thesis unfolding eq bit_mask_iff by (auto simp: possible_bit_word)
qed

lemma bit_of_small_lt:
  assumes "m < 128" and "bit (of_nat m :: u8) n"
  shows "n < 7"
  using bit_u8_of_small [OF assms(1)] assms(2) bit_imp_le_length [OF assms(2)]
  by (cases "n = 7") auto

lemma last_byte:
  assumes "m < 128"
  shows "(of_nat m :: u8) AND 0x80 = 0" and "unat ((of_nat m :: u8) AND 0x7F) = m"
proof -
  show "(of_nat m :: u8) AND 0x80 = 0"
    by (intro bit_word_eqI)
      (auto simp: bit_and_iff simp del: bit_numeral_word_iff dest: bit_of_small_lt [OF assms])
  have "(of_nat m :: u8) AND 0x7F = of_nat m"
    by (intro bit_word_eqI)
      (auto simp: bit_and_iff simp del: bit_numeral_word_iff dest: bit_of_small_lt [OF assms])
  then show "unat ((of_nat m :: u8) AND 0x7F) = m"
    using assms by (simp add: unat_of_nat take_bit_nat_eq_self)
qed

lemma continued_byte:
  assumes "m < 128"
  shows "((of_nat m :: u8) OR 0x80) AND 0x80 \<noteq> 0"
    and "unat (((of_nat m :: u8) OR 0x80) AND 0x7F) = m"
proof -
  have "bit (((of_nat m :: u8) OR 0x80) AND 0x80) 7"
    by (simp add: bit_simps)
  then show "((of_nat m :: u8) OR 0x80) AND 0x80 \<noteq> 0"
    by auto
  have "((of_nat m :: u8) OR 0x80) AND 0x7F = of_nat m AND 0x7F"
    by (intro bit_word_eqI) (auto simp: bit_and_iff bit_or_iff simp del: bit_numeral_word_iff)
  then show "unat (((of_nat m :: u8) OR 0x80) AND 0x7F) = m"
    using last_byte(2) [OF assms] by simp
qed

lemma vbi_shape_encode [simp]: "vbi_shape (encode_remaining_length n)"
proof (induction n rule: encode_remaining_length.induct)
  case (1 n)
  then show ?case
    by (simp add: encode_remaining_length.simps [of n] Let_def last_byte continued_byte)
qed

lemma vbi_value_encode [simp]: "vbi_value (encode_remaining_length n) = n"
proof (induction n rule: encode_remaining_length.induct)
  case (1 n)
  then show ?case
    by (simp add: encode_remaining_length.simps [of n] Let_def last_byte continued_byte)
qed

lemma length_encode_remaining_length:
  "0 < k \<Longrightarrow> n < 128 ^ k \<Longrightarrow> length (encode_remaining_length n) \<le> k"
proof (induction k arbitrary: n)
  case (Suc k)
  show ?case
  proof (cases "n div 128 = 0")
    case True
    then show ?thesis
      by (simp add: encode_remaining_length.simps [of n] Let_def)
  next
    case False
    have "n div 128 < 128 ^ k"
      using Suc.prems(2) by (simp add: less_mult_imp_div_less mult.commute)
    moreover from this False have "0 < k"
      by (cases k) auto
    ultimately show ?thesis
      using False Suc.IH [of "n div 128"]
      by (simp add: encode_remaining_length.simps [of n] Let_def)
  qed
qed simp

section \<open>The readers as prefix codecs\<close>

interpretation u16_codec: prefix_codec u16_to_be_bytes inner_read_u16 "\<lambda>_. True"
  by unfold_locales (simp add: inner_read_u16_Inr)

interpretation packet_id_codec: prefix_codec packet_id_to_be_bytes read_packet_id "\<lambda>_. True"
  by unfold_locales (simp add: read_packet_id_Inr)

definition subscription_bytes :: "rstring \<times> qos \<Rightarrow> u8 list" where
  "subscription_bytes s = string_bytes (fst s) @ [qos_u8 (snd s)]"

lemma qos_u8_and_3 [simp]: "qos_u8 q AND 3 = qos_u8 q"
  by (cases q) simp_all

interpretation filter_codec: codec_loop string_bytes read_utf8_string wf_string unsubscribe_loop
proof unfold_locales
  show "wf_string s \<Longrightarrow> string_bytes s \<noteq> []" for s
    by (simp add: string_bytes_def u16_to_be_bytes_def)
qed (simp_all add: read_utf8_string_Inr unsubscribe_loop.simps)

interpretation subscription_codec:
  codec_loop subscription_bytes read_subscription "\<lambda>(f, q). wf_string f" subscribe_loop
proof unfold_locales
  fix x :: "rstring \<times> qos" and rest :: "u8 list"
  assume "case x of (f, q) \<Rightarrow> wf_string f"
  then show "read_subscription (subscription_bytes x @ rest) = Inr (x, rest)"
    by (cases x) (simp add: read_subscription_def subscription_bytes_def filter_codec.get_put)
qed (simp_all add: subscription_bytes_def subscribe_loop.simps)

definition header_bytes :: "fixed_header \<Rightarrow> u8 list" where
  "header_bytes h =
     (push_bit 4 (packet_type_u8 (fh_packet_type h)) OR fh_flags h)
     # encode_remaining_length (fh_remaining_length h)"

definition wf_header :: "fixed_header \<Rightarrow> bool" where
  "wf_header h \<longleftrightarrow> fh_flags h AND 0x0F = fh_flags h \<and> fh_remaining_length h < 128 ^ 4"

lemma header_byte_type:
  assumes "flags AND 0x0F = flags"
  shows "drop_bit 4 (push_bit 4 (packet_type_u8 t) OR flags) = packet_type_u8 t"
proof -
  have "drop_bit 4 flags = 0"
    by (subst assms [symmetric]) (intro bit_word_eqI, auto simp: bit_simps)
  moreover have "drop_bit 4 (push_bit 4 (packet_type_u8 t)) = packet_type_u8 t"
    by (cases t) simp_all
  ultimately show ?thesis by (simp add: drop_bit_or)
qed

lemma header_byte_flags:
  assumes "flags AND 0x0F = flags"
  shows "(push_bit 4 (packet_type_u8 t) OR flags) AND 0x0F = flags"
proof -
  have "push_bit 4 (packet_type_u8 t) AND 0x0F = 0"
    by (cases t) simp_all
  then show ?thesis
    using assms by (simp add: bit.conj_disj_distrib2)
qed

interpretation header_codec: prefix_codec header_bytes decode_fixed_header wf_header
proof unfold_locales
  fix h rest
  assume "wf_header h"
  then have flags: "fh_flags h AND 0x0F = fh_flags h" and len: "fh_remaining_length h < 128 ^ 4"
    by (simp_all add: wf_header_def)
  define n where "n = length (encode_remaining_length (fh_remaining_length h))"
  have "decode_remaining_length (encode_remaining_length (fh_remaining_length h) @ rest)
      = Inr ((fh_remaining_length h, n), rest)"
    using length_encode_remaining_length [OF _ len]
    unfolding n_def decode_remaining_length_Inr by force
  then show "decode_fixed_header (header_bytes h @ rest) = Inr (h, rest)"
    by (simp add: decode_fixed_header_def header_bytes_def Let_def
        header_byte_type [OF flags] header_byte_flags [OF flags]
        del: drop_bit_or)
qed

section \<open>The wire form of every packet\<close>

text \<open>
  The encoder covers the packets a server sends. For the packets only a client sends, the
  reference is the layout of MQTT 3.1.1, sections 3.1, 3.8 and 3.10.
\<close>

definition opt_bytes :: "u8 list option \<Rightarrow> u8 list" where
  "opt_bytes x = (case x of None \<Rightarrow> [] | Some b \<Rightarrow> string_bytes b)"

definition connect_flags :: "connect_packet \<Rightarrow> u8" where
  "connect_flags c =
     (if cp_username_flag c then 0x80 else 0) OR (if cp_password_flag c then 0x40 else 0)
     OR (if cp_will_retain c then 0x20 else 0)
     OR push_bit 3 (case cp_will_qos c of None \<Rightarrow> 3 | Some q \<Rightarrow> qos_u8 q)
     OR (if cp_will_flag c then 0x04 else 0) OR (if cp_clean_session c then 0x02 else 0)"

definition connect_bytes :: "connect_packet \<Rightarrow> u8 list" where
  "connect_bytes c =
     string_bytes (cp_protocol_name c) @ [cp_protocol_level c, connect_flags c]
     @ u16_to_be_bytes (cp_keep_alive c) @ string_bytes (cp_client_id c)
     @ opt_bytes (cp_will_topic c) @ opt_bytes (cp_will_message c)
     @ opt_bytes (cp_username c) @ opt_bytes (cp_password c)"

fun wire_flags :: "packet \<Rightarrow> u8" where
  "wire_flags (Publish p) = publish_flags p"
| "wire_flags p = required_flags (type_of_packet p)"

fun wire_body :: "packet \<Rightarrow> u8 list" where
  "wire_body (Connect c) = connect_bytes c"
| "wire_body (Subscribe s) =
     packet_id_to_be_bytes (sp_packet_id s)
     @ concat (map subscription_bytes (sp_subscriptions s))"
| "wire_body (Unsubscribe u) =
     packet_id_to_be_bytes (up_packet_id u) @ concat (map string_bytes (up_topic_filters u))"
| "wire_body p = packet_body p"

definition wire_bytes :: "packet \<Rightarrow> u8 list" where
  "wire_bytes p = frame (packet_type_u8 (type_of_packet p)) (wire_flags p) (wire_body p)"

text \<open>The largest remaining length four bytes can carry.\<close>

definition fits :: "packet \<Rightarrow> bool" where
  "fits p \<longleftrightarrow> length (wire_body p) < 128 ^ 4"

lemma wire_server_packet:
  "server_packet p \<Longrightarrow> wire_flags p = packet_flags p \<and> wire_body p = packet_body p"
  by (cases p) simp_all

lemma encode_wire: "encodable p \<Longrightarrow> encode p = Inr (wire_bytes p)"
  by (simp add: encode_frame wire_bytes_def wire_server_packet encodable_def)

text \<open>The flags are nibbles, and the decoder reads back what they were made of.\<close>

lemma publish_flags_nibble: "publish_flags p AND 0x0F = publish_flags p"
  by (cases "pp_qos p") (simp_all add: publish_flags_def Let_def)

lemma publish_flags_fields:
  "(publish_flags p AND 0x08 \<noteq> 0) = pp_dup p"
  "drop_bit (Suc 0) (publish_flags p) AND 0x03 = qos_u8 (pp_qos p)"
  "(publish_flags p AND 0x01 \<noteq> 0) = pp_retain p"
  by (cases "pp_qos p"; simp add: publish_flags_def Let_def)+

lemma wire_flags_nibble: "wire_flags p AND 0x0F = wire_flags p"
  by (cases p) (simp_all add: publish_flags_nibble)

lemma if_and: "(if a then x else 0) AND (m :: u8) = (if a then x AND m else 0)"
  by simp

lemma drop_bit_if: "drop_bit n (if a then x else (0 :: u8)) = (if a then drop_bit n x else 0)"
  by simp

lemma if_ne_0: "((if a then x else (0 :: u8)) \<noteq> 0) = (a \<and> x \<noteq> 0)"
  by simp

lemmas flag_simps = bit.conj_disj_distrib2 if_and drop_bit_if if_ne_0

lemma qos_u8_range: "qos_u8 x \<noteq> 0 \<Longrightarrow> qos_u8 x \<noteq> 1 \<Longrightarrow> qos_u8 x = 2"
  by (cases x) simp_all

lemma connect_flags_fields:
  "(connect_flags c AND 0x80 \<noteq> 0) = cp_username_flag c"
  "(connect_flags c AND 0x40 \<noteq> 0) = cp_password_flag c"
  "(connect_flags c AND 0x20 \<noteq> 0) = cp_will_retain c"
  "qos_try_from_u8 (drop_bit 3 (connect_flags c) AND 0x03) = cp_will_qos c"
  "(connect_flags c AND 0x04 \<noteq> 0) = cp_will_flag c"
  "(connect_flags c AND 0x02 \<noteq> 0) = cp_clean_session c"
  "connect_flags c AND 0x01 = 0"
proof -
  define q where "q = (case cp_will_qos c of None \<Rightarrow> 3 | Some q \<Rightarrow> qos_u8 q)"
  have q: "q \<in> {0, 1, 2, 3}" and try_q: "qos_try_from_u8 q = cp_will_qos c"
    using qos_u8_range by (auto simp: q_def qos_try_from_u8_def [of 3] split: option.split)
  have c: "connect_flags c =
     (if cp_username_flag c then 0x80 else 0) OR (if cp_password_flag c then 0x40 else 0)
     OR (if cp_will_retain c then 0x20 else 0) OR push_bit 3 q
     OR (if cp_will_flag c then 0x04 else 0) OR (if cp_clean_session c then 0x02 else 0)"
    by (simp add: connect_flags_def q_def)
  have "drop_bit 3 (connect_flags c) AND 0x03 = q"
    unfolding c using q by (elim insertE emptyE) (simp_all add: flag_simps split del: if_split cong: if_cong)
  then show "qos_try_from_u8 (drop_bit 3 (connect_flags c) AND 0x03) = cp_will_qos c"
    by (simp add: try_q)
  show "(connect_flags c AND 0x80 \<noteq> 0) = cp_username_flag c"
    "(connect_flags c AND 0x40 \<noteq> 0) = cp_password_flag c"
    "(connect_flags c AND 0x20 \<noteq> 0) = cp_will_retain c"
    "(connect_flags c AND 0x04 \<noteq> 0) = cp_will_flag c"
    "(connect_flags c AND 0x02 \<noteq> 0) = cp_clean_session c"
    "connect_flags c AND 0x01 = 0"
    unfolding c using q by (elim insertE emptyE; simp add: flag_simps split del: if_split cong: if_cong)+
qed

text \<open>Decoding a frame is decoding its body under the frame's header.\<close>

lemma decode_frame:
  assumes "flags AND 0x0F = flags" and "length body < 128 ^ 4"
  shows "decode (frame (packet_type_u8 t) flags body @ rest) =
    decode_body \<lparr>fh_packet_type = t, fh_flags = flags, fh_remaining_length = length body\<rparr> t
      (body @ rest)"
proof -
  let ?h = "\<lparr>fh_packet_type = t, fh_flags = flags, fh_remaining_length = length body\<rparr>"
  have "wf_header ?h"
    using assms by (simp add: wf_header_def)
  then have "decode_fixed_header (header_bytes ?h @ body @ rest) = Inr (?h, body @ rest)"
    by (rule header_codec.get_put)
  then show ?thesis
    by (simp add: decode_def frame_def header_bytes_def)
qed

lemma read_binary:
  "wf_binary b \<Longrightarrow>
     and_then inner_read_u16 (\<lambda>n. and_then (inner_read_exact (unat n)) k) (string_bytes b @ rest)
     = k b rest"
  by (simp add: wf_binary_def string_bytes_def u16_codec.get_put inner_read_exact_def
      and_then_def)

lemma read_string_bytes: "wf_string s \<Longrightarrow> read_utf8_string (string_bytes s @ rest) = Inr (s, rest)"
  by (rule filter_codec.get_put)

section \<open>Reading back each kind of packet\<close>

lemma wf_string_binary: "wf_string s \<Longrightarrow> wf_binary s"
  by (simp add: wf_string_def wf_binary_def)

lemma string_from_utf8_wf: "wf_string s \<Longrightarrow> string_from_utf8 msg s src = Inr (s, src)"
  by (simp add: wf_string_def string_from_utf8_Inr)

lemmas field_readers [wire] =
  read_binary read_string_bytes wf_string_binary string_from_utf8_wf u16_codec.get_put
  packet_id_codec.get_put

lemma decode_connect_bytes [wire]:
  assumes "wf_connect c"
  shows "decode_connect (connect_bytes c @ rest) = Inr (c, rest)"
proof -
  have wf: "wf_string (cp_protocol_name c)" "wf_string (cp_client_id c)"
    "\<not> (cp_will_flag c \<and> cp_will_qos c = None)"
    using assms by (auto simp: wf_connect_def)
  have will: "(if cp_will_flag c then
                 and_then read_utf8_string (\<lambda>topic.
                 and_then inner_read_u16 (\<lambda>msg_len.
                 and_then (inner_read_exact (unat msg_len)) (\<lambda>msg_bytes.
                 ok (Some topic, Some msg_bytes))))
               else ok (None, None)) (opt_bytes (cp_will_topic c) @ opt_bytes (cp_will_message c) @ r)
      = Inr ((cp_will_topic c, cp_will_message c), r)" for r
    using assms by (auto simp: wf_connect_def opt_bytes_def wire)
  have user: "(if cp_username_flag c then
                 and_then read_utf8_string (\<lambda>name. ok (Some name))
               else ok None) (opt_bytes (cp_username c) @ r) = Inr (cp_username c, r)" for r
    using assms by (auto simp: wf_connect_def opt_bytes_def wire)
  have pwd: "(if cp_password_flag c then
                 and_then inner_read_u16 (\<lambda>pwd_len.
                 and_then (inner_read_exact (unat pwd_len)) (\<lambda>pwd_bytes.
                 ok (Some pwd_bytes)))
               else ok None) (opt_bytes (cp_password c) @ r) = Inr (cp_password c, r)" for r
    using assms by (auto simp: wf_connect_def opt_bytes_def wire)
  show ?thesis
    unfolding decode_connect_def connect_bytes_def Let_def
    using wf by (simp add: wire connect_flags_fields will user pwd del: if_split cong: if_cong)
qed

lemma decode_publish_bytes [wire]:
  assumes "wf_publish p" and "fh_flags h = publish_flags p"
  shows "decode_publish h (packet_body (Publish p) @ rest)
    = Inr (p\<lparr>pp_payload := pp_payload p @ rest\<rparr>, [])"
proof -
  have pid: "(if pp_qos p \<noteq> AtMostOnce then and_then read_packet_id (\<lambda>pid. ok (Some pid))
      else ok None) ((case pp_packet_id p of
          Some pid \<Rightarrow> if pp_qos p \<noteq> AtMostOnce then packet_id_to_be_bytes pid else []
        | None \<Rightarrow> []) @ r) = Inr (pp_packet_id p, r)" for r
    using assms(1) by (auto simp: wf_publish_def wire)
  have "string_bytes (pp_topic_name p) @ r
      = u16_to_be_bytes (of_nat (length (pp_topic_name p))) @ pp_topic_name p @ r" for r
    by (simp add: string_bytes_def)
  then show ?thesis
    using assms filter_codec.get_put [of "pp_topic_name p"]
    by (simp add: decode_publish_def Let_def publish_flags_fields pid wf_publish_def read_payload_def
        inner_read_exact_def and_then_def del: if_split cong: if_cong)
qed

lemma decode_subscribe_bytes [wire]:
  "wf_subscribe s \<Longrightarrow>
     decode_subscribe (packet_id_to_be_bytes (sp_packet_id s)
       @ concat (map subscription_bytes (sp_subscriptions s))) = Inr (s, [])"
  by (simp add: decode_subscribe_def wf_subscribe_def wire subscription_codec.read_loop_puts)

lemma decode_unsubscribe_bytes [wire]:
  "wf_unsubscribe u \<Longrightarrow>
     decode_unsubscribe (packet_id_to_be_bytes (up_packet_id u)
       @ concat (map string_bytes (up_topic_filters u))) = Inr (u, [])"
  by (simp add: decode_unsubscribe_def wf_unsubscribe_def wire filter_codec.read_loop_puts)

lemmas decode_ack_defs = decode_puback_def decode_pubrec_def decode_pubrel_def decode_pubcomp_def

lemma packet_id_codec_all [wire]:
  "read_packet_id (packet_id_to_be_bytes p) = Inr (p, [])"
  by (rule packet_id_codec.get_put_all) simp

lemma decode_wire_body:
  assumes "client_packet p" and "wf_packet p" and "fh_flags h = wire_flags p"
  shows "decode_body h (type_of_packet p) (wire_body p) = Inr (p, [])"
proof (cases p)
  case (Publish pk)
  then show ?thesis
    using assms decode_publish_bytes [of pk h "[]"] by simp
next
  case (Connect c)
  then show ?thesis
    using assms decode_connect_bytes [of c "[]"] by simp
qed (use assms in \<open>simp_all add: wire decode_ack_defs\<close>)

text \<open>The header a packet's wire form starts with, and decoding behind it.\<close>

definition wire_header :: "packet \<Rightarrow> fixed_header" where
  "wire_header p =
     \<lparr>fh_packet_type = type_of_packet p, fh_flags = wire_flags p,
      fh_remaining_length = length (wire_body p)\<rparr>"

lemma decode_behind_header:
  "fits p \<Longrightarrow> decode (wire_bytes p @ rest)
     = decode_body (wire_header p) (type_of_packet p) (wire_body p @ rest)"
  unfolding wire_bytes_def wire_header_def
  by (intro decode_frame) (simp_all add: wire_flags_nibble fits_def)

lemma decode_wire_exact:
  "client_packet p \<Longrightarrow> wf_packet p \<Longrightarrow> fits p \<Longrightarrow> decode (wire_bytes p) = Inr (p, [])"
  using decode_behind_header [of p "[]"] by (simp add: decode_wire_body wire_header_def)

section \<open>Round trips\<close>

text \<open>
  C6: The decoder is complete for MQTT client packets: it reads the wire form of every
  well-formed client packet that fits a four-byte remaining length back as exactly this
  packet, leaving no byte.
\<close>

theorem decode_wire_bytes:
  assumes "client_packet p" and "wf_packet p" and "fits p"
  shows "decode (wire_bytes p) = Inr (p, [])"
  by (rule decode_wire_exact [OF assms])

theorem decode_wire_bytes_witness:
  "decode (wire_bytes (Subscribe \<lparr>sp_packet_id = PacketId 7,
       sp_subscriptions = [(bytes_of ''a/+'', AtLeastOnce)]\<rparr>))
     = Inr (Subscribe \<lparr>sp_packet_id = PacketId 7,
       sp_subscriptions = [(bytes_of ''a/+'', AtLeastOnce)]\<rparr>, [])"
  by (rule decode_wire_bytes)
    (simp_all add: wf_subscribe_def wf_string_def utf8_valid_def bytes_of_def fits_def
      subscription_bytes_def)

text \<open>
  C17: What the encoder writes for a well-formed packet of either direction (PUBLISH and the
  four acknowledgements) is read back by the decoder as the same packet.
\<close>

theorem decode_encode:
  assumes "encode p = Inr bs" and "client_packet p" and "wf_packet p" and "fits p"
  shows "decode bs = Inr (p, [])"
proof -
  have "encodable p"
    using assms(1) encode_error_iff [of p] by auto
  then have "bs = wire_bytes p"
    using assms(1) by (simp add: encode_wire)
  then show ?thesis
    using decode_wire_exact assms(2-4) by simp
qed

theorem decode_encode_witness:
  "decode [0x32, 7, 0, 1, 97, 0, 9, 104, 105] =
     Inr (Publish (message AtLeastOnce [97] (Some (PacketId 9)) [104, 105]), [])"
  by (rule decode_encode)
    (simp_all add: encode_publish_def write_defs publish_flags_def u16_to_be_bytes_def Let_def
      encode_remaining_length.simps wf_publish_def wf_string_def utf8_valid_def fits_def)

fun server_only_name :: "packet \<Rightarrow> string" where
  "server_only_name (Connack _) = ''CONNACK''"
| "server_only_name (Suback _) = ''SUBACK''"
| "server_only_name (Unsuback _) = ''UNSUBACK''"
| "server_only_name _ = ''PINGRESP''"

text \<open>
  The packets only a server may send are rejected: what the encoder writes for a CONNACK,
  SUBACK, UNSUBACK or PINGRESP makes the decoder fail with a \<open>Decode\<close> error that names
  the packet.
\<close>

theorem decode_server_only:
  assumes "\<not> client_packet p" and "fits p"
  shows "\<exists>bs. encode p = Inr bs \<and>
    decode bs = Inl (Decode (''Server received '' @ server_only_name p))"
proof -
  have "encodable p"
    using assms(1) by (cases p) (simp_all add: encodable_def)
  moreover have "decode (wire_bytes p)
      = decode_body (wire_header p) (type_of_packet p) (wire_body p)"
    using decode_behind_header [OF assms(2), of "[]"] by simp
  moreover have "decode_body h (type_of_packet p) (wire_body p)
      = Inl (Decode (''Server received '' @ server_only_name p))" for h
    using assms(1) by (cases p) simp_all
  ultimately show ?thesis by (simp add: encode_wire)
qed

theorem decode_server_only_witness:
  "\<exists>bs. encode Pingresp = Inr bs \<and>
     decode bs = Inl (Decode (''Server received '' @ server_only_name Pingresp))"
  by (rule decode_server_only) (simp_all add: fits_def)

section \<open>What the decoder accepts\<close>

text \<open>Everything the decoder returns is well-formed and of a kind a client may send.\<close>

lemma decode_connect_wf: "decode_connect src = Inr (c, rest) \<Longrightarrow> wf_connect c"
  unfolding decode_connect_def Let_def
  by (auto simp: reader_iff wf_connect_def wf_string_def wf_binary_def unat_u16_bound
      split: if_splits)

lemma decode_publish_wf: "decode_publish h src = Inr (p, rest) \<Longrightarrow> wf_publish p \<and> rest = []"
  unfolding decode_publish_def Let_def
  by (auto simp: reader_iff wf_publish_def split: option.splits if_splits)

lemma subscribe_loop_wf:
  "subscribe_loop acc src = Inr (subs, rest) \<Longrightarrow> list_all (\<lambda>(f, q). wf_string f) acc \<Longrightarrow>
     list_all (\<lambda>(f, q). wf_string f) subs"
proof (induction acc src rule: subscribe_loop.induct)
  case (1 acc src)
  show ?case
  proof (cases "src = []")
    case False
    with "1.prems"(1) obtain f q r
      where item: "read_subscription src = Inr ((f, q), r)"
        and loop: "subscribe_loop (acc @ [(f, q)]) r = Inr (subs, rest)"
      by (auto simp: subscribe_loop.simps [of acc src] split: sum.splits)
    from item have "wf_string f"
      by (auto simp: read_subscription_def reader_iff split: option.splits)
    with "1.IH" [OF False item refl loop] "1.prems"(2) show ?thesis by simp
  qed (use "1.prems" in \<open>simp add: subscribe_loop.simps\<close>)
qed

lemma unsubscribe_loop_wf:
  "unsubscribe_loop acc src = Inr (fs, rest) \<Longrightarrow> list_all wf_string acc \<Longrightarrow> list_all wf_string fs"
proof (induction acc src rule: unsubscribe_loop.induct)
  case (1 acc src)
  show ?case
  proof (cases "src = []")
    case False
    with "1.prems"(1) obtain f r
      where item: "read_utf8_string src = Inr (f, r)"
        and loop: "unsubscribe_loop (acc @ [f]) r = Inr (fs, rest)"
      by (auto simp: unsubscribe_loop.simps [of acc src] split: sum.splits)
    from item have "wf_string f"
      by (simp add: reader_iff)
    with "1.IH" [OF False item refl loop] "1.prems"(2) show ?thesis by simp
  qed (use "1.prems" in \<open>simp add: unsubscribe_loop.simps\<close>)
qed

lemma decode_subscribe_wf: "decode_subscribe src = Inr (s, rest) \<Longrightarrow> wf_subscribe s"
  unfolding decode_subscribe_def
  by (auto simp: reader_iff wf_subscribe_def split: if_splits dest: subscribe_loop_wf)

lemma decode_unsubscribe_wf: "decode_unsubscribe src = Inr (u, rest) \<Longrightarrow> wf_unsubscribe u"
  unfolding decode_unsubscribe_def
  by (auto simp: reader_iff wf_unsubscribe_def split: if_splits dest: unsubscribe_loop_wf)

lemmas decoded_wf =
  decode_connect_wf decode_publish_wf decode_subscribe_wf decode_unsubscribe_wf

lemma decode_body_sound:
  "decode_body h t src = Inr (p, rest) \<Longrightarrow> client_packet p \<and> wf_packet p \<and> type_of_packet p = t"
  by (cases t) (auto simp: reader_iff dest: decoded_wf)

lemma decode_accepts:
  assumes "decode src = Inr (p, rest)"
  shows "client_packet p \<and> wf_packet p"
proof -
  from assms obtain h body where "decode_body h (fh_packet_type h) body = Inr (p, rest)"
    by (auto simp: decode_def reader_iff split: if_splits)
  then show ?thesis by (auto dest: decode_body_sound)
qed

text \<open>
  C16: The decoder is sound: whatever bytes it accepts, the packet it returns is one a client
  may send, its strings are valid UTF-8 of at most 65535 bytes, a PUBLISH carries a packet
  identifier exactly when its QoS is above 0, the optional CONNECT fields are present exactly
  when their flags are set, and subscription lists are not empty.
\<close>

theorem decode_sound:
  assumes "decode src = Inr (p, rest)"
  shows "client_packet p \<and> wf_packet p"
  using assms by (rule decode_accepts)

theorem decode_sound_witness:
  "client_packet (Puback (PacketId 258)) \<and> wf_packet (Puback (PacketId 258))"
proof (rule decode_sound)
  show "decode [0x40, 2, 1, 2] = Inr (Puback (PacketId 258), [])"
    by (simp add: decode_def decode_fixed_header_def decode_remaining_length_def Let_def
        packet_type_try_from_u8_def decode_puback_def read_packet_id_def inner_read_u16_def
        u16_from_be_bytes_def)
qed

text \<open>
  The variable-length integer round trip: every length below \<open>128 ^ 4\<close> is encoded in
  at most four bytes, which the decoder reads back as this length together with the number of
  bytes it took, whatever bytes follow.
\<close>

theorem remaining_length_roundtrip:
  assumes "n < 128 ^ 4"
  shows "length (encode_remaining_length n) \<le> 4 \<and>
    decode_remaining_length (encode_remaining_length n @ rest)
      = Inr ((n, length (encode_remaining_length n)), rest)"
  using length_encode_remaining_length [OF _ assms]
  by (force simp: decode_remaining_length_Inr)

theorem remaining_length_roundtrip_witness:
  "length (encode_remaining_length 16384) \<le> 4 \<and>
     decode_remaining_length (encode_remaining_length 16384 @ [1, 2])
       = Inr ((16384, length (encode_remaining_length 16384)), [1, 2])"
  by (rule remaining_length_roundtrip) simp

text \<open>
  C28: Exactness and bounds of the remaining-length decoder: it succeeds exactly on inputs that
  start with one to four bytes of which all but the last carry the continuation bit; the value
  is the base-128 little-endian number of those bytes and stays below 2 to the 28, so no
  \<open>usize\<close> of at least 32 bits can overflow; and the error \<open>Remaining length too large\<close>
  never occurs.
\<close>

theorem decode_remaining_length_exact:
  "(decode_remaining_length src = Inr ((v, n), rest)) =
     (\<exists>bs. src = bs @ rest \<and> vbi_shape bs \<and> length bs \<le> 4 \<and> n = length bs
           \<and> v = vbi_value bs \<and> v < 2 ^ 28) \<and>
   decode_remaining_length src \<noteq> Inl (Decode ''Remaining length too large'')"
proof
  have "v < 2 ^ 28" if "length bs \<le> 4" and "v = vbi_value bs" for bs
  proof -
    have "(128 :: nat) ^ length bs \<le> 128 ^ 4"
      using that(1) by (intro power_increasing) simp_all
    then show ?thesis
      using vbi_value_bound [of bs] that(2) by simp
  qed
  then show "(decode_remaining_length src = Inr ((v, n), rest)) =
     (\<exists>bs. src = bs @ rest \<and> vbi_shape bs \<and> length bs \<le> 4 \<and> n = length bs
           \<and> v = vbi_value bs \<and> v < 2 ^ 28)"
    unfolding decode_remaining_length_Inr by blast
  show "decode_remaining_length src \<noteq> Inl (Decode ''Remaining length too large'')"
    unfolding decode_remaining_length_def
    using remaining_length_never_too_large [of 0 0] by simp
qed

text \<open>
  The decoder never looks at the remaining length again after checking that enough bytes
  are there: a PUBLISH takes every byte behind it as payload. A buffer that holds a complete
  PUBLISH frame and more bytes decodes to one PUBLISH whose payload has swallowed them.
\<close>

theorem decode_publish_swallows:
  assumes "wf_publish p" and "fits (Publish p)"
  shows "decode (wire_bytes (Publish p) @ extra)
    = Inr (Publish (p\<lparr>pp_payload := pp_payload p @ extra\<rparr>), [])"
  using decode_behind_header [OF assms(2)] decode_publish_bytes [OF assms(1)]
  by (simp add: wire_header_def)

theorem decode_publish_swallows_witness:
  "decode (wire_bytes (Publish (message AtMostOnce [97] None [1])) @ [0xC0, 0])
     = Inr (Publish (message AtMostOnce [97] None [1, 0xC0, 0]), [])"
  using decode_publish_swallows [of "message AtMostOnce [97] None [1]" "[0xC0, 0]"]
  by (simp add: wf_publish_def wf_string_def utf8_valid_def fits_def)

end
