(* ===== verification/Dispatch.thy ===== *)
theory Dispatch
  imports Broker Wire_Format
begin

text \<open>
  What the two servers do with a packet: \<open>handle_packet\<close> of \<open>src/src/server/tcp.rs\<close> and
  \<open>handle_ws_packet\<close> of \<open>src/src/server/ws.rs\<close>. The session of a connection is a
  reference into the heap of the broker, and the receiving half of its channel is named by
  the same number. The two functions are proved to agree.
\<close>

section \<open>The TCP server\<close>

text \<open>\<open>session.as_ref().map(|s| s.keep_alive).unwrap_or(0)\<close>\<close>

definition keep_alive_of :: "nat option \<Rightarrow> broker_state \<Rightarrow> u16" where
  "keep_alive_of session st =
     (case session of None \<Rightarrow> 0 | Some r \<Rightarrow> se_keep_alive (heap st r))"

text \<open>
  \<open>if let (Some(sess), Some(pid)) = (session.as_ref(), publish.packet_id)\<close> and its body.
\<close>

definition acknowledge ::
  "environment \<Rightarrow> nat option \<Rightarrow> packet_id option \<Rightarrow> (packet_id \<Rightarrow> packet) \<Rightarrow> broker_state
    \<Rightarrow> broker_state" where
  "acknowledge env session packet_id ack st =
     (case (session, packet_id) of
        (Some r, Some i) \<Rightarrow> reply env r (ack i) st
      | _ \<Rightarrow> st)"

text \<open>\<open>if let Some(sess) = session.as_ref()\<close> and its body.\<close>

definition with_session ::
  "nat option \<Rightarrow> (nat \<Rightarrow> broker_state \<Rightarrow> broker_state) \<Rightarrow> broker_state \<Rightarrow> broker_state" where
  "with_session session f st = (case session of None \<Rightarrow> st | Some r \<Rightarrow> f r st)"

type_synonym handled = "nat option \<times> nat option \<times> u16"

fun handle_packet ::
  "environment \<Rightarrow> nat option \<Rightarrow> nat option \<Rightarrow> packet \<Rightarrow> broker_state
    \<Rightarrow> (broker_error + handled) \<times> broker_state" where
  "handle_packet env session out_rx (Connect connect) st =
     (let (new_session, st) = alloc_session (cp_client_id connect) (cp_clean_session connect)
            (cp_keep_alive connect) st;
          (return_code, session_present) = handle_connect new_session st;
          st = register_session new_session st;
          st = reply env new_session
            (Connack \<lparr>ca_session_present = session_present, ca_return_code = return_code\<rparr>) st
      in (Inr (Some new_session, Some new_session, cp_keep_alive connect), st))"
| "handle_packet env session out_rx (Connack _) st =
     (Inl (Protocol ''Server received CONNACK''), st)"
| "handle_packet env session out_rx (Publish publish) st =
     (case pp_qos publish of
        AtMostOnce \<Rightarrow>
          (case handle_publish env publish st of
             (Inl e, st) \<Rightarrow> (Inl e, st)
           | (Inr _, st) \<Rightarrow> (Inr (session, out_rx, keep_alive_of session st), st))
      | AtLeastOnce \<Rightarrow>
          (case handle_publish env publish st of
             (Inl e, st) \<Rightarrow> (Inl e, st)
           | (Inr _, st) \<Rightarrow>
               (let st = acknowledge env session (pp_packet_id publish) Puback st
                in (Inr (session, out_rx, keep_alive_of session st), st)))
      | ExactlyOnce \<Rightarrow>
          (case handle_publish env publish st of
             (Inl e, st) \<Rightarrow> (Inl e, st)
           | (Inr _, st) \<Rightarrow>
               (let st = acknowledge env session (pp_packet_id publish) Pubrec st
                in (Inr (session, out_rx, keep_alive_of session st), st))))"
| "handle_packet env session out_rx (Puback pid) st =
     (let st = with_session session (\<lambda>r. handle_puback r pid) st
      in (Inr (session, out_rx, keep_alive_of session st), st))"
| "handle_packet env session out_rx (Pubrec pid) st =
     (let st = with_session session (\<lambda>r. handle_pubrec env r pid) st
      in (Inr (session, out_rx, keep_alive_of session st), st))"
| "handle_packet env session out_rx (Pubrel pid) st =
     (let st = with_session session (\<lambda>r. handle_pubrel env r pid) st
      in (Inr (session, out_rx, keep_alive_of session st), st))"
| "handle_packet env session out_rx (Pubcomp pid) st =
     (let st = with_session session (\<lambda>r. handle_pubcomp r pid) st
      in (Inr (session, out_rx, keep_alive_of session st), st))"
| "handle_packet env session out_rx (Subscribe sub) st =
     (let st = with_session session (\<lambda>r st.
            let (suback, st) = handle_subscribe env r sub st
            in reply env r (Suback suback) st) st
      in (Inr (session, out_rx, keep_alive_of session st), st))"
| "handle_packet env session out_rx (Suback _) st =
     (Inl (Protocol ''Server received SUBACK''), st)"
| "handle_packet env session out_rx (Unsubscribe unsub) st =
     (let st = with_session session (\<lambda>r st.
            let st = handle_unsubscribe r unsub st
            in reply env r (Unsuback (up_packet_id unsub)) st) st
      in (Inr (session, out_rx, keep_alive_of session st), st))"
| "handle_packet env session out_rx (Unsuback _) st =
     (Inl (Protocol ''Server received UNSUBACK''), st)"
| "handle_packet env session out_rx Pingreq st =
     (let st = with_session session (\<lambda>r. reply env r Pingresp) st
      in (Inr (session, out_rx, keep_alive_of session st), st))"
| "handle_packet env session out_rx Pingresp st =
     (Inl (Protocol ''Server received PINGRESP''), st)"
| "handle_packet env session out_rx Disconnect st =
     (let st = with_session session handle_disconnect st
      in (Inr (None, None, 0), st))"

section \<open>The WebSocket server\<close>

fun handle_ws_packet ::
  "environment \<Rightarrow> nat option \<Rightarrow> nat option \<Rightarrow> packet \<Rightarrow> broker_state
    \<Rightarrow> (broker_error + nat option \<times> nat option) \<times> broker_state" where
  "handle_ws_packet env session out_rx (Connect connect) st =
     (let (new_session, st) = alloc_session (cp_client_id connect) (cp_clean_session connect)
            (cp_keep_alive connect) st;
          (return_code, session_present) = handle_connect new_session st;
          st = register_session new_session st;
          st = reply env new_session
            (Connack \<lparr>ca_session_present = session_present, ca_return_code = return_code\<rparr>) st
      in (Inr (Some new_session, Some new_session), st))"
| "handle_ws_packet env session out_rx (Connack _) st =
     (Inl (Protocol ''Server received CONNACK''), st)"
| "handle_ws_packet env session out_rx (Publish publish) st =
     (case pp_qos publish of
        AtMostOnce \<Rightarrow>
          (case handle_publish env publish st of
             (Inl e, st) \<Rightarrow> (Inl e, st)
           | (Inr _, st) \<Rightarrow> (Inr (session, out_rx), st))
      | AtLeastOnce \<Rightarrow>
          (case handle_publish env publish st of
             (Inl e, st) \<Rightarrow> (Inl e, st)
           | (Inr _, st) \<Rightarrow>
               (Inr (session, out_rx), acknowledge env session (pp_packet_id publish) Puback st))
      | ExactlyOnce \<Rightarrow>
          (case handle_publish env publish st of
             (Inl e, st) \<Rightarrow> (Inl e, st)
           | (Inr _, st) \<Rightarrow>
               (Inr (session, out_rx), acknowledge env session (pp_packet_id publish) Pubrec st)))"
| "handle_ws_packet env session out_rx (Puback pid) st =
     (Inr (session, out_rx), with_session session (\<lambda>r. handle_puback r pid) st)"
| "handle_ws_packet env session out_rx (Pubrec pid) st =
     (Inr (session, out_rx), with_session session (\<lambda>r. handle_pubrec env r pid) st)"
| "handle_ws_packet env session out_rx (Pubrel pid) st =
     (Inr (session, out_rx), with_session session (\<lambda>r. handle_pubrel env r pid) st)"
| "handle_ws_packet env session out_rx (Pubcomp pid) st =
     (Inr (session, out_rx), with_session session (\<lambda>r. handle_pubcomp r pid) st)"
| "handle_ws_packet env session out_rx (Subscribe sub) st =
     (Inr (session, out_rx), with_session session (\<lambda>r st.
        let (suback, st) = handle_subscribe env r sub st
        in reply env r (Suback suback) st) st)"
| "handle_ws_packet env session out_rx (Suback _) st =
     (Inl (Protocol ''Server received SUBACK''), st)"
| "handle_ws_packet env session out_rx (Unsubscribe unsub) st =
     (Inr (session, out_rx), with_session session (\<lambda>r st.
        let st = handle_unsubscribe r unsub st
        in reply env r (Unsuback (up_packet_id unsub)) st) st)"
| "handle_ws_packet env session out_rx (Unsuback _) st =
     (Inl (Protocol ''Server received UNSUBACK''), st)"
| "handle_ws_packet env session out_rx Pingreq st =
     (Inr (session, out_rx), with_session session (\<lambda>r. reply env r Pingresp) st)"
| "handle_ws_packet env session out_rx Pingresp st =
     (Inl (Protocol ''Server received PINGRESP''), st)"
| "handle_ws_packet env session out_rx Disconnect st =
     (Inr (None, None), with_session session handle_disconnect st)"

section \<open>Shared facts\<close>

lemma with_session_simps [simp]:
  "with_session None f st = st" "with_session (Some r) f st = f r st"
  by (simp_all add: with_session_def)

lemma acknowledge_simps [simp]:
  "acknowledge env None i ack st = st" "acknowledge env s None ack st = st"
  "acknowledge env (Some r) (Some j) ack st = reply env r (ack j) st"
  by (simp_all add: acknowledge_def split: option.split)

lemma handle_publish_ok [simp]: "fst (handle_publish env p st) = Inr ()"
  by (simp add: handle_publish_def)

text \<open>The acknowledgement of a message, by its QoS.\<close>

fun ack_of :: "qos \<Rightarrow> packet_id \<Rightarrow> packet" where
  "ack_of AtLeastOnce = Puback"
| "ack_of _ = Pubrec"

lemma handle_packet_publish:
  "handle_packet env session out_rx (Publish p) st =
     (let st = snd (handle_publish env p st);
          st = (if pp_qos p = AtMostOnce then st
                else acknowledge env session (pp_packet_id p) (ack_of (pp_qos p)) st)
      in (Inr (session, out_rx, keep_alive_of session st), st))"
  by (cases "pp_qos p") (simp_all add: handle_publish_def Let_def)

lemma handle_ws_packet_publish:
  "handle_ws_packet env session out_rx (Publish p) st =
     (let st = snd (handle_publish env p st);
          st = (if pp_qos p = AtMostOnce then st
                else acknowledge env session (pp_packet_id p) (ack_of (pp_qos p)) st)
      in (Inr (session, out_rx), st))"
  by (cases "pp_qos p") (simp_all add: handle_publish_def Let_def)

lemmas dispatch_publish = handle_packet_publish handle_ws_packet_publish
declare handle_packet.simps(3) [simp del] handle_ws_packet.simps(3) [simp del]

text \<open>CONNECT in closed form.\<close>

lemma handle_packet_connect:
  "handle_packet env session out_rx (Connect c) st =
     (Inr (Some (next_ref st), Some (next_ref st), cp_keep_alive c),
      reply env (next_ref st)
        (Connack \<lparr>ca_session_present = \<not> cp_clean_session c, ca_return_code = Accepted\<rparr>)
        (register_session (next_ref st) (snd (alloc_session (cp_client_id c)
           (cp_clean_session c) (cp_keep_alive c) st))))"
  by (simp add: alloc_session_def handle_connect_def session_new_def Let_def)

lemma handle_ws_packet_eq:
  "handle_ws_packet env session out_rx p st =
     (case handle_packet env session out_rx p st of
        (Inl e, st') \<Rightarrow> (Inl e, st')
      | (Inr (s, rx, ka), st') \<Rightarrow> (Inr (s, rx), st'))"
  by (cases p) (simp_all add: dispatch_publish handle_connect_def alloc_session_def Let_def)

lemma handle_packet_result:
  "if client_packet p then \<exists>s rx ka. fst (handle_packet env session out_rx p st) = Inr (s, rx, ka)
   else handle_packet env session out_rx p st
     = (Inl (Protocol (''Server received '' @ server_only_name p)), st)"
  by (cases p) (simp_all add: dispatch_publish handle_packet_connect Let_def del: handle_packet.simps(1))

lemma broker_inv_handle_packet:
  assumes "broker_inv st" and "wf_packet p"
  shows "broker_inv (snd (handle_packet env session out_rx p st))"
proof (cases p)
  case (Connect c)
  have "broker_inv (register_session (next_ref st) (snd (alloc_session (cp_client_id c)
           (cp_clean_session c) (cp_keep_alive c) st)))"
    by (rule broker_inv_connect [OF assms(1)]) (simp add: alloc_session_def Let_def)
  then show ?thesis
    unfolding Connect handle_packet_connect snd_conv
    by (rule broker_inv_reply) (simp add: sendable_def)
next
  case (Publish q)
  have "broker_inv (snd (handle_publish env q st))"
    using assms Publish by (simp add: broker_inv_publish)
  then show ?thesis
    by (cases session; cases "pp_packet_id q"; cases "pp_qos q")
      (simp_all add: Publish dispatch_publish Let_def broker_inv_reply sendable_def)
next
  case (Subscribe p)
  have "broker_inv (snd (handle_subscribe env r p st))" for r
    using assms(1) by (rule broker_inv_subscribe)
  then show ?thesis
    by (cases session)
      (simp_all add: Subscribe assms Let_def split_def broker_inv_reply sendable_def)
qed (cases session; simp add: assms broker_inv_acks broker_inv_unsubscribe broker_inv_disconnect
      broker_inv_reply sendable_def Let_def)+

section \<open>The interface of a packet handler\<close>

text \<open>
  What the connection loops rely on: a handler keeps the broker's invariant on well-formed
  packets and does not fail on a packet a client may send. Both hold for a list of packets
  handled one after the other, which is what the decoder delivers.
\<close>

primrec handle_all ::
  "('c \<Rightarrow> packet \<Rightarrow> 's \<Rightarrow> ('e + 'c) \<times> 's) \<Rightarrow> 'c \<Rightarrow> packet list \<Rightarrow> 's \<Rightarrow> ('e + 'c) \<times> 's" where
  "handle_all handle c [] st = (Inr c, st)"
| "handle_all handle c (p # ps) st =
     (case handle c p st of
        (Inl e, st) \<Rightarrow> (Inl e, st)
      | (Inr c, st) \<Rightarrow> handle_all handle c ps st)"

locale packet_handler =
  fixes handle :: "'c \<Rightarrow> packet \<Rightarrow> 's \<Rightarrow> ('e + 'c) \<times> 's"
    and inv :: "'s \<Rightarrow> bool"
  assumes handle_inv: "inv st \<Longrightarrow> wf_packet p \<Longrightarrow> inv (snd (handle c p st))"
    and handle_client: "client_packet p \<Longrightarrow> \<exists>c'. fst (handle c p st) = Inr c'"
begin

lemma handle_decoded:
  assumes "decode src = Inr (p, rest)" and "inv st"
  obtains c' st' where "handle c p st = (Inr c', st')" and "inv st'"
  using handle_client [of p c st] handle_inv [OF assms(2), of p c] decode_accepts [OF assms(1)]
  by (cases "handle c p st") auto

lemma handle_all_client:
  assumes "list_all (\<lambda>p. client_packet p \<and> wf_packet p) ps" and "inv st"
  shows "\<exists>c' st'. handle_all handle c ps st = (Inr c', st') \<and> inv st'"
  using assms
proof (induction ps arbitrary: c st)
  case (Cons p ps)
  obtain c' st' where "handle c p st = (Inr c', st')"
    using handle_client [of p c st] Cons.prems by (cases "handle c p st") auto
  moreover from this have "inv st'"
    using handle_inv [of st p c] Cons.prems by simp
  ultimately show ?case using Cons by simp
qed simp

end

text \<open>The state of a connection between two packets: its session and its receiver.\<close>

definition tcp_dispatch ::
  "environment \<Rightarrow> nat option \<times> nat option \<Rightarrow> packet \<Rightarrow> broker_state
    \<Rightarrow> (broker_error + nat option \<times> nat option) \<times> broker_state" where
  "tcp_dispatch env c p st =
     (case handle_packet env (fst c) (snd c) p st of
        (Inl e, st) \<Rightarrow> (Inl e, st)
      | (Inr (session, out_rx, _), st) \<Rightarrow> (Inr (session, out_rx), st))"

definition ws_dispatch ::
  "environment \<Rightarrow> nat option \<times> nat option \<Rightarrow> packet \<Rightarrow> broker_state
    \<Rightarrow> (broker_error + nat option \<times> nat option) \<times> broker_state" where
  "ws_dispatch env c p st = handle_ws_packet env (fst c) (snd c) p st"

lemma ws_dispatch_eq: "ws_dispatch = tcp_dispatch"
  by (intro ext) (simp add: ws_dispatch_def tcp_dispatch_def handle_ws_packet_eq)

interpretation tcp_packets: packet_handler "tcp_dispatch env" broker_inv
  for env
proof unfold_locales
  fix st p c
  assume "broker_inv st" and "wf_packet p"
  then show "broker_inv (snd (tcp_dispatch env c p st))"
    using broker_inv_handle_packet [of st p env "fst c" "snd c"]
    by (auto simp: tcp_dispatch_def split: prod.splits sum.splits)
next
  fix p c st
  assume "client_packet p"
  then show "\<exists>c'. fst (tcp_dispatch env c p st) = Inr c'"
    using handle_packet_result [of p env "fst c" "snd c" st]
    by (auto simp: tcp_dispatch_def split: prod.splits sum.splits)
qed

interpretation ws_packets: packet_handler "ws_dispatch env" broker_inv
  for env
  unfolding ws_dispatch_eq by (rule tcp_packets.packet_handler_axioms)

section \<open>Properties\<close>

text \<open>
  C27: The WebSocket server handles every packet as the TCP server does: for every state and
  every packet the result, the new session and receiver and the state of the broker are the
  same, up to the keep-alive value only the TCP function returns.
\<close>

theorem ws_handles_like_tcp:
  "handle_ws_packet env session out_rx p st =
     (case handle_packet env session out_rx p st of
        (Inl e, st') \<Rightarrow> (Inl e, st')
      | (Inr (s, rx, ka), st') \<Rightarrow> (Inr (s, rx), st'))"
  by (rule handle_ws_packet_eq)

text \<open>
  A packet the decoder has produced is always handled without an error, on a connection
  with or without a session, and the broker's invariant is kept. The errors of the handler are
  therefore unreachable from the network.
\<close>

theorem decoded_packet_is_handled:
  assumes "decode src = Inr (p, rest)" and "broker_inv st"
  shows "\<exists>s rx ka st'. handle_packet env session out_rx p st = (Inr (s, rx, ka), st')
    \<and> broker_inv st'"
proof -
  have p: "client_packet p" "wf_packet p"
    using decode_accepts [OF assms(1)] by simp_all
  obtain s rx ka where "fst (handle_packet env session out_rx p st) = Inr (s, rx, ka)"
    using handle_packet_result [of p env session out_rx st] p(1) by auto
  with broker_inv_handle_packet [OF assms(2) p(2), of env session out_rx] show ?thesis
    by (cases "handle_packet env session out_rx p st") auto
qed

theorem decoded_packet_is_handled_witness:
  "\<exists>s rx ka st'. handle_packet ideal_env (Some 0) (Some 0) Pingreq broker_new
    = (Inr (s, rx, ka), st') \<and> broker_inv st'"
proof (rule decoded_packet_is_handled [OF _ broker_inv_new])
  show "decode [0xC0, 0] = Inr (Pingreq, [])"
    by (simp add: decode_def decode_fixed_header_def decode_remaining_length_def Let_def
        packet_type_try_from_u8_def)
qed

text \<open>
  The answer a request is owed: CONNECT is answered by CONNACK on a channel of its own, and
  is treated apart.
\<close>

fun answer :: "packet \<Rightarrow> packet option" where
  "answer (Publish q) =
     (case pp_packet_id q of
        None \<Rightarrow> None
      | Some i \<Rightarrow> (case pp_qos q of
                     AtMostOnce \<Rightarrow> None
                   | AtLeastOnce \<Rightarrow> Some (Puback i)
                   | ExactlyOnce \<Rightarrow> Some (Pubrec i)))"
| "answer (Pubrec i) = Some (Pubrel i)"
| "answer (Pubrel i) = Some (Pubcomp i)"
| "answer (Subscribe s) = Some (Suback
     \<lparr>sa_packet_id = sp_packet_id s,
      sa_return_codes = map (\<lambda>(f, q). if is_valid_topic_filter f then SuccessQoS1 else Failure)
        (sp_subscriptions s)\<rparr>)"
| "answer (Unsubscribe u) = Some (Unsuback (up_packet_id u))"
| "answer Pingreq = Some Pingresp"
| "answer _ = None"

text \<open>
  C26: CONNECT creates a new session and registers it in place of any other session of the same
  client: its tables are empty and its identifiers start at 1 whatever the clean-session flag
  says, no subscription changes, and the CONNACK accepts the client and reports a stored
  session exactly when the client did not ask for a clean one, although none was kept. The
  CONNACK is lost when the session's sender lock is taken at that moment.
\<close>

theorem connect_exact:
  assumes "handle_packet env session out_rx (Connect c) st = (res, st')" and "next_ref st = r"
  shows "res = Inr (Some r, Some r, cp_keep_alive c) \<and>
    next_ref st' = Suc r \<and>
    heap st' = (heap st)
      (r := session_new r (cp_client_id c) (cp_clean_session c) (cp_keep_alive c)) \<and>
    sessions st' = (sessions st)(cp_client_id c \<mapsto> r) \<and>
    subscriptions st' = subscriptions st \<and>
    calls st' = calls st
      @ [(if try_lock_ok env (try_locks st) then Tx r else Orphan,
          Connack \<lparr>ca_session_present = \<not> cp_clean_session c, ca_return_code = Accepted\<rparr>)]"
  using assms
  by (auto simp: handle_packet_connect reply_eq register_session_def alloc_session_def
      session_new_def Let_def simp del: handle_packet.simps(1))

definition sample_connect :: connect_packet where
  "sample_connect =
     \<lparr>cp_protocol_name = bytes_of ''MQTT'', cp_protocol_level = 4, cp_clean_session = False,
      cp_will_flag = False, cp_will_qos = None, cp_will_retain = False,
      cp_username_flag = False, cp_password_flag = False, cp_keep_alive = 60,
      cp_client_id = [99], cp_will_topic = None, cp_will_message = None, cp_username = None,
      cp_password = None\<rparr>"

theorem connect_exact_witness:
  "calls (snd (handle_packet ideal_env None None (Connect sample_connect) broker_new))
     = [(Tx 0, Connack \<lparr>ca_session_present = True, ca_return_code = Accepted\<rparr>)] \<and>
   sessions (snd (handle_packet ideal_env None None (Connect sample_connect) broker_new)) [99]
     = Some 0"
proof -
  obtain res st' where *: "handle_packet ideal_env None None (Connect sample_connect) broker_new
      = (res, st')" by fastforce
  from connect_exact [OF * refl] show ?thesis
    unfolding * by (simp add: broker_new_def ideal_env_def sample_connect_def)
qed

text \<open>The messages of a publish of QoS 1 or 2, from \<open>deliver_all_qos1\<close>.\<close>

lemma publish_calls:
  assumes "broker_inv st" and "pp_qos p \<noteq> AtMostOnce"
  shows "\<exists>ids. length ids
        = length (recipients st (tree_matches (subscriptions st) (pp_topic_name p))) \<and>
      calls (snd (handle_publish env p st)) = calls st
        @ map2 (\<lambda>r i. (Tx r, Publish (qos1_message p i)))
            (recipients st (tree_matches (subscriptions st) (pp_topic_name p))) ids \<and>
      sessions (snd (handle_publish env p st)) = sessions st \<and>
      subscriptions (snd (handle_publish env p st)) = subscriptions st"
proof -
  have "list_all (\<lambda>s. sub_qos s = AtLeastOnce)
      (tree_matches (subscriptions st) (pp_topic_name p))"
    by (rule tree.all_stored_matches [OF broker_invD(1,2) [OF assms(1)]])
  moreover have "se_sender (heap st r) = Tx r" for r
    using broker_invD(3) [OF assms(1), of r] by (simp add: session_ok_def)
  ultimately show ?thesis
    using deliver_all_qos1 [of st p _ env] assms(2)
    unfolding handle_publish_def Let_def snd_conv by blast
qed

lemma recipients_registered:
  "r \<in> set (recipients st subs) \<Longrightarrow> \<exists>s \<in> set subs. get_session (sub_client_id s) st = Some r"
  by (induction subs) (auto split: option.splits)

lemma not_sent_to:
  "new \<notin> set rs \<Longrightarrow> (Tx new, x) \<notin> set (map2 (\<lambda>r i. (Tx r, f i)) rs ids)"
  by (auto dest: set_zip_leftD)

text \<open>Two connections of the same client, one after the other.\<close>

definition connected_twice :: broker_state where
  "connected_twice =
     snd (handle_packet ideal_env None None (Connect sample_connect)
       (snd (handle_packet ideal_env None None (Connect sample_connect) broker_new)))"

lemma sample_connect_wf: "wf_packet (Connect sample_connect)"
  by (simp add: sample_connect_def wf_connect_def wf_string_def utf8_valid_def bytes_of_def)

text \<open>
  Packets before CONNECT: on a connection without a session, a client packet other than
  CONNECT is accepted and ignored, except that a PUBLISH is delivered like that of a connected
  client (and not acknowledged). The connection stays without a session.
\<close>

theorem packets_before_connect:
  assumes "client_packet p" and "type_of_packet p \<noteq> TConnect" and "out_rx = None"
  shows "handle_packet env None out_rx p st =
    (Inr (None, None, 0),
     (case p of Publish q \<Rightarrow> snd (handle_publish env q st) | _ \<Rightarrow> st))"
  using assms
  by (cases p) (simp_all add: handle_packet_publish keep_alive_of_def Let_def)

theorem packets_before_connect_witness:
  "calls (snd (handle_packet ideal_env None None
     (Publish (message AtMostOnce [97, 47, 98] None [1])) one_subscriber))
     = [(Tx 0, Publish (message AtMostOnce [97, 47, 98] None [1]))]"
proof -
  have "calls one_subscriber = []"
    by (simp add: one_subscriber_def alloc_session_def register_session_def broker_new_def Let_def)
  then show ?thesis
    using packets_before_connect
      [of "Publish (message AtMostOnce [97, 47, 98] None [1])" None ideal_env one_subscriber]
    by (simp add: handle_publish_qos0 one_subscriber_matches)
qed

text \<open>One QoS 2 PUBLISH: its deliveries, then the PUBREC.\<close>

lemma qos2_publish_calls:
  assumes inv: "broker_inv st" and "wf_publish p" and "pp_qos p = ExactlyOnce"
    and "pp_packet_id p = Some i"
    and st': "st' = snd (handle_packet env (Some r) out_rx (Publish p) st)"
  shows "\<exists>ids. length ids = length (recipients st (tree_matches (subscriptions st)
        (pp_topic_name p))) \<and> calls st' = calls st
        @ map2 (\<lambda>r i. (Tx r, Publish (qos1_message p i)))
            (recipients st (tree_matches (subscriptions st) (pp_topic_name p))) ids
        @ [(answer_channel env r (try_locks st), Pubrec i)] \<and>
      try_locks st' = Suc (try_locks st) \<and> sessions st' = sessions st \<and>
      subscriptions st' = subscriptions st"
proof -
  let ?m = "snd (handle_publish env p st)"
  have st'': "st' = reply env r (Pubrec i) ?m"
    using assms(3,4) by (simp add: st' handle_packet_publish Let_def)
  have "broker_inv ?m"
    using inv assms(2) by (rule broker_inv_publish)
  then have "calls st' = calls ?m @ [(answer_channel env r (try_locks ?m), Pubrec i)]"
    unfolding st'' by (rule reply_calls)
  moreover have "try_locks ?m = try_locks st" and "try_locks st' = Suc (try_locks ?m)"
    using publish_frame by (simp_all add: st'' reply_eq)
  moreover have "sessions st' = sessions ?m" and "subscriptions st' = subscriptions ?m"
    by (simp_all add: st'' reply_eq)
  moreover have "pp_qos p \<noteq> AtMostOnce"
    using assms(3) by simp
  note publish_calls [OF inv this, of env]
  ultimately show ?thesis by auto
qed

text \<open>
  C35: A QoS 2 message that is sent again is delivered again: the broker keeps no record of the
  identifiers it has received, so handling the same PUBLISH a second time, before its PUBREL,
  sends it to the same sessions once more and answers with a second PUBREC. Each of the two
  PUBRECs goes to the publisher's session if the \<open>try_lock\<close> of its \<open>sender()\<close> succeeds, and is
  lost otherwise.
\<close>

theorem qos2_publish_delivered_again:
  assumes "broker_inv st" and "wf_publish p" and "pp_qos p = ExactlyOnce"
    and "pp_packet_id p = Some i"
    and "recipients st (tree_matches (subscriptions st) (pp_topic_name p)) = rs"
    and "handle_packet env (Some r) out_rx (Publish p) st = (res1, st1)"
    and "handle_packet env (Some r) out_rx (Publish p) st1 = (res2, st2)"
  shows "\<exists>ids1 ids2. length ids1 = length rs \<and> length ids2 = length rs \<and>
    calls st2 = calls st
      @ map2 (\<lambda>r i. (Tx r, Publish (qos1_message p i))) rs ids1
      @ [(answer_channel env r (try_locks st), Pubrec i)]
      @ map2 (\<lambda>r i. (Tx r, Publish (qos1_message p i))) rs ids2
      @ [(answer_channel env r (Suc (try_locks st)), Pubrec i)]"
proof -
  note one = qos2_publish_calls [OF _ assms(2-4)]
  have st1: "st1 = snd (handle_packet env (Some r) out_rx (Publish p) st)"
    and st2: "st2 = snd (handle_packet env (Some r) out_rx (Publish p) st1)"
    using assms(6,7) by simp_all
  have inv1: "broker_inv st1"
    unfolding st1 using assms(1,2) by (simp add: broker_inv_handle_packet)
  obtain ids1 where 1: "length ids1 = length rs" "calls st1 = calls st
      @ map2 (\<lambda>r i. (Tx r, Publish (qos1_message p i))) rs ids1
      @ [(answer_channel env r (try_locks st), Pubrec i)]"
    "try_locks st1 = Suc (try_locks st)" "sessions st1 = sessions st" "subscriptions st1 = subscriptions st"
    using one [OF assms(1) st1, unfolded assms(5)] by blast
  have rs: "recipients st1 (tree_matches (subscriptions st1) (pp_topic_name p)) = rs"
    unfolding 1(5) recipients_cong [OF 1(4)] by (rule assms(5))
  obtain ids2 where "length ids2 = length rs" "calls st2 = calls st1
      @ map2 (\<lambda>r i. (Tx r, Publish (qos1_message p i))) rs ids2
      @ [(answer_channel env r (Suc (try_locks st)), Pubrec i)]"
    using one [OF inv1 st2, unfolded rs 1(3)] by blast
  with 1 show ?thesis by (intro exI [of _ ids1] exI [of _ ids2]) simp
qed

theorem qos2_publish_delivered_again_witness:
  "\<exists>i j. calls (snd (handle_packet ideal_env (Some 5) None
      (Publish (message ExactlyOnce [97, 47, 98] (Some (PacketId 9)) [1]))
      (snd (handle_packet ideal_env (Some 5) None
        (Publish (message ExactlyOnce [97, 47, 98] (Some (PacketId 9)) [1])) one_subscriber))))
    = [(Tx 0, Publish (message AtLeastOnce [97, 47, 98] (Some i) [1])), (Tx 5, Pubrec (PacketId 9)),
       (Tx 0, Publish (message AtLeastOnce [97, 47, 98] (Some j) [1])), (Tx 5, Pubrec (PacketId 9))]"
proof -
  let ?p = "message ExactlyOnce [97, 47, 98] (Some (PacketId 9)) [1]"
  have rs: "recipients one_subscriber (tree_matches (subscriptions one_subscriber)
      (pp_topic_name ?p)) = [0]"
    by (simp add: one_subscriber_matches)
      (simp add: one_subscriber_def alloc_session_def register_session_def broker_new_def
        get_session_def session_new_def Let_def)
  have h: "calls one_subscriber = []"
    by (simp add: one_subscriber_def alloc_session_def register_session_def broker_new_def Let_def)
  obtain res1 st1 where 1: "handle_packet ideal_env (Some 5) None (Publish ?p) one_subscriber
      = (res1, st1)" by fastforce
  obtain res2 st2 where 2: "handle_packet ideal_env (Some 5) None (Publish ?p) st1
      = (res2, st2)" by fastforce
  have wf: "wf_publish ?p"
    by (simp add: wf_publish_def wf_string_def utf8_valid_def)
  obtain ids1 ids2 where ids: "length ids1 = length [0::nat]" "length ids2 = length [0::nat]"
    "calls st2 = calls one_subscriber
      @ map2 (\<lambda>r i. (Tx r, Publish (qos1_message ?p i))) [0] ids1 @ [(Tx 5, Pubrec (PacketId 9))]
      @ map2 (\<lambda>r i. (Tx r, Publish (qos1_message ?p i))) [0] ids2 @ [(Tx 5, Pubrec (PacketId 9))]"
    using qos2_publish_delivered_again [OF one_subscriber_inv wf _ _ rs 1 2]
    by (auto simp: ideal_env_def answer_channel_def)
  then obtain i j where "ids1 = [i]" and "ids2 = [j]"
    by (cases ids1; cases ids2) auto
  with ids h 1 2 show ?thesis
    by (auto simp: qos1_message_def)
qed

end
