(* ===== verification/Tasks.thy ===== *)
theory Tasks
  imports Prelude
begin

text \<open>
  Tasks: a handler as the sequence of the critical sections it executes. The state is shared;
  what a critical section reads decides how the task goes on. Tasks run alone, or as a pool
  in which any task may take the next step: this is what tokio's multi-threaded scheduler
  allows between two critical sections.
\<close>

section \<open>Tasks\<close>

text \<open>
  \<open>Atomic f k\<close> is a critical section with effect \<open>f\<close>, after which the task goes on as
  \<open>k\<close> of the state in which the section was entered.
\<close>

datatype ('s, 'a) task = Return 'a | Atomic "'s \<Rightarrow> 's" "'s \<Rightarrow> ('s, 'a) task"

definition act :: "('s \<Rightarrow> 's) \<Rightarrow> ('s, 'a) task \<Rightarrow> ('s, 'a) task" where
  "act f t = Atomic f (\<lambda>_. t)"

definition look :: "('s \<Rightarrow> 'b) \<Rightarrow> ('b \<Rightarrow> ('s, 'a) task) \<Rightarrow> ('s, 'a) task" where
  "look g k = Atomic (\<lambda>s. s) (\<lambda>s. k (g s))"

fun finished :: "('s, 'a) task \<Rightarrow> bool" where
  "finished (Return x) = True"
| "finished (Atomic f k) = False"

lemma finished_iff: "finished t \<longleftrightarrow> (\<exists>x. t = Return x)"
  by (cases t) simp_all

text \<open>A task that runs alone: its result and the state afterwards.\<close>

primrec run_alone :: "('s, 'a) task \<Rightarrow> 's \<Rightarrow> 'a \<times> 's" where
  "run_alone (Return x) = (\<lambda>s. (x, s))"
| "run_alone (Atomic f k) = (\<lambda>s. (run_alone \<circ> k) s (f s))"

lemma run_alone_Atomic [simp]: "run_alone (Atomic f k) s = run_alone (k s) (f s)"
  by simp

declare run_alone.simps(2) [simp del]

lemma run_alone_act [simp]: "run_alone (act f t) s = run_alone t (f s)"
  by (simp add: act_def)

lemma run_alone_look [simp]: "run_alone (look g k) s = run_alone (k (g s)) s"
  by (simp add: look_def)

text \<open>A task whose result decides how to go on.\<close>

primrec and_then :: "('s, 'a) task \<Rightarrow> ('a \<Rightarrow> ('s, 'b) task) \<Rightarrow> ('s, 'b) task" where
  "and_then (Return x) g = g x"
| "and_then (Atomic f k) g = Atomic f (\<lambda>s. and_then (k s) g)"

lemma run_alone_and_then:
  "run_alone (and_then t g) s = (case run_alone t s of (x, s') \<Rightarrow> run_alone (g x) s')"
  by (induction t arbitrary: s) simp_all

section \<open>Pools\<close>

text \<open>
  A step of a pool is one critical section of one of its tasks. The events of a run name the
  task and the states before and after the section.
\<close>

type_synonym 's event = "nat \<times> 's \<times> 's"

inductive pool_run ::
  "'s \<Rightarrow> ('s, 'a) task list \<Rightarrow> 's event list \<Rightarrow> 's \<Rightarrow> ('s, 'a) task list \<Rightarrow> bool" where
  pause: "pool_run s ts [] s ts"
| section_of: "i < length ts \<Longrightarrow> ts ! i = Atomic f k \<Longrightarrow>
    pool_run (f s) (ts[i := k s]) es s' ts' \<Longrightarrow> pool_run s ts ((i, s, f s) # es) s' ts'"

text \<open>
  The run of one task as it sees itself: its own critical sections, with anything in between.
\<close>

inductive task_run :: "('s, 'a) task \<Rightarrow> ('s \<times> 's) list \<Rightarrow> ('s, 'a) task \<Rightarrow> bool" where
  rest: "task_run t [] t"
| own: "task_run (k s) es t' \<Longrightarrow> task_run (Atomic f k) ((s, f s) # es) t'"

inductive_simps task_run_Nil [simp]: "task_run t [] t'"
inductive_simps task_run_Return [simp]: "task_run (Return x) es t'"
inductive_cases task_run_AtomicE: "task_run (Atomic f k) es t'"

definition own_sections :: "nat \<Rightarrow> 's event list \<Rightarrow> ('s \<times> 's) list" where
  "own_sections i es = map snd (filter (\<lambda>e. fst e = i) es)"

lemma own_sections_simps [simp]:
  "own_sections i [] = []"
  "own_sections i ((j, x) # es) = (if j = i then x # own_sections i es else own_sections i es)"
  by (simp_all add: own_sections_def)

lemma set_own_sections: "x \<in> set (own_sections i es) \<Longrightarrow> (i, x) \<in> set es"
  by (force simp: own_sections_def)

text \<open>In a run of a pool every task makes a run of its own.\<close>

lemma pool_run_own:
  "pool_run s ts es s' ts' \<Longrightarrow> i < length ts \<Longrightarrow> task_run (ts ! i) (own_sections i es) (ts' ! i)"
proof (induction rule: pool_run.induct)
  case (section_of j ts f k s es s' ts')
  then show ?case
    by (cases "j = i") (auto intro: task_run.own)
qed (simp add: task_run.rest)

text \<open>The run of a pool under a given schedule; tasks that are done are passed over.\<close>

fun scheduled ::
  "nat list \<Rightarrow> 's \<Rightarrow> ('s, 'a) task list \<Rightarrow> 's event list \<times> 's \<times> ('s, 'a) task list" where
  "scheduled [] s ts = ([], s, ts)"
| "scheduled (i # is) s ts =
     (if i < length ts then
        (case ts ! i of
           Return x \<Rightarrow> scheduled is s ts
         | Atomic f k \<Rightarrow> apfst ((#) (i, s, f s)) (scheduled is (f s) (ts[i := k s])))
      else scheduled is s ts)"

lemma scheduled_run: "scheduled is s ts = (es, s', ts') \<Longrightarrow> pool_run s ts es s' ts'"
  by (induction "is" s ts arbitrary: es rule: scheduled.induct)
    (auto simp: apfst_def map_prod_def intro: pool_run.intros
      split: task.splits if_splits prod.splits)

lemma scheduled_first:
  "scheduled (i # is) s ts = (es, s', ts') \<Longrightarrow> i < length ts \<Longrightarrow> \<not> finished (ts ! i) \<Longrightarrow>
     fst (hd (own_sections i es)) = s"
  by (cases "ts ! i") (auto simp: apfst_def map_prod_def split: prod.splits)

lemma run_scheduled: "pool_run s ts es s' ts' \<Longrightarrow> scheduled (map fst es) s ts = (es, s', ts')"
  by (induction rule: pool_run.induct) simp_all

section \<open>Protocols\<close>

text \<open>
  \<open>obeys I R Q t c\<close>: every critical section of \<open>t\<close>, entered in a state with \<open>I\<close>,
  takes the annotation from \<open>c\<close> on along \<open>R\<close>, and the result of \<open>t\<close> and the last
  annotation satisfy \<open>Q\<close>.
\<close>

primrec obeys ::
  "('s \<Rightarrow> bool) \<Rightarrow> ('c \<Rightarrow> 's \<Rightarrow> 's \<Rightarrow> 'c \<Rightarrow> bool) \<Rightarrow> ('a \<Rightarrow> 'c \<Rightarrow> bool) \<Rightarrow> ('s, 'a) task
    \<Rightarrow> 'c \<Rightarrow> bool" where
  "obeys I R Q (Return x) = (\<lambda>c. Q x c)"
| "obeys I R Q (Atomic f k) =
     (\<lambda>c. \<forall>s. I s \<longrightarrow> (\<exists>c'. R c s (f s) c' \<and> (obeys I R Q \<circ> k) s c'))"

lemma obeys_Atomic:
  assumes "\<And>s. I s \<Longrightarrow> R c s (f s) (c' s)" and "\<And>s. I s \<Longrightarrow> obeys I R Q (k s) (c' s)"
  shows "obeys I R Q (Atomic f k) c"
  using assms by (auto intro!: exI)

lemma obeys_AtomicE:
  assumes "obeys I R Q (Atomic f k) c" and "I s"
  obtains c' where "R c s (f s) c'" and "obeys I R Q (k s) c'"
  using assms by auto

declare obeys.simps(2) [simp del]

text \<open>Sections that leave the annotation alone.\<close>

lemma obeys_steady:
  "(\<And>s. I s \<Longrightarrow> R c s (f s) c) \<Longrightarrow> (\<And>s. I s \<Longrightarrow> obeys I R Q (k s) c) \<Longrightarrow>
     obeys I R Q (Atomic f k) c"
  by (rule obeys_Atomic)

lemma obeys_act:
  "(\<And>s. I s \<Longrightarrow> R c s (f s) c') \<Longrightarrow> obeys I R Q t c' \<Longrightarrow> obeys I R Q (act f t) c"
  unfolding act_def by (rule obeys_Atomic)

lemma obeys_look:
  "(\<And>s. I s \<Longrightarrow> R c s s c) \<Longrightarrow> (\<And>s. I s \<Longrightarrow> obeys I R Q (k (g s)) c) \<Longrightarrow>
     obeys I R Q (look g k) c"
  unfolding look_def by (rule obeys_steady)

lemma obeys_mono:
  "obeys I R Q t c \<Longrightarrow> (\<And>s. I' s \<Longrightarrow> I s) \<Longrightarrow>
     (\<And>c s s' c'. I' s \<Longrightarrow> R c s s' c' \<Longrightarrow> R' (g c) s s' (g c')) \<Longrightarrow>
     (\<And>x c. Q x c \<Longrightarrow> Q' x (g c)) \<Longrightarrow> obeys I' R' Q' t (g c)"
proof (induction t arbitrary: c)
  case (Atomic f k)
  show ?case
    unfolding obeys.simps(2)
    using Atomic.IH [OF rangeI _ Atomic.prems(2-4)] Atomic.prems(2,3)
      obeys_AtomicE [OF Atomic.prems(1)]
    by (metis comp_apply)
qed simp

lemma obeys_and_then:
  "obeys I R Q t c \<Longrightarrow> (\<And>x c. Q x c \<Longrightarrow> obeys I R Q' (g x) c) \<Longrightarrow> obeys I R Q' (and_then t g) c"
proof (induction t arbitrary: c)
  case (Atomic f k)
  show ?case
    unfolding and_then.simps obeys.simps(2)
    using Atomic.IH [OF rangeI _ Atomic.prems(2)] obeys_AtomicE [OF Atomic.prems(1)]
    by (metis comp_apply)
qed simp

text \<open>A task that obeys two protocols obeys both at once.\<close>

lemma obeys_both:
  "obeys I R Q t c \<Longrightarrow> obeys I R' Q' t d \<Longrightarrow>
     obeys I (\<lambda>(c, d) s s' (c', d'). R c s s' c' \<and> R' d s s' d') (\<lambda>x (c, d). Q x c \<and> Q' x d) t (c, d)"
proof (induction t arbitrary: c d)
  case (Atomic f k)
  show ?case
    unfolding obeys.simps(2)
  proof (intro allI impI)
    fix s
    assume "I s"
    from Atomic.prems(1) this obtain c' where "R c s (f s) c'" and "obeys I R Q (k s) c'"
      by (rule obeys_AtomicE)
    moreover from Atomic.prems(2) \<open>I s\<close> obtain d' where "R' d s (f s) d'" and "obeys I R' Q' (k s) d'"
      by (rule obeys_AtomicE)
    ultimately show "\<exists>cd'. (case (c, d) of (c, d) \<Rightarrow> \<lambda>s s' (c', d'). R c s s' c' \<and> R' d s s' d') s (f s) cd'
        \<and> (obeys I (\<lambda>(c, d) s s' (c', d'). R c s s' c' \<and> R' d s s' d')
             (\<lambda>x (c, d). Q x c \<and> Q' x d) \<circ> k) s cd'"
      using Atomic.IH [OF rangeI] by (intro exI [of _ "(c', d')"]) simp
  qed
qed simp

text \<open>
  The contract of a pool whose tasks obey a protocol: an assertion on the history, the state
  and the annotations that every section keeps.
\<close>

locale pool_protocol =
  fixes I :: "'s \<Rightarrow> bool"
    and R :: "'c \<Rightarrow> 's \<Rightarrow> 's \<Rightarrow> 'c \<Rightarrow> bool"
    and J :: "'s event list \<Rightarrow> 's \<Rightarrow> 'c list \<Rightarrow> bool"
  assumes J_state: "J es s cs \<Longrightarrow> I s"
    and J_section: "J es s cs \<Longrightarrow> i < length cs \<Longrightarrow> R (cs ! i) s s' c' \<Longrightarrow>
      J (es @ [(i, s, s')]) s' (cs[i := c'])"
begin

lemma pool_from:
  "pool_run s ts es s' ts' \<Longrightarrow> J es0 s cs \<Longrightarrow> list_all2 (obeys I R Q) ts cs \<Longrightarrow>
     \<exists>cs'. J (es0 @ es) s' cs' \<and> list_all2 (obeys I R Q) ts' cs'"
proof (induction arbitrary: es0 cs rule: pool_run.induct)
  case (section_of i ts f k s es s' ts')
  have i: "i < length cs"
    using section_of.hyps(1) section_of.prems(2) by (simp add: list_all2_lengthD)
  have "obeys I R Q (Atomic f k) (cs ! i)"
    using section_of.hyps(1,2) section_of.prems(2) by (metis list_all2_nthD)
  then obtain c' where R: "R (cs ! i) s (f s) c'" and k: "obeys I R Q (k s) c'"
    using J_state [OF section_of.prems(1)] by (rule obeys_AtomicE)
  have "list_all2 (obeys I R Q) (ts[i := k s]) (cs[i := c'])"
    using section_of.prems(2) k by (rule list_all2_update_cong)
  from section_of.IH [OF J_section [OF section_of.prems(1) i R] this] show ?case by simp
qed auto

lemma pool:
  assumes "pool_run s (map task_of xs) es s' ts'" and "J [] s (map ann xs)"
    and "\<And>x. x \<in> set xs \<Longrightarrow> obeys I R Q (task_of x) (ann x)"
  shows "\<exists>cs'. J es s' cs'"
proof -
  have "list_all2 (obeys I R Q) (map task_of xs) (map ann xs)"
    using assms(3) by (simp add: list_all2_conv_all_nth)
  from pool_from [OF assms(1,2) this] show ?thesis by auto
qed

end

text \<open>A task keeps an invariant if each of its critical sections does, wherever it starts.\<close>

definition safe :: "('s \<Rightarrow> bool) \<Rightarrow> ('s, 'a) task \<Rightarrow> bool" where
  "safe I t \<longleftrightarrow> obeys I (\<lambda>_ s s' _. I s') (\<lambda>_ _. True) t ()"

lemma obeys_safe:
  assumes "obeys I R Q t c" and "\<And>c s s' c'. I s \<Longrightarrow> R c s s' c' \<Longrightarrow> I s'"
  shows "safe I t"
proof -
  have "obeys I (\<lambda>_ s s' _. I s') (\<lambda>_ _. True) t ((\<lambda>_. ()) c)"
    by (rule obeys_mono [OF assms(1)]) (use assms(2) in simp_all)
  then show ?thesis by (simp add: safe_def)
qed

interpretation safe_pool: pool_protocol I "\<lambda>_ s s' _. I s'"
    "\<lambda>es s (cs :: unit list). I s \<and> (\<forall>e \<in> set es. I (fst (snd e)) \<and> I (snd (snd e)))" for I
  by unfold_locales auto

lemma safe_pool:
  assumes "pool_run s ts es s' ts'" and "I s" and "list_all (safe I) ts"
  shows "I s'" and "e \<in> set es \<Longrightarrow> I (fst (snd e))" and "e \<in> set es \<Longrightarrow> I (snd (snd e))"
proof -
  have "list_all2 (obeys I (\<lambda>_ s s' _. I s') (\<lambda>_ _. True)) ts (map (\<lambda>_. ()) ts)"
    using assms(3) by (simp add: safe_def list_all2_conv_all_nth list_all_length)
  from safe_pool.pool_from [OF assms(1) _ this, of "[]"] assms(2)
  have "I s' \<and> (\<forall>e \<in> set es. I (fst (snd e)) \<and> I (snd (snd e)))" by simp
  then show "I s'" and "e \<in> set es \<Longrightarrow> I (fst (snd e))" and "e \<in> set es \<Longrightarrow> I (snd (snd e))"
    by auto
qed

section \<open>What a task does between two points\<close>

text \<open>
  \<open>leads I t u Q\<close>: a task \<open>t\<close> that completes gets to \<open>u\<close>, and its critical sections on
  the way satisfy \<open>Q\<close>, if each of them is entered in a state with \<open>I\<close>.
\<close>

definition leads ::
  "('s \<Rightarrow> bool) \<Rightarrow> ('s, 'a) task \<Rightarrow> ('s, 'a) task \<Rightarrow> (('s \<times> 's) list \<Rightarrow> bool) \<Rightarrow> bool" where
  "leads I t u Q \<longleftrightarrow> (\<forall>es x. task_run t es (Return x) \<longrightarrow> (\<forall>e \<in> set es. I (fst e)) \<longrightarrow>
     (\<exists>es1 es2. es = es1 @ es2 \<and> task_run u es2 (Return x) \<and> Q es1))"

lemma leads_refl: "Q [] \<Longrightarrow> leads I t t Q"
  by (force simp: leads_def)

lemma leads_Atomic:
  assumes "\<And>s. I s \<Longrightarrow> leads I (k s) u (\<lambda>es. Q ((s, f s) # es))"
  shows "leads I (Atomic f k) u Q"
  unfolding leads_def
proof (intro allI impI)
  fix es x
  assume "task_run (Atomic f k) es (Return x)" and I: "\<forall>e \<in> set es. I (fst e)"
  then obtain s es' where es: "es = (s, f s) # es'" and r: "task_run (k s) es' (Return x)"
    by (auto elim: task_run_AtomicE)
  have "I s" and "\<forall>e \<in> set es'. I (fst e)"
    using I unfolding es by simp_all
  with r assms [of s] obtain es1 es2
    where "es' = es1 @ es2" "task_run u es2 (Return x)" "Q ((s, f s) # es1)"
    unfolding leads_def by blast
  with es show "\<exists>es1 es2. es = es1 @ es2 \<and> task_run u es2 (Return x) \<and> Q es1"
    by (metis append_Cons)
qed

lemma leads_trans:
  assumes "leads I t u Q" and "leads I u v R" and "\<And>es fs. Q es \<Longrightarrow> R fs \<Longrightarrow> S (es @ fs)"
  shows "leads I t v S"
  unfolding leads_def
proof (intro allI impI)
  fix es x
  assume "task_run t es (Return x)" and I: "\<forall>e \<in> set es. I (fst e)"
  with assms(1) obtain es1 es2 where 1: "es = es1 @ es2" "task_run u es2 (Return x)" "Q es1"
    unfolding leads_def by blast
  with I assms(2) obtain es3 es4 where 2: "es2 = es3 @ es4" "task_run v es4 (Return x)" "R es3"
    unfolding leads_def by (metis Un_iff set_append)
  show "\<exists>es1 es2. es = es1 @ es2 \<and> task_run v es2 (Return x) \<and> S es1"
    using 1 2 assms(3) [of es1 es3] by (intro exI [of _ "es1 @ es3"] exI [of _ es4]) simp
qed

lemma leads_mono: "leads I t u Q \<Longrightarrow> (\<And>es. Q es \<Longrightarrow> R es) \<Longrightarrow> leads I t u R"
  unfolding leads_def by blast

lemma leads_all:
  assumes "leads I t (Return y) Q" and "task_run t es (Return x)" and "\<And>e. e \<in> set es \<Longrightarrow> I (fst e)"
  shows "Q es" and "x = y"
  using assms unfolding leads_def by fastforce+

end
