(* ===== verification/Broker_Tasks.thy ===== *)
theory Broker_Tasks
  imports Dispatch Tasks
begin

text \<open>
  The handlers of the broker and of the servers as tasks (\<open>src/src/broker/mod.rs\<close>,
  \<open>src/src/broker/session.rs\<close>, \<open>handle_packet\<close> of \<open>src/src/server/tcp.rs\<close>).
  A critical section is what happens under one lock, in one operation of the \<open>DashMap\<close> or
  of the \<open>AtomicU16\<close>, in one \<open>try_lock\<close>, or in one \<open>send\<close>. The allocation of a session,
  which no other task can see, is taken together with its registration. A task continues with
  its last argument.
\<close>

section \<open>Session\<close>

type_synonym 'a broker_task = "(broker_state, 'a) task"

text \<open>The call of \<open>fetch_add\<close>, and the \<open>store\<close> when the counter was 0.\<close>

definition new_packet_id_task :: "nat \<Rightarrow> (packet_id \<Rightarrow> 'a broker_task) \<Rightarrow> 'a broker_task" where
  "new_packet_id_task r k =
     Atomic (update_session r (\<lambda>s. s\<lparr>se_next_packet_id := se_next_packet_id s + 1\<rparr>))
       (\<lambda>st. let id = se_next_packet_id (heap st r)
             in if id = 0 then
                  act (update_session r (\<lambda>s. s\<lparr>se_next_packet_id := 1\<rparr>)) (k (PacketId 1))
                else k (PacketId id))"

definition send_task ::
  "environment \<Rightarrow> (broker_state \<Rightarrow> sender) \<Rightarrow> packet \<Rightarrow> (bool \<Rightarrow> 'a broker_task) \<Rightarrow> 'a broker_task" where
  "send_task env tx p k =
     Atomic (\<lambda>st. snd (send env (tx st) p st)) (\<lambda>st. k (fst (send env (tx st) p st)))"

definition insert_qos1 :: "packet_id \<Rightarrow> publish_packet \<Rightarrow> session \<Rightarrow> session" where
  "insert_qos1 packet_id packet s =
     s\<lparr>se_pending_qos1 := (se_pending_qos1 s)(packet_id \<mapsto> \<lparr>p1_packet = packet\<rparr>)\<rparr>"

definition insert_qos2 :: "packet_id \<Rightarrow> publish_packet \<Rightarrow> session \<Rightarrow> session" where
  "insert_qos2 packet_id packet s =
     s\<lparr>se_pending_qos2 := (se_pending_qos2 s)(packet_id \<mapsto>
         \<lparr>p2_packet = packet, p2_state = WaitingPubrec\<rparr>)\<rparr>"

definition enqueue_publish_task ::
  "environment \<Rightarrow> nat \<Rightarrow> publish_packet \<Rightarrow> 'a broker_task \<Rightarrow> 'a broker_task" where
  "enqueue_publish_task env r packet k =
     (if pp_qos packet \<noteq> AtMostOnce then
        new_packet_id_task r (\<lambda>packet_id.
          let packet = packet\<lparr>pp_packet_id := Some packet_id\<rparr>
          in send_task env (\<lambda>st. se_sender (heap st r)) (Publish packet) (\<lambda>sent.
               if \<not> sent then k
               else (case pp_qos packet of
                       AtLeastOnce \<Rightarrow> act (update_session r (insert_qos1 packet_id packet)) k
                     | ExactlyOnce \<Rightarrow> act (update_session r (insert_qos2 packet_id packet)) k
                     | AtMostOnce \<Rightarrow> k)))
      else send_task env (\<lambda>st. se_sender (heap st r)) (Publish packet) (\<lambda>_. k))"

definition sender_task ::
  "environment \<Rightarrow> nat \<Rightarrow> (sender \<Rightarrow> 'a broker_task) \<Rightarrow> 'a broker_task" where
  "sender_task env r k =
     Atomic (\<lambda>st. snd (session_sender env (heap st r) st))
       (\<lambda>st. k (fst (session_sender env (heap st r) st)))"

section \<open>Broker\<close>

definition reply_task :: "environment \<Rightarrow> nat \<Rightarrow> packet \<Rightarrow> 'a broker_task \<Rightarrow> 'a broker_task" where
  "reply_task env r p k = sender_task env r (\<lambda>tx. send_task env (\<lambda>_. tx) p (\<lambda>_. k))"

definition deliver_task ::
  "environment \<Rightarrow> publish_packet \<Rightarrow> subscriber \<Rightarrow> 'a broker_task \<Rightarrow> 'a broker_task" where
  "deliver_task env packet s k =
     (let effective_qos = min (pp_qos packet) (sub_qos s);
          publish = packet\<lparr>pp_qos := effective_qos\<rparr>
      in if effective_qos = AtMostOnce then
           send_task env (\<lambda>_. sub_sender s) (Publish publish) (\<lambda>_. k)
         else look (get_session (sub_client_id s)) (\<lambda>found.
           case found of
             Some session \<Rightarrow> enqueue_publish_task env session publish k
           | None \<Rightarrow> k))"

text \<open>The snapshot of the subscribers under the read lock, then one after the other.\<close>

definition handle_publish_task ::
  "environment \<Rightarrow> publish_packet \<Rightarrow> 'a broker_task \<Rightarrow> 'a broker_task" where
  "handle_publish_task env packet k =
     look (\<lambda>st. tree_matches (subscriptions st) (pp_topic_name packet)) (\<lambda>subscribers.
       foldr (deliver_task env packet) subscribers k)"

fun subscribe_filters_task ::
  "sender \<Rightarrow> rstring \<Rightarrow> (rstring \<times> qos) list \<Rightarrow> subscribe_return_code list
    \<Rightarrow> (subscribe_return_code list \<Rightarrow> 'a broker_task) \<Rightarrow> 'a broker_task" where
  "subscribe_filters_task tx client_id [] return_codes k = k return_codes"
| "subscribe_filters_task tx client_id ((topic, requested_qos) # rest) return_codes k =
     (if is_valid_topic_filter topic then
        (let granted_qos = AtLeastOnce;
             s = \<lparr>sub_client_id = client_id, sub_sender = tx, sub_qos = granted_qos\<rparr>
         in act (\<lambda>st. st\<lparr>subscriptions := tree_add (subscriptions st) topic s\<rparr>)
              (subscribe_filters_task tx client_id rest
                (return_codes @ [granted_code granted_qos]) k))
      else subscribe_filters_task tx client_id rest (return_codes @ [Failure]) k)"

definition handle_subscribe_task ::
  "environment \<Rightarrow> nat \<Rightarrow> subscribe_packet \<Rightarrow> (suback_packet \<Rightarrow> 'a broker_task) \<Rightarrow> 'a broker_task" where
  "handle_subscribe_task env r packet k =
     Atomic (\<lambda>st. snd (session_sender env (heap st r) st))
       (\<lambda>st. subscribe_filters_task (fst (session_sender env (heap st r) st))
          (se_client_id (heap st r)) (sp_subscriptions packet) [] (\<lambda>return_codes.
            k \<lparr>sa_packet_id = sp_packet_id packet, sa_return_codes = return_codes\<rparr>))"

definition handle_unsubscribe_task :: "nat \<Rightarrow> unsubscribe_packet \<Rightarrow> 'a broker_task \<Rightarrow> 'a broker_task"
  where
  "handle_unsubscribe_task r packet k = act (handle_unsubscribe r packet) k"

definition handle_disconnect_task :: "nat \<Rightarrow> 'a broker_task \<Rightarrow> 'a broker_task" where
  "handle_disconnect_task r k =
     act (\<lambda>st. remove_session (se_client_id (heap st r)) st)
       (act (\<lambda>st. st\<lparr>subscriptions :=
              tree_remove_all (subscriptions st) (se_client_id (heap st r))\<rparr>) k)"

definition handle_puback_task :: "nat \<Rightarrow> packet_id \<Rightarrow> 'a broker_task \<Rightarrow> 'a broker_task" where
  "handle_puback_task r packet_id k = act (update_session r (session_puback packet_id)) k"

definition handle_pubrec_task ::
  "environment \<Rightarrow> nat \<Rightarrow> packet_id \<Rightarrow> 'a broker_task \<Rightarrow> 'a broker_task" where
  "handle_pubrec_task env r packet_id k =
     act (update_session r (session_pubrec packet_id)) (reply_task env r (Pubrel packet_id) k)"

definition handle_pubrel_task ::
  "environment \<Rightarrow> nat \<Rightarrow> packet_id \<Rightarrow> 'a broker_task \<Rightarrow> 'a broker_task" where
  "handle_pubrel_task env r packet_id k = reply_task env r (Pubcomp packet_id) k"

definition handle_pubcomp_task :: "nat \<Rightarrow> packet_id \<Rightarrow> 'a broker_task \<Rightarrow> 'a broker_task" where
  "handle_pubcomp_task r packet_id k = act (update_session r (session_pubcomp packet_id)) k"

section \<open>Connections\<close>

definition if_session ::
  "nat option \<Rightarrow> (nat \<Rightarrow> 'a broker_task \<Rightarrow> 'a broker_task) \<Rightarrow> 'a broker_task \<Rightarrow> 'a broker_task" where
  "if_session session f k = (case session of Some r \<Rightarrow> f r k | None \<Rightarrow> k)"

definition acknowledge_task ::
  "environment \<Rightarrow> nat option \<Rightarrow> packet_id option \<Rightarrow> (packet_id \<Rightarrow> packet) \<Rightarrow> 'a broker_task
    \<Rightarrow> 'a broker_task" where
  "acknowledge_task env session pid ack k =
     (case (session, pid) of
        (Some r, Some i) \<Rightarrow> reply_task env r (ack i) k
      | _ \<Rightarrow> k)"

text \<open>
  \<open>handle_packet\<close>. It continues with the session and the receiver of the connection; a packet
  that only a server may send is an error, which is the result of the task.
\<close>

fun packet_task ::
  "environment \<Rightarrow> nat option \<Rightarrow> nat option \<Rightarrow> packet
    \<Rightarrow> (nat option \<Rightarrow> nat option \<Rightarrow> (broker_error + 'a) broker_task) \<Rightarrow> (broker_error + 'a) broker_task"
  where
  "packet_task env session out_rx (Connect connect) k =
     Atomic
       (\<lambda>st. let (new_session, st) = alloc_session (cp_client_id connect)
                   (cp_clean_session connect) (cp_keep_alive connect) st
             in register_session new_session st)
       (\<lambda>st. let (new_session, st) = alloc_session (cp_client_id connect)
                   (cp_clean_session connect) (cp_keep_alive connect) st;
                 (return_code, session_present) = handle_connect new_session st
             in reply_task env new_session
                  (Connack \<lparr>ca_session_present = session_present,
                    ca_return_code = return_code\<rparr>)
                  (k (Some new_session) (Some new_session)))"
| "packet_task env session out_rx (Connack _) k =
     Return (Inl (Protocol ''Server received CONNACK''))"
| "packet_task env session out_rx (Publish publish) k =
     (case pp_qos publish of
        AtMostOnce \<Rightarrow> handle_publish_task env publish (k session out_rx)
      | AtLeastOnce \<Rightarrow> handle_publish_task env publish
          (acknowledge_task env session (pp_packet_id publish) Puback (k session out_rx))
      | ExactlyOnce \<Rightarrow> handle_publish_task env publish
          (acknowledge_task env session (pp_packet_id publish) Pubrec (k session out_rx)))"
| "packet_task env session out_rx (Puback pid) k =
     if_session session (\<lambda>r. handle_puback_task r pid) (k session out_rx)"
| "packet_task env session out_rx (Pubrec pid) k =
     if_session session (\<lambda>r. handle_pubrec_task env r pid) (k session out_rx)"
| "packet_task env session out_rx (Pubrel pid) k =
     if_session session (\<lambda>r. handle_pubrel_task env r pid) (k session out_rx)"
| "packet_task env session out_rx (Pubcomp pid) k =
     if_session session (\<lambda>r. handle_pubcomp_task r pid) (k session out_rx)"
| "packet_task env session out_rx (Subscribe sub) k =
     if_session session (\<lambda>r k. handle_subscribe_task env r sub (\<lambda>suback.
       reply_task env r (Suback suback) k)) (k session out_rx)"
| "packet_task env session out_rx (Suback _) k =
     Return (Inl (Protocol ''Server received SUBACK''))"
| "packet_task env session out_rx (Unsubscribe unsub) k =
     if_session session (\<lambda>r k. handle_unsubscribe_task r unsub
       (reply_task env r (Unsuback (up_packet_id unsub)) k)) (k session out_rx)"
| "packet_task env session out_rx (Unsuback _) k =
     Return (Inl (Protocol ''Server received UNSUBACK''))"
| "packet_task env session out_rx Pingreq k =
     if_session session (\<lambda>r. reply_task env r Pingresp) (k session out_rx)"
| "packet_task env session out_rx Pingresp k =
     Return (Inl (Protocol ''Server received PINGRESP''))"
| "packet_task env session out_rx Disconnect k =
     if_session session handle_disconnect_task (k None None)"

text \<open>
  A connection: its packets one after the other, up to the first error, and
  \<open>handle_disconnect\<close> after the last one, when the client has closed the connection.
\<close>

fun connection_task ::
  "environment \<Rightarrow> nat option \<Rightarrow> nat option \<Rightarrow> packet list \<Rightarrow> (broker_error + unit) broker_task" where
  "connection_task env session out_rx [] =
     if_session session handle_disconnect_task (Return (Inr ()))"
| "connection_task env session out_rx (p # ps) =
     packet_task env session out_rx p (\<lambda>session out_rx. connection_task env session out_rx ps)"

section \<open>Tasks that run alone\<close>

text \<open>
  A task that is not interrupted has the effect of the handler, taken as one step, and then
  continues.
\<close>

named_theorems alone \<open>what a task does when it runs alone\<close>

lemmas alone_basic = run_alone_act run_alone_look run_alone_Atomic

lemma alone_send [alone]:
  "run_alone (send_task env tx p k) st =
     run_alone (k (fst (send env (tx st) p st))) (snd (send env (tx st) p st))"
  by (simp add: send_task_def)

lemma alone_reply [alone]:
  "run_alone (reply_task env r p k) st = run_alone k (reply env r p st)"
  by (simp add: reply_task_def sender_task_def alone reply_def split_def Let_def)

lemma alone_new_packet_id [alone]:
  "run_alone (new_packet_id_task r k) st =
     (let (i, s) = new_packet_id (heap st r)
      in run_alone (k i) (st\<lparr>heap := (heap st)(r := s)\<rparr>))"
  by (simp add: new_packet_id_task_def update_session_def new_packet_id_def Let_def)

lemma alone_enqueue_publish [alone]:
  "run_alone (enqueue_publish_task env r p k) st = run_alone k (session_enqueue env r p st)"
proof (cases "pp_qos p")
  case AtMostOnce
  then show ?thesis
    by (simp add: enqueue_publish_task_def session_enqueue_def enqueue_publish_def alone split_def)
qed (cases st; simp add: enqueue_publish_task_def session_enqueue_def enqueue_publish_def alone
      send_def update_session_def insert_qos1_def insert_qos2_def new_packet_id_def Let_def)+

lemma alone_deliver [alone]:
  "run_alone (deliver_task env p s k) st = run_alone k (deliver env p st s)"
  by (simp add: deliver_task_def deliver_def alone Let_def split: option.split)

lemma alone_publish [alone]:
  "run_alone (handle_publish_task env p k) st = run_alone k (snd (handle_publish env p st))"
proof -
  have "run_alone (foldr (deliver_task env p) subs k) st = run_alone k (foldl (deliver env p) st subs)"
    for subs
    by (induction subs arbitrary: st) (simp_all add: alone)
  then show ?thesis by (simp add: handle_publish_task_def handle_publish_def)
qed

lemma alone_subscribe_filters [alone]:
  "run_alone (subscribe_filters_task tx c subs codes k) st =
     (let (codes, st) = subscribe_filters tx c subs codes st in run_alone (k codes) st)"
  by (induction tx c subs codes k arbitrary: st rule: subscribe_filters_task.induct)
    (simp_all add: Let_def)

lemma alone_subscribe [alone]:
  "run_alone (handle_subscribe_task env r p k) st =
     (let (suback, st) = handle_subscribe env r p st in run_alone (k suback) st)"
  by (simp add: handle_subscribe_task_def handle_subscribe_def alone split_def session_sender_def
      Let_def)

lemma alone_disconnect [alone]:
  "run_alone (handle_disconnect_task r k) st = run_alone k (handle_disconnect r st)"
  by (simp add: handle_disconnect_task_def handle_disconnect_def remove_session_def Let_def)

lemma alone_acks [alone]:
  "run_alone (handle_puback_task r i k) st = run_alone k (handle_puback r i st)"
  "run_alone (handle_pubrec_task env r i k) st = run_alone k (handle_pubrec env r i st)"
  "run_alone (handle_pubrel_task env r i k) st = run_alone k (handle_pubrel env r i st)"
  "run_alone (handle_pubcomp_task r i k) st = run_alone k (handle_pubcomp r i st)"
  "run_alone (handle_unsubscribe_task r u k) st = run_alone k (handle_unsubscribe r u st)"
  by (simp_all add: handle_puback_task_def handle_pubrec_task_def handle_pubrel_task_def
      handle_pubcomp_task_def handle_unsubscribe_task_def handle_puback_def handle_pubrec_def
      handle_pubrel_def handle_pubcomp_def alone)

lemma alone_if_session:
  assumes "\<And>r st. run_alone (f r k) st = run_alone k (g r st)"
  shows "run_alone (if_session session f k) st = run_alone k (with_session session g st)"
  using assms by (cases session) (simp_all add: if_session_def)

lemma alone_acknowledge [alone]:
  "run_alone (acknowledge_task env session i ack k) st
     = run_alone k (acknowledge env session i ack st)"
  by (cases session; cases i) (simp_all add: acknowledge_task_def alone)

lemma packet_task_publish:
  "packet_task env session rx (Publish p) k = handle_publish_task env p
     (if pp_qos p = AtMostOnce then k session rx
      else acknowledge_task env session (pp_packet_id p) (ack_of (pp_qos p)) (k session rx))"
  by (cases "pp_qos p") simp_all

declare packet_task.simps(3) [simp del]

lemma alone_packet:
  "run_alone (packet_task env session rx p k) st =
     (case tcp_dispatch env (session, rx) p st of
        (Inl e, st') \<Rightarrow> (Inl e, st')
      | (Inr c, st') \<Rightarrow> run_alone (k (fst c) (snd c)) st')"
proof (cases p)
  case (Connect c)
  then show ?thesis
    by (simp add: tcp_dispatch_def alone split_def Let_def del: handle_packet.simps(1))
      (simp add: handle_packet_connect handle_connect_def alloc_session_def session_new_def Let_def
        del: handle_packet.simps(1))
next
  case (Publish q)
  then show ?thesis
    by (simp add: tcp_dispatch_def packet_task_publish handle_packet_publish alone Let_def)
next
  case (Subscribe q)
  then show ?thesis
    by (cases session) (simp_all add: tcp_dispatch_def if_session_def alone Let_def split_def)
next
  case (Unsubscribe u)
  then show ?thesis
    by (cases session) (simp_all add: tcp_dispatch_def if_session_def alone Let_def)
qed (cases session; simp add: tcp_dispatch_def if_session_def alone Let_def)+

text \<open>
  The detailed handlers refine the handlers taken as one step: a connection whose critical
  sections are not interrupted by other tasks has the result and the effect of handling its
  packets one after the other with \<open>handle_packet\<close>, up to the first error, and of
  \<open>handle_disconnect\<close> at the end of the stream.
\<close>

theorem connection_task_refines:
  "run_alone (connection_task env session rx ps) st =
     (case handle_all (tcp_dispatch env) (session, rx) ps st of
        (Inl e, st') \<Rightarrow> (Inl e, st')
      | (Inr (session', rx'), st') \<Rightarrow> (Inr (), with_session session' handle_disconnect st'))"
proof (induction ps arbitrary: session rx st)
  case Nil
  then show ?case by (cases session) (simp_all add: if_session_def alone)
next
  case (Cons p ps)
  obtain res st' where d: "tcp_dispatch env (session, rx) p st = (res, st')" by fastforce
  show ?case
  proof (cases res)
    case (Inr c)
    then show ?thesis
      using Cons.IH [of "fst c" "snd c" st'] d by (simp add: alone_packet)
  qed (simp add: d alone_packet)
qed

end
