(* ===== verification/Tcp_Server.thy ===== *)
theory Tcp_Server
  imports Dispatch
begin

text \<open>
  A TCP connection (\<open>src/src/server/tcp.rs\<close>): the extraction of packets from the read
  buffer and the loop of \<open>handle_connection\<close>. One iteration of the loop is a step on an
  event, the branch \<open>tokio::select!\<close> takes: what \<open>read\<close> returned, or a packet from
  the session's channel together with what \<open>write_all\<close> returned.
\<close>

section \<open>Extraction of packets\<close>

text \<open>The result and the buffer afterwards; \<open>peek\<close> is what the header decoder leaves.\<close>

definition extract_packet :: "u8 list \<Rightarrow> (broker_error + packet) option \<times> u8 list" where
  "extract_packet buf =
     (if length buf < 2 then (None, buf)
      else case decode_fixed_header buf of
             Inl e \<Rightarrow> (Some (Inl e), buf)
           | Inr (header, peek) \<Rightarrow>
               (let consumed = length buf - length peek;
                    total_len = consumed + fh_remaining_length header
                in if length buf < total_len then (None, buf)
                   else (let packet_data = take total_len buf;
                             buf = drop total_len buf
                         in (Some (case decode packet_data of
                                     Inl e \<Rightarrow> Inl e
                                   | Inr (packet, rest) \<Rightarrow> Inr packet), buf))))"

lemma decode_fixed_header_shape:
  assumes "decode_fixed_header buf = Inr (h, peek)"
  shows "\<exists>b bs. buf = b # bs @ peek \<and> vbi_shape bs \<and> length bs \<le> 4
    \<and> fh_remaining_length h = vbi_value bs"
proof -
  obtain b s' v n where "buf = b # s'" and "decode_remaining_length s' = Inr ((v, n), peek)"
    and "fh_remaining_length h = v"
    using assms
    by (auto simp: decode_fixed_header_def reader_iff Let_def split: option.splits)
  then show ?thesis by (auto simp: decode_remaining_length_Inr)
qed

text \<open>A packet leaves the buffer with its bytes: the loop makes progress.\<close>

lemma extract_packet_shrinks:
  assumes "extract_packet buf = (Some (Inr p), buf')"
  shows "length buf' < length buf"
  using assms decode_fixed_header_shape [of buf]
  by (fastforce simp: extract_packet_def Let_def split: if_splits sum.splits prod.splits)

section \<open>The connection\<close>

text \<open>The locals of \<open>handle_connection\<close> and the bytes written to the socket.\<close>

record tcp_connection =
  tc_session :: "nat option"
  tc_out_rx :: "nat option"
  tc_buf :: "u8 list"
  tc_written :: "u8 list"

definition tcp_new :: tcp_connection where
  "tcp_new = \<lparr>tc_session = None, tc_out_rx = None, tc_buf = [], tc_written = []\<rparr>"

text \<open>\<open>while let Some(packet_result) = extract_packet(&mut buf)\<close>\<close>

function process_buffer ::
  "environment \<Rightarrow> nat option \<Rightarrow> nat option \<Rightarrow> u8 list \<Rightarrow> broker_state
    \<Rightarrow> (broker_error + nat option \<times> nat option \<times> u8 list) \<times> broker_state" where
  "process_buffer env session out_rx buf st =
     (case extract_packet buf of
        (None, buf) \<Rightarrow> (Inr (session, out_rx, buf), st)
      | (Some (Inl e), buf) \<Rightarrow> (Inl e, st)
      | (Some (Inr packet), buf) \<Rightarrow>
          (case handle_packet env session out_rx packet st of
             (Inl e, st) \<Rightarrow> (Inl e, st)
           | (Inr (sess, rx, keep_alive), st) \<Rightarrow> process_buffer env sess rx buf st))"
  by pat_completeness auto
termination
  by (relation "measure (\<lambda>(env, session, out_rx, buf, st). length buf)")
    (auto dest: sym extract_packet_shrinks)

declare process_buffer.simps [simp del]

text \<open>
  What the select loop waits for. \<open>TcpRead []\<close> is \<open>Ok(0)\<close>, the end of the stream;
  \<open>TcpRecv packet w\<close> is a packet from the channel with the error of \<open>write_all\<close>, if any.
\<close>

datatype tcp_event =
    TcpRead "u8 list"
  | TcpReadError string
  | TcpRecv packet "string option"

text \<open>
  \<open>read_async\<close> behind a successful \<open>read\<close> of some bytes: the count and the new buffer.
\<close>

definition read_async :: "u8 list \<Rightarrow> u8 list \<Rightarrow> nat \<times> u8 list" where
  "read_async bytes buf = (let n = length bytes in (n, if n > 0 then buf @ bytes else buf))"

lemma read_async_simps [simp]: "read_async bytes buf = (length bytes, buf @ bytes)"
  by (simp add: read_async_def)

text \<open>The loop goes on, or \<open>handle_connection\<close> has returned.\<close>

datatype tcp_status = TcpOpen tcp_connection | TcpDone "broker_error + unit"

text \<open>\<open>if let Some(sess) = session.as_ref()\<close> after the loop.\<close>

definition after_loop :: "nat option \<Rightarrow> broker_state \<Rightarrow> broker_state" where
  "after_loop session st = (case session of Some r \<Rightarrow> handle_disconnect r st | None \<Rightarrow> st)"

fun tcp_step ::
  "environment \<Rightarrow> tcp_event \<Rightarrow> tcp_connection \<Rightarrow> broker_state \<Rightarrow> tcp_status \<times> broker_state" where
  "tcp_step env (TcpRead bytes) conn st =
     (let (n, buf) = read_async bytes (tc_buf conn)
      in if n = 0 then (TcpDone (Inr ()), after_loop (tc_session conn) st)
         else (case process_buffer env (tc_session conn) (tc_out_rx conn) buf st of
                 (Inl e, st) \<Rightarrow> (TcpDone (Inl e), st)
               | (Inr (session, out_rx, buf), st) \<Rightarrow>
                   (TcpOpen (conn\<lparr>tc_session := session, tc_out_rx := out_rx, tc_buf := buf\<rparr>),
                    st)))"
| "tcp_step env (TcpReadError e) conn st = (TcpDone (Inl (Io e)), st)"
| "tcp_step env (TcpRecv packet write_error) conn st =
     (case encode packet of
        Inl e \<Rightarrow> (TcpDone (Inl e), st)
      | Inr data \<Rightarrow>
          (case write_error of
             Some e \<Rightarrow> (TcpDone (Inl (Io e)), st)
           | None \<Rightarrow> (TcpOpen (conn\<lparr>tc_written := tc_written conn @ data\<rparr>), st)))"

section \<open>Framing\<close>

text \<open>
  The loop without the handling: the packets a buffer yields, the error that ended the loop if
  any, and the bytes left.
\<close>

function extract_all :: "u8 list \<Rightarrow> packet list \<times> broker_error option \<times> u8 list" where
  "extract_all buf =
     (case extract_packet buf of
        (None, buf) \<Rightarrow> ([], None, buf)
      | (Some (Inl e), buf) \<Rightarrow> ([], Some e, buf)
      | (Some (Inr packet), buf) \<Rightarrow>
          (let (ps, e, rest) = extract_all buf in (packet # ps, e, rest)))"
  by pat_completeness auto
termination
  by (relation "measure length") (auto dest: sym extract_packet_shrinks)

declare extract_all.simps [simp del]

lemma process_buffer_eq:
  "process_buffer env session out_rx buf st =
     (let (ps, err, rest) = extract_all buf
      in case handle_all (tcp_dispatch env) (session, out_rx) ps st of
           (Inl e, st) \<Rightarrow> (Inl e, st)
         | (Inr (sess, rx), st) \<Rightarrow>
             (case err of Some e \<Rightarrow> (Inl e, st) | None \<Rightarrow> (Inr (sess, rx, rest), st)))"
proof (induction env session out_rx buf st rule: process_buffer.induct)
  case (1 env session out_rx buf st)
  obtain r buf' where ex: "extract_packet buf = (r, buf')"
    by (cases "extract_packet buf") auto
  show ?case
  proof (cases "\<exists>p. r = Some (Inr p)")
    case True
    then obtain p where r: "r = Some (Inr p)" by blast
    obtain res st' where hp: "handle_packet env session out_rx p st = (res, st')"
      by (cases "handle_packet env session out_rx p st") auto
    show ?thesis
    proof (cases res)
      case (Inl e)
      with ex r hp show ?thesis
        by (simp add: process_buffer.simps [of env session out_rx buf] extract_all.simps [of buf]
            tcp_dispatch_def split_def Let_def)
    next
      case (Inr c)
      obtain s rx ka where c: "c = (s, rx, ka)" by (cases c) auto
      have "process_buffer env session out_rx buf st = process_buffer env s rx buf' st'"
        using ex r hp Inr c by (simp add: process_buffer.simps [of env session out_rx buf])
      moreover have step: "tcp_dispatch env (session, out_rx) p st = (Inr (s, rx), st')"
        using hp Inr c by (simp add: tcp_dispatch_def)
      moreover obtain ps err rest where all: "extract_all buf' = (ps, err, rest)"
        by (cases "extract_all buf'") auto
      moreover have "extract_all buf = (p # ps, err, rest)"
        using ex r all by (simp add: extract_all.simps [of buf])
      ultimately show ?thesis
        using "1.IH" [OF ex [symmetric] r refl hp [symmetric] Inr c [symmetric] refl] by simp
    qed
  next
    case False
    with ex show ?thesis
      by (simp add: process_buffer.simps [of env session out_rx buf] extract_all.simps [of buf]
          split: option.splits sum.splits)
  qed
qed

lemma decode_fixed_header_append:
  "decode_fixed_header buf = Inr (h, peek) \<Longrightarrow>
     decode_fixed_header (buf @ tail) = Inr (h, peek @ tail)"
  by (cases h) (fastforce simp: decode_fixed_header_def reader_iff Let_def split: option.splits)

text \<open>More bytes behind a packet, or behind its frame's decoding error, change nothing.\<close>

lemma extract_packet_append:
  assumes "extract_packet buf = (Some (Inr p), rest)"
  shows "extract_packet (buf @ tail) = (Some (Inr p), rest @ tail)"
proof -
  obtain h peek where h: "decode_fixed_header buf = Inr (h, peek)" and len: "\<not> length buf < 2"
    "\<not> length buf < length buf - length peek + fh_remaining_length h"
    using assms
    by (auto simp: extract_packet_def Let_def split: if_splits sum.splits)
  have "length peek \<le> length buf"
    using decode_fixed_header_shape [OF h] by auto
  then have c: "length (buf @ tail) - length (peek @ tail) = length buf - length peek"
    by simp
  show ?thesis
    using assms h len decode_fixed_header_append [OF h, of tail]
    by (simp add: extract_packet_def Let_def c split: if_splits sum.splits)
qed

lemma extract_packet_None: "extract_packet buf = (None, buf') \<Longrightarrow> buf' = buf"
  by (auto simp: extract_packet_def Let_def split: if_splits sum.splits)

lemma extract_all_append:
  "extract_all buf = (ps, None, rest) \<Longrightarrow>
     extract_all (buf @ tail) = (let (qs, e, rest') = extract_all (rest @ tail) in (ps @ qs, e, rest'))"
proof (induction buf arbitrary: ps rule: extract_all.induct)
  case (1 buf)
  obtain r buf' where ex: "extract_packet buf = (r, buf')"
    by (cases "extract_packet buf") auto
  show ?case
  proof (cases "\<exists>p. r = Some (Inr p)")
    case True
    then obtain p where r: "r = Some (Inr p)" by blast
    then obtain ps' where ps': "extract_all buf' = (ps', None, rest)" "ps = p # ps'"
      using "1.prems" ex by (auto simp: extract_all.simps [of buf] split_def Let_def prod_eq_iff)
    show ?thesis
      using "1.IH" [OF ex [symmetric] r refl ps'(1)] extract_packet_append [OF ex [unfolded r], of tail] ps'(2)
      by (simp add: extract_all.simps [of "buf @ tail"] split_def Let_def)
  next
    case False
    with "1.prems" ex have "ps = []" and "rest = buf"
      using extract_packet_None [of buf buf']
      by (auto simp: extract_all.simps [of buf] split: option.splits sum.splits)
    then show ?thesis by (simp add: split_def Let_def)
  qed
qed

text \<open>What is extracted is what the decoder accepts.\<close>

lemma extract_packet_sound:
  "extract_packet buf = (Some (Inr p), rest) \<Longrightarrow> client_packet p \<and> wf_packet p"
  using decode_accepts
  by (fastforce simp: extract_packet_def Let_def split: if_splits sum.splits)

lemma extract_all_sound:
  "list_all (\<lambda>p. client_packet p \<and> wf_packet p) (fst (extract_all buf))"
proof (induction buf rule: extract_all.induct)
  case (1 buf)
  obtain r buf' where ex: "extract_packet buf = (r, buf')"
    by (cases "extract_packet buf") auto
  show ?case
  proof (cases "\<exists>p. r = Some (Inr p)")
    case True
    then obtain p where r: "r = Some (Inr p)" by blast
    with "1.IH" [OF ex [symmetric] r refl] extract_packet_sound [OF ex [unfolded r]] ex
    show ?thesis by (simp add: extract_all.simps [of buf] split_def Let_def)
  qed (use ex in \<open>simp add: extract_all.simps [of buf] split: option.splits sum.splits\<close>)
qed

text \<open>The wire form of a packet at the front of the buffer.\<close>

definition header_length :: "packet \<Rightarrow> nat" where
  "header_length p = Suc (length (encode_remaining_length (length (wire_body p))))"

lemma wire_bytes_header: "wire_bytes p = header_bytes (wire_header p) @ wire_body p"
  by (simp add: wire_bytes_def frame_def header_bytes_def wire_header_def)

lemma length_header_bytes: "length (header_bytes (wire_header p)) = header_length p"
  by (simp add: header_bytes_def wire_header_def header_length_def)

lemma length_wire_bytes: "length (wire_bytes p) = header_length p + length (wire_body p)"
  by (simp add: wire_bytes_header length_header_bytes)

lemma decode_wire_header:
  "fits p \<Longrightarrow> decode_fixed_header (header_bytes (wire_header p) @ rest) = Inr (wire_header p, rest)"
  by (rule header_codec.get_put)
    (simp add: wf_header_def wire_header_def fits_def wire_flags_nibble)

lemma header_length_ge: "2 \<le> header_length p"
  using vbi_shape_not_Nil [OF vbi_shape_encode, of "length (wire_body p)"]
  by (simp add: header_length_def Suc_le_eq)

lemma extract_packet_wire:
  assumes "client_packet p" and "wf_packet p" and "fits p"
  shows "extract_packet (wire_bytes p @ rest) = (Some (Inr p), rest)"
proof -
  let ?buf = "wire_bytes p @ rest"
  have header: "decode_fixed_header ?buf = Inr (wire_header p, wire_body p @ rest)"
    using decode_wire_header [OF assms(3)] by (simp add: wire_bytes_header)
  have len: "length ?buf - length (wire_body p @ rest) + fh_remaining_length (wire_header p)
      = length (wire_bytes p)"
    by (simp add: length_wire_bytes wire_header_def)
  have "\<not> length ?buf < 2"
    using header_length_ge [of p] by (simp add: length_wire_bytes)
  then show ?thesis
    using decode_wire_exact [OF assms]
    unfolding extract_packet_def header sum.case prod.case Let_def len by simp
qed

lemma extract_all_wire:
  "list_all (\<lambda>p. client_packet p \<and> wf_packet p \<and> fits p) ps \<Longrightarrow>
     extract_all (concat (map wire_bytes ps) @ rest)
       = (let (qs, e, rest') = extract_all rest in (ps @ qs, e, rest'))"
proof (induction ps)
  case (Cons p ps)
  then show ?case
    by (simp add: extract_all.simps [of "wire_bytes p @ _"] extract_packet_wire split_def Let_def)
qed (simp add: split_def Let_def)

text \<open>A frame of which only the first bytes have arrived.\<close>

lemma vbi_shape_prefix:
  "vbi_shape (xs @ ys) \<Longrightarrow> ys \<noteq> [] \<Longrightarrow> list_all (\<lambda>b. b AND 0x80 \<noteq> 0) xs"
  by (induction xs) (simp_all split: if_splits)

lemma remaining_length_loop_short:
  "list_all (\<lambda>b. b AND 0x80 \<noteq> 0) bs \<Longrightarrow> c + length bs < 4 \<Longrightarrow>
     remaining_length_loop (128 ^ c) v c bs = Inl (Decode ''Unexpected end of remaining length'')"
proof (induction bs arbitrary: c v)
  case (Cons b bs)
  have "(128 :: nat) ^ Suc c \<le> 128 ^ 3"
    using Cons.prems(2) by (intro power_increasing) simp_all
  with Cons.prems Cons.IH [of "Suc c" "v + 128 ^ c * unat (b AND 0x7F)"] show ?case
    by (simp add: Let_def mult.commute)
qed simp

lemma extract_packet_partial:
  assumes "fits p" and "n < length (wire_bytes p)"
  shows "extract_packet (take n (wire_bytes p)) =
    (if n < 2 \<or> header_length p \<le> n then None
     else Some (Inl (Decode ''Unexpected end of remaining length'')), take n (wire_bytes p))"
proof -
  let ?buf = "take n (wire_bytes p)" and ?vbi = "encode_remaining_length (length (wire_body p))"
  have len: "length ?buf = n" using assms(2) by simp
  consider "n < 2" | "2 \<le> n" "header_length p \<le> n" | "2 \<le> n" "n < header_length p"
    by linarith
  then show ?thesis
  proof cases
    case 1
    with len show ?thesis by (simp add: extract_packet_def)
  next
    case 2
    define k where "k = n - header_length p"
    have buf: "?buf = header_bytes (wire_header p) @ take k (wire_body p)"
      using 2 by (simp add: wire_bytes_header length_header_bytes k_def)
    have header: "decode_fixed_header ?buf = Inr (wire_header p, take k (wire_body p))"
      unfolding buf by (rule decode_wire_header [OF assms(1)])
    have k: "k < length (wire_body p)"
      using assms(2) 2 by (simp add: length_wire_bytes k_def)
    have "n < n - length (take k (wire_body p)) + fh_remaining_length (wire_header p)"
      using k 2 by (simp add: wire_header_def k_def)
    then show ?thesis
      unfolding extract_packet_def header sum.case prod.case Let_def len using 2 by simp
  next
    case 3
    then obtain m where m: "n = Suc m" "m < length ?vbi" by (cases n) (auto simp: header_length_def)
    then have buf: "?buf = hd (wire_bytes p) # take m ?vbi"
      by (simp add: wire_bytes_header header_bytes_def wire_header_def)
    have "vbi_shape (take m ?vbi @ drop m ?vbi)" by simp
    then have "list_all (\<lambda>b. b AND 0x80 \<noteq> 0) (take m ?vbi)"
      by (rule vbi_shape_prefix) (use m in simp)
    moreover have "length ?vbi \<le> 4"
      using assms(1) by (intro length_encode_remaining_length) (simp_all add: fits_def)
    ultimately have loop: "decode_remaining_length (take m ?vbi)
        = Inl (Decode ''Unexpected end of remaining length'')"
      using remaining_length_loop_short [of "take m ?vbi" 0 0] m
      by (simp add: decode_remaining_length_def)
    have "decode_fixed_header (header_bytes (wire_header p) @ []) = Inr (wire_header p, [])"
      by (rule decode_wire_header [OF assms(1)])
    then obtain t where t: "packet_type_try_from_u8 (drop_bit 4 (hd (wire_bytes p))) = Some t"
      by (auto simp: decode_fixed_header_def wire_bytes_header header_bytes_def Let_def reader_iff
          simp del: drop_bit_or split: option.splits)
    have "decode_fixed_header ?buf = Inl (Decode ''Unexpected end of remaining length'')"
      using t loop by (simp add: buf decode_fixed_header_def Let_def)
    then show ?thesis
      using 3 len by (simp add: extract_packet_def)
  qed
qed

lemma extract_all_partial:
  assumes "fits p" and "n < length (wire_bytes p)"
  shows "extract_all (take n (wire_bytes p)) =
    ([], if n < 2 \<or> header_length p \<le> n then None
         else Some (Decode ''Unexpected end of remaining length''), take n (wire_bytes p))"
  using extract_packet_partial [OF assms] by (simp add: extract_all.simps)

lemma extract_packet_error: "extract_packet buf = (Some (Inl e), rest) \<Longrightarrow> \<exists>m. e = Decode m"
  using decode_fixed_header_error decode_error
  by (fastforce simp: extract_packet_def Let_def split: if_splits sum.splits)

lemma extract_all_error: "extract_all buf = (ps, Some e, rest) \<Longrightarrow> \<exists>m. e = Decode m"
proof (induction buf arbitrary: ps rule: extract_all.induct)
  case (1 buf)
  obtain r buf' where ex: "extract_packet buf = (r, buf')"
    by (cases "extract_packet buf") auto
  show ?case
  proof (cases "\<exists>p. r = Some (Inr p)")
    case True
    then obtain p where r: "r = Some (Inr p)" by blast
    obtain qs f rest' where "extract_all buf' = (qs, f, rest')"
      by (cases "extract_all buf'") auto
    with "1.IH" [OF ex [symmetric] r refl] "1.prems" ex r show ?thesis
      by (auto simp: extract_all.simps [of buf])
  next
    case False
    with "1.prems" ex show ?thesis
      by (auto simp: extract_all.simps [of buf] dest: extract_packet_error
          split: option.splits sum.splits)
  qed
qed

text \<open>The packets of any buffer are handled without an error.\<close>

lemma process_buffer_run:
  assumes "broker_inv st"
  obtains s rx st' where
    "handle_all (tcp_dispatch env) (session, out_rx) (fst (extract_all buf)) st = (Inr (s, rx), st')"
    and "broker_inv st'"
    and "process_buffer env session out_rx buf st =
      ((case fst (snd (extract_all buf)) of
          Some e \<Rightarrow> Inl e | None \<Rightarrow> Inr (s, rx, snd (snd (extract_all buf)))), st')"
proof -
  obtain c st' where *: "handle_all (tcp_dispatch env) (session, out_rx) (fst (extract_all buf)) st
      = (Inr c, st')" and inv: "broker_inv st'"
    using tcp_packets.handle_all_client [OF extract_all_sound assms] by blast
  obtain s rx where c: "c = (s, rx)" by (cases c)
  have "process_buffer env session out_rx buf st =
      ((case fst (snd (extract_all buf)) of
          Some e \<Rightarrow> Inl e | None \<Rightarrow> Inr (s, rx, snd (snd (extract_all buf)))), st')"
    using * c unfolding process_buffer_eq
    by (cases "extract_all buf") (simp split: option.split)
  with * c inv that show ?thesis by blast
qed

lemma broker_inv_tcp_step:
  assumes "broker_inv st"
  shows "broker_inv (snd (tcp_step env ev conn st))"
proof (cases ev)
  case (TcpRead bytes)
  obtain res st' where "process_buffer env (tc_session conn) (tc_out_rx conn)
      (tc_buf conn @ bytes) st = (res, st')" and "broker_inv st'"
    by (rule process_buffer_run [OF assms])
  then show ?thesis
    using TcpRead assms
    by (auto simp: after_loop_def broker_inv_disconnect split: option.split sum.split)
qed (use assms in \<open>auto split: sum.split option.split\<close>)

lemma handle_all_append:
  "handle_all h c (xs @ ys) st =
     (case handle_all h c xs st of
        (Inl e, st) \<Rightarrow> (Inl e, st)
      | (Inr c, st) \<Rightarrow> handle_all h c ys st)"
  by (induction xs arbitrary: c st) (auto split: sum.split prod.split)

section \<open>Properties\<close>

text \<open>
  C12: The stream of a client is cut into its packets: when the buffer holds the wire forms of
  any number of well-formed client packets, the loop handles exactly these packets, in order,
  without an error, and leaves the buffer empty.
\<close>

theorem process_buffer_stream:
  assumes "list_all (\<lambda>p. client_packet p \<and> wf_packet p \<and> fits p) ps" and "broker_inv st"
  shows "\<exists>s rx st'.
    handle_all (tcp_dispatch env) (session, out_rx) ps st = (Inr (s, rx), st') \<and>
    process_buffer env session out_rx (concat (map wire_bytes ps)) st = (Inr (s, rx, []), st') \<and>
    broker_inv st'"
proof -
  have "extract_all [] = ([], None, [])"
    by (simp add: extract_all.simps extract_packet_def)
  then have "extract_all (concat (map wire_bytes ps)) = (ps, None, [])"
    using extract_all_wire [OF assms(1), of "[]"] by simp
  then show ?thesis
    using process_buffer_run [OF assms(2), of env session out_rx "concat (map wire_bytes ps)"]
    by (metis fst_conv snd_conv option.case(1))
qed

theorem process_buffer_stream_witness:
  "\<exists>s rx st'. process_buffer ideal_env None None
      (concat (map wire_bytes [Connect sample_connect, Pingreq, Disconnect])) broker_new
      = (Inr (s, rx, []), st')"
  using process_buffer_stream [OF _ broker_inv_new,
      of "[Connect sample_connect, Pingreq, Disconnect]" ideal_env None None]
    sample_connect_wf
  by (auto simp: fits_def connect_bytes_def opt_bytes_def sample_connect_def bytes_of_def
      u16_to_be_bytes_def)

text \<open>
  C20: Reads may cut the stream anywhere, as long as no read ends in an error: when a read
  leaves the connection open, a second read has the result one read of all the bytes would
  have had, for the connection, the broker and the errors.
\<close>

theorem reads_compose:
  assumes "broker_inv st" and "tcp_step env (TcpRead a) conn st = (TcpOpen conn', st')"
    and "b \<noteq> []"
  shows "tcp_step env (TcpRead (a @ b)) conn st = tcp_step env (TcpRead b) conn' st'"
proof -
  let ?buf = "tc_buf conn @ a"
  have a: "a \<noteq> []" using assms(2) by (auto split: if_splits)
  obtain ps err rest where all: "extract_all ?buf = (ps, err, rest)"
    by (cases "extract_all ?buf") auto
  obtain s rx st1 where run: "handle_all (tcp_dispatch env) (tc_session conn, tc_out_rx conn) ps st
        = (Inr (s, rx), st1)"
      "process_buffer env (tc_session conn) (tc_out_rx conn) ?buf st =
        ((case err of Some e \<Rightarrow> Inl e | None \<Rightarrow> Inr (s, rx, rest)), st1)"
    using process_buffer_run [OF assms(1), of env "tc_session conn" "tc_out_rx conn" ?buf] all
    by (metis fst_conv snd_conv)
  have err: "err = None"
    using assms(2) a run(2) by (auto split: option.splits)
  have conn': "conn' = conn\<lparr>tc_session := s, tc_out_rx := rx, tc_buf := rest\<rparr>" "st' = st1"
    using assms(2) a run(2) err by simp_all
  obtain qs e rest' where qs: "extract_all (rest @ b) = (qs, e, rest')"
    by (cases "extract_all (rest @ b)") auto
  have "extract_all (?buf @ b) = (ps @ qs, e, rest')"
    using extract_all_append [of ?buf ps rest b] all err qs by simp
  then have "process_buffer env (tc_session conn) (tc_out_rx conn) (?buf @ b) st
      = process_buffer env s rx (rest @ b) st1"
    unfolding process_buffer_eq using run(1) qs by (simp add: handle_all_append)
  then show ?thesis
    using a assms(3) conn' by (simp split: sum.split prod.split)
qed

theorem reads_compose_witness:
  "tcp_step ideal_env (TcpRead ([0xC0] @ [0])) tcp_new broker_new
     = tcp_step ideal_env (TcpRead [0]) (tcp_new\<lparr>tc_buf := [0xC0]\<rparr>) broker_new"
  by (rule reads_compose [OF broker_inv_new])
    (simp_all add: tcp_new_def process_buffer.simps extract_packet_def)

text \<open>
  C19: Partial reads, exactly: when a stream ends within a packet, the packets before it are
  handled, and the connection waits for the rest of the packet if only its first byte has
  arrived or its whole fixed header; if the cut falls inside the remaining length of the
  header, the connection is closed with a decoding error although nothing is wrong with the
  stream, and the broker is left as those packets made it, without a disconnect.
\<close>

theorem partial_read_exact:
  assumes "list_all (\<lambda>p. client_packet p \<and> wf_packet p \<and> fits p) ps" and "broker_inv st"
    and "fits p" and "n < length (wire_bytes p)" and "tc_buf conn = []"
    and "bytes = concat (map wire_bytes ps) @ take n (wire_bytes p)" and "bytes \<noteq> []"
  shows "\<exists>s rx st'.
    handle_all (tcp_dispatch env) (tc_session conn, tc_out_rx conn) ps st = (Inr (s, rx), st') \<and>
    tcp_step env (TcpRead bytes) conn st =
      (if n < 2 \<or> header_length p \<le> n
       then TcpOpen (conn\<lparr>tc_session := s, tc_out_rx := rx, tc_buf := take n (wire_bytes p)\<rparr>)
       else TcpDone (Inl (Decode ''Unexpected end of remaining length'')), st')"
proof -
  have "extract_all bytes = (ps, if n < 2 \<or> header_length p \<le> n then None
      else Some (Decode ''Unexpected end of remaining length''), take n (wire_bytes p))"
    using extract_all_wire [OF assms(1), of "take n (wire_bytes p)"]
      extract_all_partial [OF assms(3,4)] assms(6) by simp
  moreover obtain s rx st' where
    "handle_all (tcp_dispatch env) (tc_session conn, tc_out_rx conn) (fst (extract_all bytes)) st
      = (Inr (s, rx), st')"
    "process_buffer env (tc_session conn) (tc_out_rx conn) bytes st =
      ((case fst (snd (extract_all bytes)) of
          Some e \<Rightarrow> Inl e | None \<Rightarrow> Inr (s, rx, snd (snd (extract_all bytes)))), st')"
    by (rule process_buffer_run [OF assms(2)])
  ultimately show ?thesis
    using assms(5,7) by (intro exI [of _ s] exI [of _ rx] exI [of _ st']) simp
qed

text \<open>A PUBLISH of 131 bytes that arrives in reads of 2 and 129 bytes.\<close>

definition long_publish :: packet where
  "long_publish = Publish (message AtMostOnce [97] None (replicate 125 0))"

lemma long_publish_wire: "wire_bytes long_publish = [0x30, 0x80, 0x01, 0, 1, 97] @ replicate 125 0"
  by (simp add: wire_bytes_def frame_def long_publish_def publish_flags_def Let_def
      encode_remaining_length.simps u16_to_be_bytes_def)

theorem partial_read_exact_witness:
  "tcp_step ideal_env (TcpRead [0x30, 0x80]) tcp_new broker_new
     = (TcpDone (Inl (Decode ''Unexpected end of remaining length'')), broker_new)"
proof -
  have "header_length long_publish = 3" and "fits long_publish"
    by (simp_all add: header_length_def fits_def long_publish_def encode_remaining_length.simps
        Let_def)
  then show ?thesis
    using partial_read_exact [OF _ broker_inv_new, of "[]" long_publish 2 tcp_new _ ideal_env]
    by (simp add: long_publish_wire tcp_new_def)
qed

text \<open>
  C30: The end of a connection: at the end of the stream the client is disconnected from the
  broker, but a read error, a write error and a decoding error before any packet of that read
  return at once and leave the broker as it is, with the registration and the subscriptions of
  the session.
\<close>

theorem tcp_connection_end:
  assumes "tcp_step env ev conn st = (TcpDone res, st')" and "tc_session conn = Some r"
    and "\<And>bytes. ev = TcpRead bytes \<Longrightarrow> fst (extract_all (tc_buf conn @ bytes)) = []"
  shows "(if ev = TcpRead [] then res = Inr () \<and> st' = handle_disconnect r st
          else (\<exists>e. res = Inl e) \<and> st' = st) \<and>
    (ev = TcpRead [] \<longrightarrow> get_session (se_client_id (heap st r)) st' = None)"
proof (cases ev)
  case (TcpRead bytes)
  obtain err rest where "extract_all (tc_buf conn @ bytes) = ([], err, rest)"
    using assms(3) [OF TcpRead] by (cases "extract_all (tc_buf conn @ bytes)") auto
  then have "process_buffer env (tc_session conn) (tc_out_rx conn) (tc_buf conn @ bytes) st =
      (case err of Some e \<Rightarrow> (Inl e, st)
       | None \<Rightarrow> (Inr (tc_session conn, tc_out_rx conn, rest), st))"
    by (simp add: process_buffer_eq)
  then show ?thesis
    using assms(1,2) TcpRead
    by (auto simp: after_loop_def handle_disconnect_def remove_session_def get_session_def Let_def
        split: if_splits option.splits)
qed (use assms in \<open>auto split: sum.splits option.splits\<close>)

theorem tcp_connection_end_witness:
  "snd (tcp_step ideal_env (TcpReadError ''connection reset'')
     \<lparr>tc_session = Some 0, tc_out_rx = Some 0, tc_buf = [], tc_written = []\<rparr> one_subscriber)
     = one_subscriber \<and>
   get_session [99] one_subscriber = Some 0"
proof -
  have "tcp_step ideal_env (TcpReadError ''connection reset'')
      \<lparr>tc_session = Some 0, tc_out_rx = Some 0, tc_buf = [], tc_written = []\<rparr> one_subscriber
      = (TcpDone (Inl (Io ''connection reset'')), one_subscriber)" by simp
  from tcp_connection_end [OF this, of 0]
  have "snd (tcp_step ideal_env (TcpReadError ''connection reset'')
     \<lparr>tc_session = Some 0, tc_out_rx = Some 0, tc_buf = [], tc_written = []\<rparr> one_subscriber)
     = one_subscriber" by simp
  then show ?thesis
    by (simp add: one_subscriber_def alloc_session_def register_session_def broker_new_def
        session_new_def get_session_def Let_def)
qed

text \<open>
  Whatever bytes arrive, and in whatever pieces, a read keeps the broker's invariant and
  can end the connection only with a decoding error or at the end of the stream; the protocol
  errors of the packet handler do not occur.
\<close>

theorem tcp_read_safe:
  assumes "broker_inv st" and "tcp_step env (TcpRead bytes) conn st = (status, st')"
  shows "broker_inv st' \<and>
    (case status of
       TcpOpen conn' \<Rightarrow> bytes \<noteq> []
     | TcpDone (Inr _) \<Rightarrow> bytes = []
     | TcpDone (Inl e) \<Rightarrow> \<exists>m. e = Decode m)"
proof
  show "broker_inv st'"
    using broker_inv_tcp_step [OF assms(1), of env "TcpRead bytes" conn] assms(2) by simp
next
  obtain ps err rest where all: "extract_all (tc_buf conn @ bytes) = (ps, err, rest)"
    by (cases "extract_all (tc_buf conn @ bytes)") auto
  obtain s rx st1 where "process_buffer env (tc_session conn) (tc_out_rx conn)
      (tc_buf conn @ bytes) st =
      ((case fst (snd (extract_all (tc_buf conn @ bytes))) of
          Some e \<Rightarrow> Inl e | None \<Rightarrow> Inr (s, rx, snd (snd (extract_all (tc_buf conn @ bytes))))), st1)"
    by (rule process_buffer_run [OF assms(1)])
  then show "case status of TcpOpen conn' \<Rightarrow> bytes \<noteq> [] | TcpDone (Inr _) \<Rightarrow> bytes = []
      | TcpDone (Inl e) \<Rightarrow> \<exists>m. e = Decode m"
    using assms(2) all extract_all_error [of "tc_buf conn @ bytes" ps]
    by (auto split: if_splits option.splits)
qed

theorem tcp_read_safe_witness:
  "broker_inv (snd (tcp_step ideal_env (TcpRead [0xFF, 0]) tcp_new broker_new))"
proof -
  obtain status st' where *: "tcp_step ideal_env (TcpRead [0xFF, 0]) tcp_new broker_new
      = (status, st')" by (cases "tcp_step ideal_env (TcpRead [0xFF, 0]) tcp_new broker_new") auto
  from tcp_read_safe [OF broker_inv_new *] show ?thesis unfolding * by simp
qed

end
