(* ===== verification/Ws_Server.thy ===== *)
theory Ws_Server
  imports Dispatch
begin

text \<open>
  A WebSocket connection (\<open>src/src/server/ws.rs\<close>): the loop of \<open>handle_ws\<close>. One
  iteration is a step on an event: what \<open>receiver.next()\<close> returned, or a packet from the
  session's channel. The upgrade, the routing and the frames themselves are axum's.
\<close>

section \<open>The connection\<close>

text \<open>The messages the server sends, and the locals of \<open>handle_ws\<close>.\<close>

datatype ws_message = Pong "u8 list" | Binary "u8 list"

record ws_connection =
  wc_session :: "nat option"
  wc_out_rx :: "nat option"
  wc_sent :: "ws_message list"

definition ws_new :: ws_connection where
  "ws_new = \<lparr>wc_session = None, wc_out_rx = None, wc_sent = []\<rparr>"

text \<open>
  The events: \<open>WsEnd\<close> is \<open>None\<close>, \<open>WsOther\<close> a text or pong message. Where the
  server sends in answer, the event says whether \<open>sender.send\<close> succeeded.
\<close>

datatype ws_event =
    WsBinary "u8 list"
  | WsClose
  | WsEnd
  | WsPing "u8 list" bool
  | WsError string
  | WsOther
  | WsRecv packet bool

datatype ws_status = WsOpen ws_connection | WsDone

text \<open>\<open>break\<close> and the code behind the loop.\<close>

definition ws_break :: "ws_connection \<Rightarrow> broker_state \<Rightarrow> ws_status \<times> broker_state" where
  "ws_break conn st =
     (WsDone, case wc_session conn of Some r \<Rightarrow> handle_disconnect r st | None \<Rightarrow> st)"

definition ws_send :: "ws_message \<Rightarrow> ws_connection \<Rightarrow> ws_connection" where
  "ws_send m conn = conn\<lparr>wc_sent := wc_sent conn @ [m]\<rparr>"

fun ws_step ::
  "environment \<Rightarrow> ws_event \<Rightarrow> ws_connection \<Rightarrow> broker_state \<Rightarrow> ws_status \<times> broker_state" where
  "ws_step env (WsBinary data) conn st =
     (case decode data of
        Inr (packet, rest) \<Rightarrow>
          (let current_sess = wc_session conn;
               current_rx = wc_out_rx conn;
               conn = conn\<lparr>wc_out_rx := None\<rparr>
           in case handle_ws_packet env current_sess current_rx packet st of
                (Inr (sess, rx), st) \<Rightarrow>
                  (WsOpen (conn\<lparr>wc_session := sess, wc_out_rx := rx\<rparr>), st)
              | (Inl e, st) \<Rightarrow> ws_break conn st)
      | Inl e \<Rightarrow> ws_break conn st)"
| "ws_step env WsClose conn st = ws_break conn st"
| "ws_step env WsEnd conn st = ws_break conn st"
| "ws_step env (WsPing data sent) conn st =
     (let conn = ws_send (Pong data) conn
      in if \<not> sent then ws_break conn st else (WsOpen conn, st))"
| "ws_step env (WsError e) conn st = ws_break conn st"
| "ws_step env WsOther conn st = (WsOpen conn, st)"
| "ws_step env (WsRecv packet sent) conn st =
     (case encode packet of
        Inr data \<Rightarrow>
          (let conn = ws_send (Binary data) conn
           in if \<not> sent then ws_break conn st else (WsOpen conn, st))
      | Inl e \<Rightarrow> (WsOpen conn, st))"

lemma ws_break_eq:
  "ws_break conn st =
     (WsDone, case wc_session conn of Some r \<Rightarrow> handle_disconnect r st | None \<Rightarrow> st)"
  by (simp add: ws_break_def)

lemma ws_send_fields [simp]:
  "wc_session (ws_send m conn) = wc_session conn" "wc_out_rx (ws_send m conn) = wc_out_rx conn"
  "wc_sent (ws_send m conn) = wc_sent conn @ [m]"
  by (simp_all add: ws_send_def)

text \<open>A binary frame in terms of the dispatch the two servers share.\<close>

lemma ws_step_binary:
  "ws_step env (WsBinary data) conn st =
     (case decode data of
        Inl e \<Rightarrow> ws_break conn st
      | Inr (p, rest) \<Rightarrow>
          (case tcp_dispatch env (wc_session conn, wc_out_rx conn) p st of
             (Inl e, st) \<Rightarrow> ws_break conn st
           | (Inr (s, rx), st) \<Rightarrow> (WsOpen (conn\<lparr>wc_session := s, wc_out_rx := rx\<rparr>), st)))"
  by (simp add: tcp_dispatch_def handle_ws_packet_eq ws_break_def Let_def
      split: sum.split prod.split)

lemma ws_binary_run:
  assumes "decode data = Inr (p, rest)" and "broker_inv st"
  obtains s rx st' where
    "tcp_dispatch env (wc_session conn, wc_out_rx conn) p st = (Inr (s, rx), st')"
    and "broker_inv st'"
    and "ws_step env (WsBinary data) conn st
      = (WsOpen (conn\<lparr>wc_session := s, wc_out_rx := rx\<rparr>), st')"
proof -
  obtain c st' where c: "tcp_dispatch env (wc_session conn, wc_out_rx conn) p st = (Inr c, st')"
    and inv: "broker_inv st'"
    by (rule tcp_packets.handle_decoded [OF assms])
  obtain s rx where "c = (s, rx)" by (cases c)
  with that [of s rx st'] c inv assms(1) show ?thesis by (simp add: ws_step_binary del: ws_step.simps)
qed

lemma broker_inv_ws_step:
  assumes "broker_inv st"
  shows "broker_inv (snd (ws_step env ev conn st))"
proof (cases ev)
  case (WsBinary data)
  show ?thesis
  proof (cases "decode data")
    case (Inl e)
    with WsBinary assms show ?thesis
      by (simp add: ws_break_def broker_inv_disconnect split: option.split)
  next
    case (Inr pr)
    then obtain p rest where "decode data = Inr (p, rest)" by (cases pr) auto
    then obtain s rx st' where "broker_inv st'" "ws_step env (WsBinary data) conn st
        = (WsOpen (conn\<lparr>wc_session := s, wc_out_rx := rx\<rparr>), st')"
      using assms by (rule ws_binary_run)
    with WsBinary show ?thesis by simp
  qed
qed (use assms in \<open>auto simp: ws_break_def broker_inv_disconnect Let_def
      split: sum.split option.split\<close>)

section \<open>Properties\<close>

text \<open>
  A frame that holds one packet is handled like a TCP packet: for a frame that is the wire
  form of a well-formed client packet, the connection stays open with the session and receiver,
  and the broker gets the state, that the TCP server's handling of this packet gives.
\<close>

theorem ws_frame_handled:
  assumes "client_packet p" and "wf_packet p" and "fits p" and "broker_inv st"
  shows "\<exists>s rx ka st'.
    handle_packet env (wc_session conn) (wc_out_rx conn) p st = (Inr (s, rx, ka), st') \<and>
    ws_step env (WsBinary (wire_bytes p)) conn st
      = (WsOpen (conn\<lparr>wc_session := s, wc_out_rx := rx\<rparr>), st') \<and>
    broker_inv st'"
proof -
  obtain s rx st' where "tcp_dispatch env (wc_session conn, wc_out_rx conn) p st
      = (Inr (s, rx), st')" and "broker_inv st'"
    "ws_step env (WsBinary (wire_bytes p)) conn st
      = (WsOpen (conn\<lparr>wc_session := s, wc_out_rx := rx\<rparr>), st')"
    using decode_wire_exact [OF assms(1-3)] assms(4) by (rule ws_binary_run)
  then show ?thesis
    by (auto simp: tcp_dispatch_def split: prod.splits sum.splits)
qed

theorem ws_frame_handled_witness:
  "\<exists>s rx st'. ws_step ideal_env (WsBinary (wire_bytes (Connect sample_connect))) ws_new broker_new
     = (WsOpen (ws_new\<lparr>wc_session := s, wc_out_rx := rx\<rparr>), st')"
  using ws_frame_handled [OF _ sample_connect_wf _ broker_inv_new, of ideal_env ws_new]
  by (auto simp: fits_def connect_bytes_def opt_bytes_def sample_connect_def bytes_of_def
      u16_to_be_bytes_def)

text \<open>
  C29: However a WebSocket connection ends (a close or an error of the socket, a failed send, a
  frame that does not decode), its client is disconnected from the broker and nothing else
  changes.
\<close>

theorem ws_connection_end:
  assumes "broker_inv st" and "ws_step env ev conn st = (WsDone, st')"
  shows "st' = (case wc_session conn of Some r \<Rightarrow> handle_disconnect r st | None \<Rightarrow> st)"
proof (cases ev)
  case (WsBinary data)
  have "\<exists>e. decode data = Inl e"
  proof (rule ccontr)
    assume "\<not> ?thesis"
    then obtain p rest where "decode data = Inr (p, rest)" by (cases "decode data") auto
    then obtain s rx st1 where "ws_step env (WsBinary data) conn st
        = (WsOpen (conn\<lparr>wc_session := s, wc_out_rx := rx\<rparr>), st1)"
      using assms(1) by (rule ws_binary_run)
    with assms(2) WsBinary show False by simp
  qed
  with assms(2) WsBinary show ?thesis by (auto simp: ws_break_def)
qed (use assms(2) in \<open>auto simp: ws_break_def Let_def split: sum.splits if_splits\<close>)

theorem ws_connection_end_witness:
  "get_session [99] (snd (ws_step ideal_env (WsBinary [0xFF, 0])
     \<lparr>wc_session = Some 0, wc_out_rx = Some 0, wc_sent = []\<rparr> one_subscriber)) = None"
proof -
  let ?conn = "\<lparr>wc_session = Some 0, wc_out_rx = Some 0, wc_sent = []\<rparr>"
  obtain st' where *: "ws_step ideal_env (WsBinary [0xFF, 0]) ?conn one_subscriber = (WsDone, st')"
    by (simp add: decode_def decode_fixed_header_def packet_type_try_from_u8_def Let_def
        ws_break_def)
  have "se_client_id (heap one_subscriber 0) = [99]"
    by (simp add: one_subscriber_def alloc_session_def register_session_def broker_new_def
        session_new_def Let_def)
  with ws_connection_end [OF one_subscriber_inv *] * show ?thesis
    by (simp add: handle_disconnect_def remove_session_def get_session_def Let_def del: ws_step.simps)
qed

text \<open>
  C36: One frame is one packet, even when it holds more: a frame with the wire forms of several
  packets of which the first is a PUBLISH is handled as a single PUBLISH whose payload contains
  the bytes of all the others.
\<close>

theorem ws_frame_swallows:
  assumes "wf_publish p" and "fits (Publish p)" and "broker_inv st"
  shows "\<exists>s rx ka st'.
    handle_packet env (wc_session conn) (wc_out_rx conn)
      (Publish (p\<lparr>pp_payload := pp_payload p @ concat (map wire_bytes ps)\<rparr>)) st
      = (Inr (s, rx, ka), st') \<and>
    ws_step env (WsBinary (concat (map wire_bytes (Publish p # ps)))) conn st
      = (WsOpen (conn\<lparr>wc_session := s, wc_out_rx := rx\<rparr>), st')"
proof -
  let ?q = "p\<lparr>pp_payload := pp_payload p @ concat (map wire_bytes ps)\<rparr>"
  have "decode (concat (map wire_bytes (Publish p # ps))) = Inr (Publish ?q, [])"
    using decode_behind_header [OF assms(2)] decode_publish_bytes [OF assms(1)]
    by (simp add: wire_header_def)
  then obtain s rx st' where "tcp_dispatch env (wc_session conn, wc_out_rx conn) (Publish ?q) st
      = (Inr (s, rx), st')"
    "ws_step env (WsBinary (concat (map wire_bytes (Publish p # ps)))) conn st
      = (WsOpen (conn\<lparr>wc_session := s, wc_out_rx := rx\<rparr>), st')"
    using assms(3) by (rule ws_binary_run)
  then show ?thesis
    by (auto simp: tcp_dispatch_def split: prod.splits sum.splits)
qed

theorem ws_frame_swallows_witness:
  "\<exists>s rx st'. ws_step ideal_env (WsBinary (concat (map wire_bytes
      (Publish (message AtMostOnce [97] None [1]) # [Disconnect])))) ws_new broker_new
    = (WsOpen (ws_new\<lparr>wc_session := s, wc_out_rx := rx\<rparr>), st')"
  using ws_frame_swallows [OF _ _ broker_inv_new, of "message AtMostOnce [97] None [1]" ideal_env
      ws_new "[Disconnect]"]
  by (auto simp: wf_publish_def wf_string_def utf8_valid_def fits_def simp del: ws_step.simps)

end
