(* ===== verification/Server_Tasks.thy ===== *)
theory Server_Tasks
  imports Broker_Tasks Tcp_Server Ws_Server
begin

text \<open>
  One iteration of the loop of a connection as a task (\<open>handle_connection\<close> of
  \<open>src/src/server/tcp.rs\<close>, \<open>handle_ws\<close> of \<open>src/src/server/ws.rs\<close>): the packets
  of a read are handled one after the other, each by its critical sections. The result is the
  status of the connection after the iteration. \<open>handle_ws_packet\<close> makes the calls of
  \<open>handle_packet\<close>, so both servers use \<open>packet_task\<close>.
\<close>

section \<open>TCP\<close>

text \<open>\<open>while let Some(packet_result) = extract_packet(&mut buf)\<close>\<close>

function process_buffer_task ::
  "environment \<Rightarrow> nat option \<Rightarrow> nat option \<Rightarrow> u8 list
    \<Rightarrow> (broker_error + nat option \<times> nat option \<times> u8 list) broker_task" where
  "process_buffer_task env session out_rx buf =
     (case extract_packet buf of
        (None, buf) \<Rightarrow> Return (Inr (session, out_rx, buf))
      | (Some (Inl e), buf) \<Rightarrow> Return (Inl e)
      | (Some (Inr packet), buf) \<Rightarrow>
          packet_task env session out_rx packet (\<lambda>sess rx. process_buffer_task env sess rx buf))"
  by pat_completeness auto
termination
  by (relation "measure (\<lambda>(env, session, out_rx, buf). length buf)")
    (auto dest: sym extract_packet_shrinks)

declare process_buffer_task.simps [simp del]

fun tcp_task :: "environment \<Rightarrow> tcp_event \<Rightarrow> tcp_connection \<Rightarrow> tcp_status broker_task" where
  "tcp_task env (TcpRead bytes) conn =
     (let (n, buf) = read_async bytes (tc_buf conn)
      in if n = 0 then if_session (tc_session conn) handle_disconnect_task (Return (TcpDone (Inr ())))
         else and_then (process_buffer_task env (tc_session conn) (tc_out_rx conn) buf) (\<lambda>result.
           Return (case result of
             Inl e \<Rightarrow> TcpDone (Inl e)
           | Inr (session, out_rx, buf) \<Rightarrow>
               TcpOpen (conn\<lparr>tc_session := session, tc_out_rx := out_rx, tc_buf := buf\<rparr>))))"
| "tcp_task env (TcpReadError e) conn = Return (TcpDone (Inl (Io e)))"
| "tcp_task env (TcpRecv packet write_error) conn =
     Return (case encode packet of
        Inl e \<Rightarrow> TcpDone (Inl e)
      | Inr data \<Rightarrow>
          (case write_error of
             Some e \<Rightarrow> TcpDone (Inl (Io e))
           | None \<Rightarrow> TcpOpen (conn\<lparr>tc_written := tc_written conn @ data\<rparr>)))"

section \<open>WebSocket\<close>

definition ws_break_task :: "ws_connection \<Rightarrow> ws_status broker_task" where
  "ws_break_task conn = if_session (wc_session conn) handle_disconnect_task (Return WsDone)"

fun ws_task :: "environment \<Rightarrow> ws_event \<Rightarrow> ws_connection \<Rightarrow> ws_status broker_task" where
  "ws_task env (WsBinary data) conn =
     (case decode data of
        Inr (packet, rest) \<Rightarrow>
          and_then (packet_task env (wc_session conn) (wc_out_rx conn) packet
              (\<lambda>sess rx. Return (Inr (sess, rx)))) (\<lambda>result.
            case result of
              Inr (sess, rx) \<Rightarrow> Return (WsOpen (conn\<lparr>wc_session := sess, wc_out_rx := rx\<rparr>))
            | Inl e \<Rightarrow> ws_break_task (conn\<lparr>wc_out_rx := None\<rparr>))
      | Inl e \<Rightarrow> ws_break_task conn)"
| "ws_task env WsClose conn = ws_break_task conn"
| "ws_task env WsEnd conn = ws_break_task conn"
| "ws_task env (WsPing data sent) conn =
     (let conn = ws_send (Pong data) conn
      in if \<not> sent then ws_break_task conn else Return (WsOpen conn))"
| "ws_task env (WsError e) conn = ws_break_task conn"
| "ws_task env WsOther conn = Return (WsOpen conn)"
| "ws_task env (WsRecv packet sent) conn =
     (case encode packet of
        Inr data \<Rightarrow>
          (let conn = ws_send (Binary data) conn
           in if \<not> sent then ws_break_task conn else Return (WsOpen conn))
      | Inl e \<Rightarrow> Return (WsOpen conn))"

section \<open>Refinement\<close>

lemma alone_process_buffer:
  "run_alone (process_buffer_task env session rx buf) st = process_buffer env session rx buf st"
proof (induction env session rx buf st rule: process_buffer.induct)
  case (1 env session rx buf st)
  obtain r buf' where ex: "extract_packet buf = (r, buf')"
    by (cases "extract_packet buf") auto
  show ?case
  proof (cases "\<exists>p. r = Some (Inr p)")
    case True
    then obtain p where r: "r = Some (Inr p)" by blast
    obtain res st' where hp: "handle_packet env session rx p st = (res, st')"
      by (cases "handle_packet env session rx p st") auto
    show ?thesis
    proof (cases res)
      case (Inr c)
      obtain s rx' ka where c: "c = (s, rx', ka)" by (cases c) auto
      have "run_alone (process_buffer_task env s rx' buf') st' = process_buffer env s rx' buf' st'"
        by (rule "1.IH" [OF ex [symmetric] r refl hp [symmetric] Inr c [symmetric] refl])
      then show ?thesis
        using ex r hp Inr c
        by (simp add: process_buffer_task.simps [of env session rx buf] alone_packet
            process_buffer.simps [of env session rx buf] tcp_dispatch_def)
    qed (use ex r hp in \<open>simp add: process_buffer_task.simps [of env session rx buf] alone_packet
        process_buffer.simps [of env session rx buf] tcp_dispatch_def\<close>)
  qed (use ex in \<open>simp add: process_buffer_task.simps [of env session rx buf]
        process_buffer.simps [of env session rx buf] split: option.split sum.split\<close>)
qed

lemma alone_after_loop:
  "run_alone (if_session session handle_disconnect_task k) st = run_alone k (after_loop session st)"
  by (cases session) (simp_all add: if_session_def after_loop_def alone)

lemma alone_tcp_task: "run_alone (tcp_task env ev conn) st = tcp_step env ev conn st"
  by (cases ev)
    (simp_all add: run_alone_and_then alone_process_buffer alone_after_loop split_def Let_def
      split: sum.split option.split)

lemma alone_ws_break: "run_alone (ws_break_task conn) st = ws_break conn st"
  by (simp add: ws_break_task_def ws_break_def alone_after_loop) (simp add: after_loop_def)

lemma alone_ws_task: "run_alone (ws_task env ev conn) st = ws_step env ev conn st"
proof (cases ev)
  case (WsBinary data)
  then show ?thesis
    by (auto simp: run_alone_and_then alone_packet ws_step_binary alone_ws_break ws_break_def
        split: sum.split prod.split simp del: ws_step.simps)
qed (simp_all add: alone_ws_break Let_def split: sum.split)

end
