(* ===== verification/Views.thy ===== *)
theory Views
  imports Tcp_Server Ws_Server
begin

text \<open>
  Channels, and what a connection of either transport shows of itself: its session, its receiver
  and the packets it has put out. An unbounded channel is the list of the packets sent
  successfully to it, together with the number its receiver has taken.
\<close>

section \<open>Channels\<close>

definition channel :: "environment \<Rightarrow> (sender \<times> packet) list \<Rightarrow> nat \<Rightarrow> packet list" where
  "channel env log r =
     map (\<lambda>x. snd (snd x))
       (filter (\<lambda>x. fst (snd x) = Tx r \<and> send_ok env (fst x)) (enumerate 0 log))"

text \<open>
  \<open>recv_from_session\<close> and \<open>recv_from_ws_session\<close>: without a receiver, or while the
  channel is empty, the future is pending.
\<close>

definition recv_from_session ::
  "environment \<Rightarrow> (sender \<times> packet) list \<Rightarrow> (nat \<Rightarrow> nat) \<Rightarrow> nat option \<Rightarrow> packet option" where
  "recv_from_session env log taken rx =
     (case rx of
        Some r \<Rightarrow> (if taken r < length (channel env log r) then Some (channel env log r ! taken r)
                   else None)
      | None \<Rightarrow> None)"

definition recv_from_ws_session ::
  "environment \<Rightarrow> (sender \<times> packet) list \<Rightarrow> (nat \<Rightarrow> nat) \<Rightarrow> nat option \<Rightarrow> packet option" where
  "recv_from_ws_session env log taken rx =
     (case rx of
        Some r \<Rightarrow> (if taken r < length (channel env log r) then Some (channel env log r ! taken r)
                   else None)
      | None \<Rightarrow> None)"

lemma recv_from_ws_session_eq [simp]: "recv_from_ws_session = recv_from_session"
  by (intro ext) (simp add: recv_from_ws_session_def recv_from_session_def)

lemma set_channel: "p \<in> set (channel env log r) \<Longrightarrow> \<exists>tx. (tx, p) \<in> set log"
proof -
  assume "p \<in> set (channel env log r)"
  then obtain k tx where "(k, tx, p) \<in> set (enumerate 0 log)"
    by (auto simp: channel_def)
  then have "snd (k, tx, p) \<in> set (map snd (enumerate 0 log))"
    unfolding set_map by (rule imageI)
  then show ?thesis by auto
qed

lemma channel_append: "\<exists>ys. channel env (log @ xs) r = channel env log r @ ys"
  by (simp add: channel_def enumerate_append_eq)

lemma take_channel_append:
  "n \<le> length (channel env log r) \<Longrightarrow>
     take n (channel env (log @ xs) r) = take n (channel env log r) \<and>
     n \<le> length (channel env (log @ xs) r)"
  using channel_append [of env log xs r] by auto

section \<open>What the handlers leave alone\<close>

text \<open>Calls are only added, and references are only allocated.\<close>

definition grows :: "broker_state \<Rightarrow> broker_state \<Rightarrow> bool" where
  "grows st st' \<longleftrightarrow> (\<exists>xs. calls st' = calls st @ xs) \<and> next_ref st \<le> next_ref st'"

lemma grows_refl [simp]: "grows st st"
  by (simp add: grows_def)

lemma grows_trans [trans]: "grows st st' \<Longrightarrow> grows st' st'' \<Longrightarrow> grows st st''"
  by (auto simp: grows_def)

lemma grows_simple:
  "grows st (handle_unsubscribe r u st)" "grows st (handle_disconnect r st)"
  "grows st (update_session r f st)" "grows st (handle_puback r i st)"
  "grows st (handle_pubcomp r i st)"
  by (simp_all add: grows_def handle_unsubscribe_def handle_disconnect_def remove_session_def
      update_session_def handle_puback_def handle_pubcomp_def Let_def)

text \<open>
  The session and the receiver of a connection stay, are dropped, or become those of a session
  that has just been created.
\<close>

definition moves :: "broker_state \<Rightarrow> broker_state \<Rightarrow> nat option \<times> nat option \<Rightarrow> nat option \<times> nat option \<Rightarrow> bool"
  where
  "moves st st' c c' \<longleftrightarrow> grows st st' \<and>
     (c' = c \<or> c' = (None, None) \<or>
      (\<exists>r. next_ref st \<le> r \<and> r < next_ref st' \<and> c' = (Some r, Some r)))"

lemma moves_same: "grows st st' \<Longrightarrow> moves st st' c c"
  by (simp add: moves_def)

lemma sendable_encode: "sendable p \<Longrightarrow> encode p = Inr (wire_bytes p)"
  by (intro encode_wire, cases p) (auto simp: sendable_def encodable_def wf_publish_def)

section \<open>An abstract view of the connections\<close>

text \<open>
  What the system promises does not depend on the transport. The view of an open connection
  is its session, its receiver and the bytes of MQTT packets it has put out.
\<close>

type_synonym view = "nat option \<times> nat option \<times> u8 list"

fun binary_data :: "ws_message \<Rightarrow> u8 list" where
  "binary_data (Binary d) = d"
| "binary_data (Pong d) = []"

fun tcp_view :: "tcp_status option \<Rightarrow> view option" where
  "tcp_view (Some (TcpOpen c)) = Some (tc_session c, tc_out_rx c, tc_written c)"
| "tcp_view _ = None"

fun ws_view :: "ws_status option \<Rightarrow> view option" where
  "ws_view (Some (WsOpen c)) =
     Some (wc_session c, wc_out_rx c, concat (map binary_data (wc_sent c)))"
| "ws_view _ = None"

fun views ::
  "(nat \<Rightarrow> tcp_status option) \<Rightarrow> (nat \<Rightarrow> ws_status option) \<Rightarrow> nat + nat \<Rightarrow> view option" where
  "views T W (Inl i) = tcp_view (T i)"
| "views T W (Inr i) = ws_view (W i)"

type_synonym abstract = "broker_state \<times> (nat \<Rightarrow> nat) \<times> (nat + nat \<Rightarrow> view option)"

inductive view_step :: "environment \<Rightarrow> abstract \<Rightarrow> abstract \<Rightarrow> bool" for env where
  accept: "V a = None \<Longrightarrow> view_step env (B, t, V) (B, t, V(a \<mapsto> (None, None, [])))"
| inputs: "V a = Some (se, rx, out) \<Longrightarrow> moves B B' (se, rx) (se', rx') \<Longrightarrow> broker_inv B' \<Longrightarrow>
    view_step env (B, t, V) (B', t, V(a \<mapsto> (se', rx', out)))"
| outputs: "V a = Some (se, Some r, out) \<Longrightarrow> recv_from_session env (calls B) t (Some r) = Some p \<Longrightarrow>
    view_step env (B, t, V)
      (B, t(r := Suc (t r)), V(a \<mapsto> (se, Some r, out @ wire_bytes p)))"
| closed: "V a = Some v \<Longrightarrow> grows B B' \<Longrightarrow> broker_inv B' \<Longrightarrow>
    t' = t \<or> (\<exists>se r out p. v = (se, Some r, out) \<and>
      recv_from_session env (calls B) t (Some r) = Some p \<and> t' = t(r := Suc (t r))) \<Longrightarrow>
    view_step env (B, t, V) (B', t', V(a := None))"

lemma recv_sendable:
  assumes "broker_inv B" and "recv_from_session env (calls B) t rx = Some p"
  shows "sendable p"
proof -
  obtain r where "p \<in> set (channel env (calls B) r)"
    using assms(2) nth_mem
    by (fastforce simp: recv_from_session_def split: option.splits if_splits)
  then obtain tx where "(tx, p) \<in> set (calls B)" by (auto dest: set_channel)
  with broker_invD(5) [OF assms(1)] show ?thesis by (auto simp: list_all_iff)
qed

section \<open>The invariant of the views\<close>

text \<open>The packets a connection has taken from the channel of its session.\<close>

definition taken_packets ::
  "environment \<Rightarrow> broker_state \<Rightarrow> (nat \<Rightarrow> nat) \<Rightarrow> nat option \<Rightarrow> packet list" where
  "taken_packets env B t rx =
     (case rx of None \<Rightarrow> [] | Some r \<Rightarrow> take (t r) (channel env (calls B) r))"

text \<open>
  A connection's receiver is that of its session, an allocated one, and its output is a
  sequence of whole packets that ends with those taken from this session's channel, in order.
\<close>

fun view_ok :: "environment \<Rightarrow> broker_state \<Rightarrow> (nat \<Rightarrow> nat) \<Rightarrow> view \<Rightarrow> bool" where
  "view_ok env B t (se, rx, out) \<longleftrightarrow>
     rx = se \<and> (\<forall>r. rx = Some r \<longrightarrow> r < next_ref B) \<and>
     (\<exists>prior. list_all sendable prior \<and>
        out = concat (map wire_bytes (prior @ taken_packets env B t rx)))"

fun view_inv :: "environment \<Rightarrow> abstract \<Rightarrow> bool" where
  "view_inv env (B, t, V) \<longleftrightarrow>
     broker_inv B \<and>
     (\<forall>r. t r \<le> length (channel env (calls B) r)) \<and>
     (\<forall>r. next_ref B \<le> r \<longrightarrow> t r = 0) \<and>
     (\<forall>a v. V a = Some v \<longrightarrow> view_ok env B t v) \<and>
     (\<forall>a b v w r. V a = Some v \<and> V b = Some w \<and> fst (snd v) = Some r \<and> fst (snd w) = Some r
        \<longrightarrow> a = b)"

lemma view_invD:
  assumes "view_inv env (B, t, V)"
  shows "broker_inv B" and "t r \<le> length (channel env (calls B) r)"
    and "next_ref B \<le> r \<Longrightarrow> t r = 0" and "V a = Some v \<Longrightarrow> view_ok env B t v"
    and "V a = Some v \<Longrightarrow> V b = Some w \<Longrightarrow> fst (snd v) = Some r \<Longrightarrow> fst (snd w) = Some r \<Longrightarrow>
      a = b"
  using assms unfolding view_inv.simps by blast+

lemma view_invI:
  assumes "broker_inv B" and "\<And>r. t r \<le> length (channel env (calls B) r)"
    and "\<And>r. next_ref B \<le> r \<Longrightarrow> t r = 0" and "\<And>a v. V a = Some v \<Longrightarrow> view_ok env B t v"
    and "\<And>a b v w r. V a = Some v \<Longrightarrow> V b = Some w \<Longrightarrow> fst (snd v) = Some r \<Longrightarrow>
      fst (snd w) = Some r \<Longrightarrow> a = b"
  shows "view_inv env (B, t, V)"
  using assms unfolding view_inv.simps by blast

lemma sendable_channel: "broker_inv B \<Longrightarrow> list_all sendable (channel env (calls B) r)"
  using broker_invD(5) [of B] by (fastforce simp: list_all_iff dest: set_channel)

lemma sendable_taken: "broker_inv B \<Longrightarrow> list_all sendable (taken_packets env B t rx)"
  using sendable_channel [of B env]
  by (auto simp: taken_packets_def list_all_iff dest: in_set_takeD split: option.splits)

lemma taken_grows:
  "grows B B' \<Longrightarrow> (\<And>r. t r \<le> length (channel env (calls B) r)) \<Longrightarrow>
     taken_packets env B' t rx = taken_packets env B t rx"
  using take_channel_append by (fastforce simp: taken_packets_def grows_def split: option.splits)

lemma view_ok_grows:
  "view_ok env B t v \<Longrightarrow> grows B B' \<Longrightarrow> (\<And>r. t r \<le> length (channel env (calls B) r)) \<Longrightarrow>
     view_ok env B' t v"
  by (cases v) (auto simp: taken_grows grows_def intro: less_le_trans)

lemma view_ok_other:
  "fst (snd v) \<noteq> Some r \<Longrightarrow> view_ok env B (t(r := n)) v \<longleftrightarrow> view_ok env B t v"
  by (cases v) (auto simp: taken_packets_def split: option.splits)

lemma length_channel_grows:
  "grows B B' \<Longrightarrow> n \<le> length (channel env (calls B) r) \<Longrightarrow>
     n \<le> length (channel env (calls B') r)"
  using take_channel_append [of n env "calls B" r] by (auto simp: grows_def)

lemma view_ok_moves:
  assumes ok: "view_ok env B t (se, rx, out)" and "broker_inv B"
    and m: "moves B B' (se, rx) (se', rx')"
    and t: "\<And>r. t r \<le> length (channel env (calls B) r)" "\<And>r. next_ref B \<le> r \<Longrightarrow> t r = 0"
  shows "view_ok env B' t (se', rx', out)"
proof -
  have g: "grows B B'" using m by (simp add: moves_def)
  obtain prior where prior: "list_all sendable (prior @ taken_packets env B t rx)"
    "out = concat (map wire_bytes (prior @ taken_packets env B t rx))"
    using ok sendable_taken [OF assms(2)] by auto
  consider "(se', rx') = (se, rx)" | "(se', rx') = (None, None)"
    | r where "next_ref B \<le> r" "r < next_ref B'" "(se', rx') = (Some r, Some r)"
    using m by (auto simp: moves_def)
  then show ?thesis
  proof cases
    case 1
    with view_ok_grows [OF ok g t(1)] show ?thesis by (simp del: view_ok.simps)
  next
    case 2
    moreover have "taken_packets env B' t None = []" by (simp add: taken_packets_def)
    ultimately show ?thesis
      using prior by (simp, intro exI [of _ "prior @ taken_packets env B t rx"]) simp
  next
    case 3
    moreover have "taken_packets env B' t (Some r) = []"
      using t(2) [OF 3(1)] by (simp add: taken_packets_def)
    ultimately show ?thesis
      using prior by (simp, intro exI [of _ "prior @ taken_packets env B t rx"]) simp
  qed
qed

lemma view_ok_new: "view_ok env B t (None, None, [])"
  by (simp add: taken_packets_def) (intro exI [of _ "[]"], simp)

lemma view_ok_output:
  assumes "view_ok env B t (se, Some r, out)"
    and "recv_from_session env (calls B) t (Some r) = Some p"
  shows "view_ok env B (t(r := Suc (t r))) (se, Some r, out @ wire_bytes p)"
proof -
  have "t r < length (channel env (calls B) r)" and "p = channel env (calls B) r ! t r"
    using assms(2) by (auto simp: recv_from_session_def split: if_splits)
  then have "taken_packets env B (t(r := Suc (t r))) (Some r) = taken_packets env B t (Some r) @ [p]"
    by (simp add: taken_packets_def take_Suc_conv_app_nth)
  with assms(1) show ?thesis by auto
qed

lemma view_inv_step:
  assumes "view_step env x y" and "view_inv env x"
  shows "view_inv env y"
  using assms
proof (induction rule: view_step.induct)
  case (accept V a B t)
  then show ?case by (auto simp: view_ok_new simp del: view_ok.simps)
next
  case (inputs V a se rx out B B' se' rx' t)
  have g: "grows B B'" using inputs by (simp add: moves_def)
  note inv = view_invD(1) [OF inputs.prems] and t = view_invD(2,3) [OF inputs.prems]
    and ok = view_invD(4) [OF inputs.prems] and uniq = view_invD(5) [OF inputs.prems]
  have new: "view_ok env B' t (se', rx', out)"
    using view_ok_moves [OF ok [OF inputs.hyps(1)] inv inputs.hyps(2) t] .
  have old: "view_ok env B' t v" if "V b = Some v" for b v
    using view_ok_grows [OF ok [OF that] g t(1)] .
  have apart: "rx' \<noteq> Some r" if "V b = Some v" "fst (snd v) = Some r" "b \<noteq> a" for b v r
  proof
    assume rx': "rx' = Some r"
    have "r < next_ref B"
      using ok [OF that(1)] that(2) by (cases v) auto
    with rx' have "rx = Some r"
      using inputs.hyps(2) by (auto simp: moves_def)
    with uniq [OF that(1) inputs.hyps(1) that(2)] that(3) show False by simp
  qed
  show ?case
  proof (rule view_invI)
    show "t r \<le> length (channel env (calls B') r)" for r
      by (rule length_channel_grows [OF g t(1)])
    show "t r = 0" if "next_ref B' \<le> r" for r
      using that g t(2) [of r] by (simp add: grows_def)
    show "view_ok env B' t v" if "(V(a \<mapsto> (se', rx', out))) b = Some v" for b v
      using that new old by (auto split: if_splits simp del: view_ok.simps)
    show "b = c" if "(V(a \<mapsto> (se', rx', out))) b = Some v" "(V(a \<mapsto> (se', rx', out))) c = Some w"
      "fst (snd v) = Some r" "fst (snd w) = Some r" for b c v w r
      using that apart [of b v r] apart [of c w r] uniq [of b v c w r] by (auto split: if_splits)
  qed (rule inputs.hyps(3))
next
  case (outputs V a se r out B t p)
  note t = view_invD(2,3) [OF outputs.prems] and ok = view_invD(4) [OF outputs.prems]
  have uniq: "b = a" if "V b = Some v" "fst (snd v) = Some r" for b v
    using view_invD(5) [OF outputs.prems that(1) outputs.hyps(1) that(2)] by simp
  have len: "t r < length (channel env (calls B) r)"
    using outputs.hyps(2) by (simp add: recv_from_session_def split: if_splits)
  have held: "r < next_ref B" using ok [OF outputs.hyps(1)] by simp
  have new: "view_ok env B (t(r := Suc (t r))) (se, Some r, out @ wire_bytes p)"
    using view_ok_output [OF ok [OF outputs.hyps(1)] outputs.hyps(2)] .
  have old: "view_ok env B (t(r := Suc (t r))) v" if "V b = Some v" "b \<noteq> a" for b v
  proof -
    have "fst (snd v) \<noteq> Some r" using uniq [OF that(1)] that(2) by blast
    then show ?thesis using ok [OF that(1)] by (rule view_ok_other [THEN iffD2])
  qed
  show ?case
  proof (rule view_invI)
    show "(t(r := Suc (t r))) r' \<le> length (channel env (calls B) r')" for r'
      using t(1) len by simp
    show "(t(r := Suc (t r))) r' = 0" if "next_ref B \<le> r'" for r'
      using that held t(2) by auto
    show "view_ok env B (t(r := Suc (t r))) v"
      if "(V(a \<mapsto> (se, Some r, out @ wire_bytes p))) b = Some v" for b v
      using that new old by (auto split: if_splits simp del: view_ok.simps)
    show "b = c" if "(V(a \<mapsto> (se, Some r, out @ wire_bytes p))) b = Some v"
      "(V(a \<mapsto> (se, Some r, out @ wire_bytes p))) c = Some w"
      "fst (snd v) = Some r'" "fst (snd w) = Some r'" for b c v w r'
      using that uniq [of b v] uniq [of c w] view_invD(5) [OF outputs.prems, of b v c w r']
      by (auto split: if_splits)
  qed (rule view_invD(1) [OF outputs.prems])
next
  case (closed V a v B B' t' t)
  note t = view_invD(2,3) [OF closed.prems] and ok = view_invD(4) [OF closed.prems]
    and uniq = view_invD(5) [OF closed.prems]
  have t': "t' r \<le> length (channel env (calls B) r)" for r
    using closed.hyps(4) t(1) by (auto simp: recv_from_session_def split: if_splits)
  have held: "r < next_ref B" if "v = (se, Some r, out)" for se r out
    using ok [OF closed.hyps(1)] that by simp
  have zero: "t' r = 0" if "next_ref B' \<le> r" for r
  proof -
    have "next_ref B \<le> r" using that closed.hyps(2) by (simp add: grows_def)
    with closed.hyps(4) held t(2) show ?thesis by fastforce
  qed
  have "view_ok env B t' w" if "V b = Some w" "b \<noteq> a" for b w
  proof (cases "t' = t")
    case False
    then obtain se r out where v: "v = (se, Some r, out)" "t' = t(r := Suc (t r))"
      using closed.hyps(4) by blast
    then have "fst (snd w) \<noteq> Some r"
      using uniq [OF that(1) closed.hyps(1)] that(2) by auto
    then show ?thesis
      unfolding v using ok [OF that(1)] by (rule view_ok_other [THEN iffD2])
  qed (use ok [OF that(1)] in simp)
  then have "view_ok env B' t' w" if "V b = Some w" "b \<noteq> a" for b w
    using that view_ok_grows [OF _ closed.hyps(2) t'] by blast
  then show ?case
    using closed.hyps(3) length_channel_grows [OF closed.hyps(2) t'] zero
      view_invD(5) [OF closed.prems]
    by (intro view_invI) (auto split: if_splits simp del: view_ok.simps)
qed

lemma wire_bytes_not_Nil: "wire_bytes p \<noteq> []"
  by (simp add: wire_bytes_def frame_def)

end
