(* ===== verification/Interleaving.thy ===== *)
theory Interleaving
  imports Broker_Tasks Views "HOL-Library.Sublist"
begin

text \<open>
  Connections in parallel, interleaved between their critical sections: the invariant of the
  broker in every interleaving, and what a handler still guarantees when others run in between.
\<close>

section \<open>The invariant\<close>

text \<open>
  Every critical section keeps the invariant, only adds calls and references, and leaves the
  session and the receiver of its connection alone, except for those of CONNECT and DISCONNECT.
  The annotation of a task is the session and the receiver its connection is going to have.
\<close>

abbreviation steady ::
  "('a \<Rightarrow> nat option \<times> nat option \<Rightarrow> bool) \<Rightarrow> 'a broker_task \<Rightarrow> nat option \<times> nat option \<Rightarrow> bool"
  where
  "steady \<equiv> obeys broker_inv (\<lambda>c st st' c'. broker_inv st' \<and> moves st st' c c')"

named_theorems steady_intro \<open>tasks that keep the invariant of the broker\<close>

lemma steady_section:
  assumes "\<And>st. broker_inv st \<Longrightarrow> broker_inv (f st)" and "\<And>st. grows st (f st)"
    and "\<And>st. broker_inv st \<Longrightarrow> steady Q (k st) c"
  shows "steady Q (Atomic f k) c"
  by (rule obeys_steady) (simp_all add: assms moves_same)

lemma steady_act:
  assumes "\<And>st. broker_inv st \<Longrightarrow> broker_inv (f st)" and "\<And>st. grows st (f st)"
    and "steady Q k c"
  shows "steady Q (act f k) c"
  unfolding act_def by (rule steady_section) (simp_all add: assms)

lemma steady_look: "(\<And>st. broker_inv st \<Longrightarrow> steady Q (k (g st)) c) \<Longrightarrow> steady Q (look g k) c"
  unfolding look_def by (rule steady_section) simp_all

lemma steady_send [steady_intro]:
  "sendable p \<Longrightarrow> (\<And>b. steady Q (k b) c) \<Longrightarrow> steady Q (send_task env tx p k) c"
  unfolding send_task_def by (rule steady_section) (simp_all add: broker_inv_call grows_def)

lemma steady_sender [steady_intro]:
  "(\<And>tx. steady Q (k tx) c) \<Longrightarrow> steady Q (sender_task env r k) c"
  unfolding sender_task_def
  by (rule steady_section) (simp_all add: session_sender_def broker_inv_try grows_def)

lemma steady_reply [steady_intro]:
  "sendable p \<Longrightarrow> steady Q k c \<Longrightarrow> steady Q (reply_task env r p k) c"
  unfolding reply_task_def by (intro steady_intro)

lemma steady_update:
  "(\<And>s. session_ok r s \<Longrightarrow> session_ok r (f s)) \<Longrightarrow> (\<And>s. se_client_id (f s) = se_client_id s) \<Longrightarrow>
     steady Q k c \<Longrightarrow> steady Q (act (update_session r f) k) c"
  by (rule steady_act) (simp_all add: broker_inv_update grows_simple)

lemma session_ok_counter: "session_ok r s \<Longrightarrow> session_ok r (s\<lparr>se_next_packet_id := i\<rparr>)"
  by (simp add: session_ok_def pending_ok_def)

lemma steady_new_packet_id [steady_intro]:
  assumes "\<And>i. i \<noteq> PacketId 0 \<Longrightarrow> steady Q (k i) c"
  shows "steady Q (new_packet_id_task r k) c"
  unfolding new_packet_id_task_def
  by (rule steady_section)
    (auto simp: Let_def session_ok_counter grows_simple intro!: broker_inv_update steady_update assms)

lemma session_ok_insert_qos1:
  "session_ok r s \<Longrightarrow> i \<noteq> PacketId 0 \<Longrightarrow> pp_packet_id p = Some i \<Longrightarrow> pp_qos p = AtLeastOnce \<Longrightarrow>
     session_ok r (insert_qos1 i p s)"
  by (auto simp: session_ok_def pending_ok_def insert_qos1_def)

lemma steady_enqueue [steady_intro]:
  assumes "wf_string (pp_topic_name p)" and "pp_qos p = AtLeastOnce" and "steady Q k c"
  shows "steady Q (enqueue_publish_task env r p k) c"
proof -
  have "sendable (Publish (p\<lparr>pp_packet_id := Some i\<rparr>))" for i
    using assms(1,2) by (simp add: sendable_def wf_publish_def)
  moreover have "steady Q (act (update_session r (insert_qos1 i (p\<lparr>pp_packet_id := Some i\<rparr>))) k) c"
    if "i \<noteq> PacketId 0" for i
    by (rule steady_update) (use assms that in \<open>simp_all add: session_ok_insert_qos1\<close>,
      simp add: insert_qos1_def)
  ultimately show ?thesis
    using assms by (auto simp: enqueue_publish_task_def Let_def intro!: steady_intro)
qed

lemma steady_deliver [steady_intro]:
  assumes "wf_publish p" and "sub_qos s = AtLeastOnce" and "steady Q k c"
  shows "steady Q (deliver_task env p s k) c"
proof (cases "pp_qos p = AtMostOnce")
  case True
  then have "p\<lparr>pp_qos := AtMostOnce\<rparr> = p" by simp
  with True assms show ?thesis
    by (auto simp: deliver_task_def min_AtLeastOnce sendable_def wf_publish_def
        intro!: steady_intro)
next
  case False
  with assms show ?thesis
    by (auto simp: deliver_task_def min_AtLeastOnce Let_def wf_publish_def
        intro!: steady_look steady_enqueue split: option.splits)
qed

text \<open>The subscribers a publish works on all have QoS 1.\<close>

lemma matches_qos1:
  "broker_inv st \<Longrightarrow> list_all (\<lambda>s. sub_qos s = AtLeastOnce) (tree_matches (subscriptions st) topic)"
  by (intro tree.all_stored_matches broker_invD)

lemma steady_publish [steady_intro]:
  assumes "wf_publish p" and "steady Q k c"
  shows "steady Q (handle_publish_task env p k) c"
proof -
  have "list_all (\<lambda>s. sub_qos s = AtLeastOnce) subs \<Longrightarrow>
      steady Q (foldr (deliver_task env p) subs k) c" for subs
    by (induction subs) (simp_all add: assms steady_deliver)
  with matches_qos1 show ?thesis
    unfolding handle_publish_task_def by (blast intro: steady_look)
qed

lemma broker_inv_add:
  assumes "broker_inv st" and "sub_qos s = AtLeastOnce"
  shows "broker_inv (st\<lparr>subscriptions := tree_add (subscriptions st) f s\<rparr>)"
  using assms by (auto simp: broker_inv_def tree.invar_add tree.all_stored_add)

lemma steady_subscribe_filters [steady_intro]:
  "(\<And>codes. steady Q (k codes) c) \<Longrightarrow>
     steady Q (subscribe_filters_task tx cid subs codes k) c"
  by (induction tx cid subs codes k rule: subscribe_filters_task.induct)
    (auto simp: Let_def broker_inv_add grows_def intro!: steady_act)

lemma steady_subscribe [steady_intro]:
  "(\<And>a. steady Q (k a) c) \<Longrightarrow> steady Q (handle_subscribe_task env r p k) c"
  unfolding handle_subscribe_task_def
  by (rule steady_section)
    (simp_all add: session_sender_def broker_inv_try steady_subscribe_filters grows_def)

lemma broker_inv_remove:
  "broker_inv st \<Longrightarrow> broker_inv (remove_session c st)"
  "broker_inv st \<Longrightarrow> broker_inv (st\<lparr>subscriptions := tree_remove_all (subscriptions st) c\<rparr>)"
  by (auto simp: broker_inv_def remove_session_def tree.invar_remove_all tree.all_stored_remove_all)

text \<open>A disconnect may give the session up.\<close>

lemma steady_disconnect:
  assumes "steady Q k c'" and "c' = c \<or> c' = (None, None)"
  shows "steady Q (handle_disconnect_task r k) c"
  unfolding handle_disconnect_task_def
proof (rule steady_act)
  show "steady Q (act (\<lambda>st. st\<lparr>subscriptions :=
      tree_remove_all (subscriptions st) (se_client_id (heap st r))\<rparr>) k) c"
    by (rule obeys_act [OF _ assms(1)])
      (use assms(2) in \<open>auto simp: broker_inv_remove moves_def grows_def\<close>)
  show "grows st (remove_session (se_client_id (heap st r)) st)" for st
    by (simp add: grows_def remove_session_def)
qed (rule broker_inv_remove)

lemma steady_acks [steady_intro]:
  assumes "steady Q k c"
  shows "steady Q (handle_puback_task r i k) c" and "steady Q (handle_pubrec_task env r i k) c"
    and "steady Q (handle_pubrel_task env r i k) c" and "steady Q (handle_pubcomp_task r i k) c"
    and "steady Q (handle_unsubscribe_task r u k) c"
  unfolding handle_puback_task_def handle_pubrec_task_def handle_pubrel_task_def
    handle_pubcomp_task_def handle_unsubscribe_task_def
  using assms
  by (auto simp: session_ok_acks client_id_acks sendable_def broker_inv_unsubscribe grows_simple
      intro!: steady_intro steady_act broker_inv_update)

lemma steady_if_session:
  "(\<And>r. steady Q (f r k) c) \<Longrightarrow> (session = None \<Longrightarrow> steady Q k c) \<Longrightarrow>
     steady Q (if_session session f k) c"
  by (cases session) (simp_all add: if_session_def)

lemma steady_acknowledge:
  "(\<And>i. sendable (ack i)) \<Longrightarrow> steady Q k c \<Longrightarrow>
     steady Q (acknowledge_task env session i ack k) c"
  by (cases session; cases i) (simp_all add: acknowledge_task_def steady_reply)

lemma sendable_ack_of: "sendable (ack_of q i)"
  by (cases q) (simp_all add: sendable_def)

lemma steady_connect:
  assumes "\<And>r. steady Q (k (Some r) (Some r)) (Some r, Some r)"
  shows "steady Q (packet_task env session rx (Connect p) k) c"
  unfolding packet_task.simps
proof (rule obeys_Atomic)
  fix st
  assume inv: "broker_inv st"
  let ?f = "\<lambda>st. let (r, st) = alloc_session (cp_client_id p) (cp_clean_session p) (cp_keep_alive p) st
    in register_session r st"
  show "broker_inv (?f st) \<and> moves st (?f st) c (Some (next_ref st), Some (next_ref st))"
    using broker_inv_connect [OF inv]
    by (auto simp: alloc_session_def register_session_def moves_def grows_def Let_def)
  have "sendable (Connack a)" for a
    by (simp add: sendable_def)
  then show "steady Q (let (r, st) = alloc_session (cp_client_id p) (cp_clean_session p)
        (cp_keep_alive p) st; (code, present) = handle_connect r st
      in reply_task env r (Connack \<lparr>ca_session_present = present, ca_return_code = code\<rparr>)
        (k (Some r) (Some r))) (Some (next_ref st), Some (next_ref st))"
    by (auto simp: alloc_session_def split_def Let_def intro!: steady_intro assms)
qed

lemma steady_packet:
  assumes "wf_packet p" and k: "\<And>s. steady Q (k s s) (s, s)"
    and err: "\<And>e c. \<not> client_packet p \<Longrightarrow> Q (Inl e) c"
  shows "steady Q (packet_task env session session p k) (session, session)"
proof (cases p)
  case (Connect c)
  then show ?thesis by (simp add: steady_connect k del: packet_task.simps)
next
  case (Publish q)
  have "steady Q (acknowledge_task env session (pp_packet_id q) (ack_of (pp_qos q))
      (k session session)) (session, session)"
    by (rule steady_acknowledge) (simp_all add: sendable_ack_of k)
  with assms Publish show ?thesis
    by (auto simp: packet_task_publish intro!: steady_intro)
next
  case (Subscribe s)
  have "sendable (Suback a)" for a
    by (simp add: sendable_def)
  then show ?thesis
    unfolding Subscribe packet_task.simps by (intro steady_if_session steady_intro k)
next
  case (Unsubscribe u)
  have "sendable (Unsuback i)" for i
    by (simp add: sendable_def)
  then show ?thesis
    unfolding Unsubscribe packet_task.simps by (intro steady_if_session steady_intro k)
next
  case Pingreq
  have "sendable Pingresp"
    by (simp add: sendable_def)
  then show ?thesis
    unfolding Pingreq packet_task.simps by (intro steady_if_session steady_intro k)
next
  case Disconnect
  then show ?thesis
    using k [of None] by (auto intro!: steady_if_session steady_disconnect [OF k])
qed (use err in \<open>auto intro!: steady_if_session steady_intro k\<close>)

lemma steady_connection:
  "list_all wf_packet ps \<Longrightarrow>
     steady (\<lambda>_ _. True) (connection_task env session session ps) (session, session)"
proof (induction ps arbitrary: session)
  case Nil
  show ?case by (auto intro!: steady_if_session steady_disconnect)
next
  case (Cons p ps)
  then show ?case by (auto intro!: steady_packet)
qed

lemma safe_steady: "steady Q t c \<Longrightarrow> safe broker_inv t"
  by (erule obeys_safe) simp

lemma safe_connection: "list_all wf_packet ps \<Longrightarrow> safe broker_inv (connection_task env None None ps)"
  by (rule safe_steady [OF steady_connection])

lemma safe_connections:
  "list_all (list_all wf_packet) pss \<Longrightarrow>
     list_all (safe broker_inv) (map (connection_task env None None) pss)"
  by (auto simp: list_all_iff intro!: safe_connection)

text \<open>
  The invariant survives every interleaving: any number of connections that handle any
  well-formed packets, interleaved in any way between their critical sections, keep the
  broker's invariant from the start on. At every moment each session sends to its own channel,
  its table of unacknowledged messages is consistent, no identifier 0 is in use, and every
  packet sent can be encoded.
\<close>

theorem interleaved_broker_inv:
  assumes "pool_run broker_new (map (connection_task env None None) pss) es st ts"
    and "list_all (list_all wf_packet) pss"
  shows "broker_inv st"
  using safe_pool(1) [OF assms(1) broker_inv_new safe_connections [OF assms(2)]] .

section \<open>What a handler sends\<close>

text \<open>The calls of \<open>send\<close> in critical sections.\<close>

definition sent_in :: "(broker_state \<times> broker_state) list \<Rightarrow> (sender \<times> packet) list" where
  "sent_in es = concat (map (\<lambda>(st, st'). drop (length (calls st)) (calls st')) es)"

lemma sent_in_Nil [simp]: "sent_in [] = []"
  by (simp add: sent_in_def)

lemma sent_in_Cons [simp]:
  "sent_in ((st, st') # es) = drop (length (calls st)) (calls st') @ sent_in es"
  by (simp add: sent_in_def)

lemma sent_in_append [simp]: "sent_in (es @ fs) = sent_in es @ sent_in fs"
  by (simp add: sent_in_def)

text \<open>A section that sends nothing.\<close>

lemma leads_silent:
  "(\<And>st. calls (f st) = calls st) \<Longrightarrow> (\<And>st. I st \<Longrightarrow> leads I (k st) u (\<lambda>es. sent_in es = xs)) \<Longrightarrow>
     leads I (Atomic f k) u (\<lambda>es. sent_in es = xs)"
  by (rule leads_Atomic) simp

lemma leads_send:
  assumes "\<And>st. I st \<Longrightarrow> tx st = c"
    and "\<And>b. leads I (k b) u (\<lambda>es. sent_in es = xs)"
  shows "leads I (send_task env tx p k) u (\<lambda>es. sent_in es = (c, p) # xs)"
  unfolding send_task_def
  by (rule leads_Atomic) (use assms in simp)

text \<open>The calls of \<open>try_lock\<close> in critical sections, by their numbers.\<close>

definition attempts :: "(broker_state \<times> broker_state) list \<Rightarrow> nat list" where
  "attempts es = concat (map (\<lambda>(st, st'). [try_locks st ..< try_locks st']) es)"

lemma attempts_simps [simp]:
  "attempts [] = []" "attempts ((st, st') # es) = [try_locks st ..< try_locks st'] @ attempts es"
  "attempts (es @ fs) = attempts es @ attempts fs"
  by (simp_all add: attempts_def)

lemma leads_reply:
  "leads broker_inv (reply_task env r p k) k
     (\<lambda>es. \<exists>n. attempts es = [n] \<and> sent_in es = [(answer_channel env r n, p)])"
  unfolding reply_task_def sender_task_def send_task_def
proof (intro leads_Atomic leads_refl)
  fix st st1
  assume "broker_inv st"
  then have "se_sender (heap st r) = Tx r"
    using broker_invD(3) [of st r] by (simp add: session_ok_def)
  then show "\<exists>n. attempts [(st, snd (session_sender env (heap st r) st)),
        (st1, snd (send env (fst (session_sender env (heap st r) st)) p st1))] = [n] \<and>
      sent_in [(st, snd (session_sender env (heap st r) st)),
        (st1, snd (send env (fst (session_sender env (heap st r) st)) p st1))]
      = [(answer_channel env r n, p)]"
    by (auto simp: session_sender_def answer_channel_def)
qed

text \<open>What is sent to one subscriber, when its session is looked up in state \<open>st\<close>.\<close>

definition delivery_outcome ::
  "publish_packet \<Rightarrow> broker_state \<Rightarrow> subscriber \<Rightarrow> (sender \<times> packet) list \<Rightarrow> bool" where
  "delivery_outcome p st s out \<longleftrightarrow>
     (if pp_qos p = AtMostOnce then out = [(sub_sender s, Publish p)]
      else (case get_session (sub_client_id s) st of
              None \<Rightarrow> out = []
            | Some r \<Rightarrow> \<exists>i. i \<noteq> PacketId 0 \<and> out = [(Tx r, Publish (qos1_message p i))]))"

text \<open>The lookup happened in one of the given sections.\<close>

definition delivered_in ::
  "publish_packet \<Rightarrow> (broker_state \<times> broker_state) list \<Rightarrow> subscriber \<Rightarrow> (sender \<times> packet) list
    \<Rightarrow> bool" where
  "delivered_in p es s out \<longleftrightarrow> (\<exists>e \<in> set es. delivery_outcome p (fst e) s out)"

lemma delivered_in_mono:
  "delivered_in p es s out \<Longrightarrow> set es \<subseteq> set fs \<Longrightarrow> delivered_in p fs s out"
  by (auto simp: delivered_in_def)

lemma delivered_all_mono:
  "list_all2 (delivered_in p es) subs outs \<Longrightarrow> set es \<subseteq> set fs \<Longrightarrow>
     list_all2 (delivered_in p fs) subs outs"
  by (auto elim!: list_all2_mono intro: delivered_in_mono)

lemma leads_new_packet_id:
  assumes "\<And>i. i \<noteq> PacketId 0 \<Longrightarrow> leads I (k i) u (\<lambda>es. Q (sent_in es))"
  shows "leads I (new_packet_id_task r k) u (\<lambda>es. Q (sent_in es))"
  unfolding new_packet_id_task_def act_def
  by (rule leads_Atomic)
    (auto simp: Let_def update_session_def assms intro!: leads_Atomic)

lemma leads_enqueue:
  assumes "pp_qos p = AtLeastOnce"
  shows "leads broker_inv (enqueue_publish_task env r p k) k
    (\<lambda>es. \<exists>i. i \<noteq> PacketId 0 \<and> sent_in es = [(Tx r, Publish (p\<lparr>pp_packet_id := Some i\<rparr>))])"
proof -
  have tx: "se_sender (heap st r) = Tx r" if "broker_inv st" for st
    using broker_invD(3) [OF that, of r] by (simp add: session_ok_def)
  have "leads broker_inv (send_task env (\<lambda>st. se_sender (heap st r)) q
      (\<lambda>sent. if \<not> sent then k else act (update_session r f) k)) k
      (\<lambda>es. sent_in es = [(Tx r, q)])" for q f
    by (rule leads_send)
      (auto simp: tx act_def update_session_def intro!: leads_silent leads_refl)
  note send = this
  have "leads broker_inv (new_packet_id_task r (\<lambda>i. send_task env (\<lambda>st. se_sender (heap st r))
      (Publish (p\<lparr>pp_packet_id := Some i\<rparr>)) (\<lambda>sent. if \<not> sent then k
        else act (update_session r (insert_qos1 i (p\<lparr>pp_packet_id := Some i\<rparr>))) k))) k
      (\<lambda>es. (\<lambda>out. \<exists>i. i \<noteq> PacketId 0 \<and>
        out = [(Tx r, Publish (p\<lparr>pp_packet_id := Some i\<rparr>))]) (sent_in es))"
    by (rule leads_new_packet_id) (rule leads_mono [OF send], blast)
  with assms show ?thesis
    by (simp add: enqueue_publish_task_def Let_def cong: if_cong)
qed

lemma leads_deliver:
  assumes "sub_qos s = AtLeastOnce"
  shows "leads broker_inv (deliver_task env p s k) k (\<lambda>es. delivered_in p es s (sent_in es))"
proof (cases "pp_qos p = AtMostOnce")
  case True
  then have p: "p\<lparr>pp_qos := AtMostOnce\<rparr> = p" by simp
  show ?thesis
    using True assms p unfolding deliver_task_def send_task_def Let_def min_AtLeastOnce
    by (auto simp: delivery_outcome_def delivered_in_def intro!: leads_Atomic leads_refl)
next
  case False
  let ?p = "p\<lparr>pp_qos := AtLeastOnce\<rparr>"
  have enqueue: "leads broker_inv (enqueue_publish_task env r ?p k) k
      (\<lambda>es. \<exists>i. i \<noteq> PacketId 0 \<and> sent_in es = [(Tx r, Publish (qos1_message p i))])" for r
    using leads_enqueue [of ?p env r k] by (simp add: qos1_message_def)
  have "leads broker_inv (case get_session (sub_client_id s) st of
        Some r \<Rightarrow> enqueue_publish_task env r ?p k | None \<Rightarrow> k) k
      (\<lambda>es. delivery_outcome p st s (sent_in es))" for st
    using False enqueue
    by (cases "get_session (sub_client_id s) st")
      (simp_all add: delivery_outcome_def leads_refl)
  then have "leads broker_inv (case get_session (sub_client_id s) st of
        Some r \<Rightarrow> enqueue_publish_task env r ?p k | None \<Rightarrow> k) k
      (\<lambda>es. delivered_in p ((st, st) # es) s (sent_in ((st, st) # es)))" for st
    by (rule leads_mono) (simp add: delivered_in_def)
  then have "leads broker_inv (look (get_session (sub_client_id s)) (\<lambda>found. case found of
        Some r \<Rightarrow> enqueue_publish_task env r ?p k | None \<Rightarrow> k)) k
      (\<lambda>es. delivered_in p es s (sent_in es))"
    unfolding look_def by (rule leads_Atomic)
  moreover have "min (pp_qos p) (sub_qos s) = AtLeastOnce"
    using False assms min_AtLeastOnce by simp
  ultimately show ?thesis
    by (simp add: deliver_task_def Let_def)
qed

lemma leads_deliveries:
  "list_all (\<lambda>s. sub_qos s = AtLeastOnce) subs \<Longrightarrow>
     leads broker_inv (foldr (deliver_task env p) subs k) k
       (\<lambda>es. \<exists>outs. sent_in es = concat outs \<and> list_all2 (delivered_in p es) subs outs)"
proof (induction subs)
  case Nil
  then show ?case by (auto intro: leads_refl)
next
  case (Cons s subs)
  then have "sub_qos s = AtLeastOnce" and "list_all (\<lambda>s. sub_qos s = AtLeastOnce) subs"
    by simp_all
  from leads_deliver [OF this(1)] Cons.IH [OF this(2)] show ?case
    unfolding foldr.simps comp_def
  proof (rule leads_trans)
    fix es fs
    assume "delivered_in p es s (sent_in es)"
      and "\<exists>outs. sent_in fs = concat outs \<and> list_all2 (delivered_in p fs) subs outs"
    then obtain outs where "delivered_in p (es @ fs) s (sent_in es)"
      and "sent_in fs = concat outs" and "list_all2 (delivered_in p (es @ fs)) subs outs"
      using delivered_in_mono [of p es s _ "es @ fs"] delivered_all_mono [of p fs subs _ "es @ fs"]
      by auto
    then show "\<exists>outs. sent_in (es @ fs) = concat outs \<and>
        list_all2 (delivered_in p (es @ fs)) (s # subs) outs"
      by (intro exI [of _ "sent_in es # outs"]) simp
  qed
qed

lemma leads_publish:
  "leads broker_inv (handle_publish_task env p k) k
     (\<lambda>es. \<exists>outs. sent_in es = concat outs \<and> es \<noteq> [] \<and>
        list_all2 (delivered_in p es)
          (tree_matches (subscriptions (fst (hd es))) (pp_topic_name p)) outs)"
  unfolding handle_publish_task_def look_def
proof (rule leads_Atomic)
  fix st
  assume "broker_inv st"
  from leads_deliveries [OF matches_qos1 [OF this]]
  show "leads broker_inv (foldr (deliver_task env p)
      (tree_matches (subscriptions st) (pp_topic_name p)) k) k
    (\<lambda>es. \<exists>outs. sent_in ((st, st) # es) = concat outs \<and> (st, st) # es \<noteq> [] \<and>
       list_all2 (delivered_in p ((st, st) # es))
         (tree_matches (subscriptions (fst (hd ((st, st) # es)))) (pp_topic_name p)) outs)"
  proof (rule leads_mono)
    fix es
    assume "\<exists>outs. sent_in es = concat outs \<and>
      list_all2 (delivered_in p es) (tree_matches (subscriptions st) (pp_topic_name p)) outs"
    then show "\<exists>outs. sent_in ((st, st) # es) = concat outs \<and> (st, st) # es \<noteq> [] \<and>
       list_all2 (delivered_in p ((st, st) # es))
         (tree_matches (subscriptions (fst (hd ((st, st) # es)))) (pp_topic_name p)) outs"
      using delivered_all_mono [of p es _ _ "(st, st) # es"] by auto
  qed
qed

text \<open>
  C4: A publish under interference: whatever other tasks do between its critical sections, a
  PUBLISH sends, in this order, to the subscribers the tree had when it took its snapshot, to
  each of them once: a message of QoS 0 unconditionally to the subscriber's channel, a message
  of QoS 1 or 2 once, with an identifier other than 0, to the session that is registered for
  the subscriber's client at some moment during the publish, and not at all when none is
  registered at such a moment.
\<close>

theorem publish_interleaved:
  assumes "pool_run st ts es st' ts'" and "broker_inv st" and "list_all (safe broker_inv) ts"
    and "i < length ts" and "ts ! i = handle_publish_task env p (Return x)" and "finished (ts' ! i)"
    and "own_sections i es = own"
  shows "\<exists>outs. sent_in own = concat outs \<and> own \<noteq> [] \<and>
    list_all2 (delivered_in p own)
      (tree_matches (subscriptions (fst (hd own))) (pp_topic_name p)) outs"
proof -
  obtain y where "task_run (handle_publish_task env p (Return x)) own (Return y)"
    using pool_run_own [OF assms(1,4)] assms(5-7) by (auto simp: finished_iff)
  moreover have "broker_inv (fst e)" if "e \<in> set own" for e
    using safe_pool(2) [OF assms(1-3)] set_own_sections [of e i es] that assms(7) by fastforce
  ultimately show ?thesis
    by (rule leads_all(1) [OF leads_publish])
qed

text \<open>A message reaches a client that disconnects between the snapshot and the delivery.\<close>

theorem publish_interleaved_witness:
  fixes m :: publish_packet
  defines "m \<equiv> message AtMostOnce [97, 47, 98] None [1]"
  shows "sent_in (own_sections 0 (fst (scheduled [0, 1, 1, 0] one_subscriber
     [handle_publish_task ideal_env m (Return (Inr ())), connection_task ideal_env (Some 0) (Some 0) []])))
   = [(Tx 0, Publish m)]"
proof -
  let ?ts = "[handle_publish_task ideal_env m (Return (Inr ())), connection_task ideal_env (Some 0) (Some 0) []]"
  obtain es st' ts' where run: "scheduled [0, 1, 1, 0] one_subscriber ?ts = (es, st', ts')"
    by (metis prod_cases3)
  have m: "tree_matches (subscriptions one_subscriber) (pp_topic_name m)
      = [\<lparr>sub_client_id = [99], sub_sender = Tx 0, sub_qos = AtLeastOnce\<rparr>]"
    by (simp add: m_def one_subscriber_matches)
  have fin: "finished (ts' ! 0)" "fst (hd (own_sections 0 es)) = one_subscriber"
    using run m by (auto simp: handle_publish_task_def look_def act_def deliver_task_def send_task_def
        if_session_def handle_disconnect_task_def Let_def m_def split: prod.splits)
  have "wf_publish m"
    by (simp add: m_def wf_publish_def wf_string_def utf8_valid_def)
  then have "steady (\<lambda>_ _. True) (handle_publish_task ideal_env m (Return (Inr ()))) (None, None)"
    by (rule steady_publish) simp
  then have "safe broker_inv (handle_publish_task ideal_env m (Return (Inr ())))"
    by (rule safe_steady)
  moreover have "safe broker_inv (connection_task ideal_env (Some 0) (Some 0) [])"
    by (rule safe_steady [OF steady_connection]) simp
  ultimately have safe: "list_all (safe broker_inv) ?ts"
    by (simp del: connection_task.simps)
  obtain outs where "sent_in (own_sections 0 es) = concat outs"
    and "list_all2 (delivered_in m (own_sections 0 es))
      [\<lparr>sub_client_id = [99], sub_sender = Tx 0, sub_qos = AtLeastOnce\<rparr>] outs"
    using publish_interleaved [OF scheduled_run [OF run] one_subscriber_inv safe _ _ _ refl, of 0
        ideal_env m "Inr ()"] fin m by auto
  then show ?thesis
    unfolding run by (auto simp: list_all2_Cons1 delivered_in_def delivery_outcome_def m_def)
qed

section \<open>Answers\<close>

text \<open>What a task sends apart from published messages.\<close>

definition replies_in :: "(broker_state \<times> broker_state) list \<Rightarrow> (sender \<times> packet) list" where
  "replies_in es = filter (\<lambda>c. \<forall>q. snd c \<noteq> Publish q) (sent_in es)"

lemma replies_in_append [simp]: "replies_in (es @ fs) = replies_in es @ replies_in fs"
  by (simp add: replies_in_def)

lemma replies_Nil [simp]: "sent_in es = [] \<Longrightarrow> replies_in es = []"
  by (simp add: replies_in_def)

text \<open>
  The answers to a list of packets, in order: each goes to the session's channel unless its own
  attempt to lock the sender fails.
\<close>

definition answered ::
  "environment \<Rightarrow> nat \<Rightarrow> packet list \<Rightarrow> (broker_state \<times> broker_state) list \<Rightarrow> bool" where
  "answered env r as es \<longleftrightarrow> (\<exists>ns. length ns = length as \<and> subseq ns (attempts es) \<and>
     replies_in es = zip (map (answer_channel env r) ns) as)"

lemma answered_append:
  assumes "answered env r as es" and "answered env r bs fs"
  shows "answered env r (as @ bs) (es @ fs)"
proof -
  obtain ns ms where "length ns = length as" "subseq ns (attempts es)"
    "replies_in es = zip (map (answer_channel env r) ns) as"
    "length ms = length bs" "subseq ms (attempts fs)"
    "replies_in fs = zip (map (answer_channel env r) ms) bs"
    using assms unfolding answered_def by blast
  then show ?thesis
    unfolding answered_def by (intro exI [of _ "ns @ ms"]) (simp add: list_emb_append_mono)
qed

lemma answered_silent: "replies_in es = [] \<Longrightarrow> answered env r [] es"
  by (simp add: answered_def)

lemma leads_answer:
  "(\<And>q. a \<noteq> Publish q) \<Longrightarrow> leads broker_inv (reply_task env r a k) k (answered env r [a])"
  by (rule leads_mono [OF leads_reply]) (auto simp: answered_def replies_in_def intro: exI [of _ "[_]"])

lemma leads_then:
  assumes "leads I t u (\<lambda>es. sent_in es = [])" and "leads I u v (answered env r as)"
  shows "leads I t v (answered env r as)"
  using assms
proof (rule leads_trans)
  show "sent_in es = [] \<Longrightarrow> answered env r as fs \<Longrightarrow> answered env r as (es @ fs)" for es fs
    using answered_append [of env r "[]" es as fs] answered_silent by simp
qed

lemma leads_silent_act:
  "(\<And>st. calls (f st) = calls st) \<Longrightarrow> leads I (act f k) k (\<lambda>es. sent_in es = [])"
  unfolding act_def by (intro leads_silent leads_refl) simp_all

lemma delivered_are_publish:
  assumes "list_all2 (delivered_in p es) subs outs"
  shows "filter (\<lambda>c. \<forall>q. snd c \<noteq> Publish q) (concat outs) = []"
  using assms
  by (induction rule: list_all2_induct)
    (auto simp: delivered_in_def delivery_outcome_def split: if_splits option.splits)

lemma leads_publish_answered:
  "leads broker_inv (handle_publish_task env p k) k (answered env r [])"
  by (rule leads_mono [OF leads_publish])
    (auto simp: answered_def replies_in_def delivered_are_publish simp flip: filter_empty_conv)

lemma leads_subscribe_filters:
  "leads I (subscribe_filters_task tx c subs codes k)
     (k (codes @ map (\<lambda>(f, q). if is_valid_topic_filter f then SuccessQoS1 else Failure) subs))
     (\<lambda>es. sent_in es = [])"
proof (induction tx c subs codes k rule: subscribe_filters_task.induct)
  case (2 tx c topic q rest codes k)
  show ?case
    using 2 by (cases "is_valid_topic_filter topic")
      (auto simp: Let_def act_def intro!: leads_silent)
qed (simp add: leads_refl)

lemma leads_subscribe:
  "leads I (handle_subscribe_task env r p k)
     (k \<lparr>sa_packet_id = sp_packet_id p,
        sa_return_codes = map (\<lambda>(f, q). if is_valid_topic_filter f then SuccessQoS1 else Failure)
          (sp_subscriptions p)\<rparr>) (\<lambda>es. sent_in es = [])"
  unfolding handle_subscribe_task_def
proof (rule leads_silent)
  fix st
  show "leads I (subscribe_filters_task (fst (session_sender env (heap st r) st))
      (se_client_id (heap st r)) (sp_subscriptions p) []
      (\<lambda>codes. k \<lparr>sa_packet_id = sp_packet_id p, sa_return_codes = codes\<rparr>))
    (k \<lparr>sa_packet_id = sp_packet_id p,
        sa_return_codes = map (\<lambda>(f, q). if is_valid_topic_filter f then SuccessQoS1 else Failure)
          (sp_subscriptions p)\<rparr>) (\<lambda>es. sent_in es = [])"
    using leads_subscribe_filters [of I _ _ "sp_subscriptions p" "[]"] by simp
qed (simp add: session_sender_def)

lemma leads_disconnect: "leads I (handle_disconnect_task r k) k (\<lambda>es. sent_in es = [])"
  unfolding handle_disconnect_task_def act_def
  by (intro leads_silent leads_refl) (simp_all add: remove_session_def)

text \<open>A packet of a connection with a session, other than CONNECT and DISCONNECT.\<close>

definition request :: "packet \<Rightarrow> bool" where
  "request p \<longleftrightarrow> client_packet p \<and> p \<noteq> Disconnect \<and> (\<forall>c. p \<noteq> Connect c)"

lemma leads_request:
  assumes "request p"
  shows "leads broker_inv (packet_task env (Some r) (Some r) p k) (k (Some r) (Some r))
    (answered env r (case answer p of None \<Rightarrow> [] | Some a \<Rightarrow> [a]))"
proof (cases p)
  case (Publish q)
  have "leads broker_inv (acknowledge_task env (Some r) (pp_packet_id q) (ack_of (pp_qos q)) k) k
      (answered env r (case pp_packet_id q of None \<Rightarrow> [] | Some i \<Rightarrow> [ack_of (pp_qos q) i]))" for k
    by (cases "pp_packet_id q"; cases "pp_qos q")
      (auto simp: acknowledge_task_def answered_silent intro!: leads_refl leads_answer)
  then show ?thesis
    using leads_publish_answered [of env q "k (Some r) (Some r)" r] answered_append [of env r "[]"]
    by (cases "pp_qos q")
      (auto simp: Publish packet_task_publish intro!: leads_trans [OF leads_publish_answered]
        split: option.split)
next
  case (Subscribe s)
  show ?thesis
    unfolding Subscribe
    by (simp add: if_session_def) (rule leads_then [OF leads_subscribe], simp add: leads_answer)
qed (use assms in \<open>auto simp: if_session_def request_def handle_puback_task_def
      handle_pubcomp_task_def handle_pubrec_task_def handle_pubrel_task_def handle_unsubscribe_task_def
      update_session_def handle_unsubscribe_def answered_silent
      intro!: leads_answer leads_then [OF leads_silent_act] leads_mono [OF leads_silent_act]\<close>)

lemma map_filter_Cons:
  "List.map_filter f (x # xs) = (case f x of None \<Rightarrow> [] | Some y \<Rightarrow> [y]) @ List.map_filter f xs"
  by (simp add: map_filter_def split: option.split)

lemma leads_requests:
  "list_all request ps \<Longrightarrow>
     leads broker_inv (connection_task env (Some r) (Some r) ps) (Return (Inr ()))
       (answered env r (List.map_filter answer ps))"
proof (induction ps)
  case Nil
  show ?case
    by (simp add: if_session_def map_filter_def)
      (rule leads_mono [OF leads_disconnect], simp add: answered_silent)
next
  case (Cons p ps)
  then have "request p" and "list_all request ps" by simp_all
  from leads_request [OF this(1)] Cons.IH [OF this(2)] show ?case
    unfolding connection_task.simps map_filter_Cons by (rule leads_trans) (rule answered_append)
qed

text \<open>
  The first section of a CONNECT allocates the session \<open>r\<close> and registers the client; everything
  after it is answered to this session.
\<close>

definition connected ::
  "environment \<Rightarrow> connect_packet \<Rightarrow> packet list \<Rightarrow> (broker_state \<times> broker_state) list \<Rightarrow> bool" where
  "connected env c as es \<longleftrightarrow> es \<noteq> [] \<and>
     sessions (snd (hd es)) (cp_client_id c) = Some (next_ref (fst (hd es))) \<and>
     answered env (next_ref (fst (hd es)))
       (Connack \<lparr>ca_session_present = \<not> cp_clean_session c, ca_return_code = Accepted\<rparr> # as) es"

lemma leads_connect:
  assumes "\<And>r. leads broker_inv (k (Some r) (Some r)) u (answered env r as)"
  shows "leads broker_inv (packet_task env session rx (Connect c) k) u (connected env c as)"
  unfolding packet_task.simps
proof (rule leads_Atomic)
  fix st
  let ?a = "Connack \<lparr>ca_session_present = \<not> cp_clean_session c, ca_return_code = Accepted\<rparr>"
  let ?f = "let (r, st) = alloc_session (cp_client_id c) (cp_clean_session c) (cp_keep_alive c) st
    in register_session r st"
  obtain st1 where r: "alloc_session (cp_client_id c) (cp_clean_session c) (cp_keep_alive c) st
      = (next_ref st, st1)" by (simp add: alloc_session_def Let_def)
  then have "handle_connect (next_ref st) st1 = (Accepted, \<not> cp_clean_session c)"
    and quiet: "calls ?f = calls st" "try_locks ?f = try_locks st"
    and reg: "sessions ?f (cp_client_id c) = Some (next_ref st)"
    by (auto simp: alloc_session_def handle_connect_def session_new_def register_session_def Let_def)
  moreover have "leads broker_inv (reply_task env (next_ref st) ?a (k (Some (next_ref st)) (Some (next_ref st)))) u
      (answered env (next_ref st) ([?a] @ as))"
    using leads_answer assms
    by (rule leads_trans) (simp, rule answered_append)
  then have "leads broker_inv (reply_task env (next_ref st) ?a (k (Some (next_ref st)) (Some (next_ref st)))) u
      (\<lambda>es. connected env c as ((st, ?f) # es))"
    by (rule leads_mono) (use quiet reg in \<open>simp add: connected_def answered_def replies_in_def\<close>)
  ultimately show "leads broker_inv (let (r, st) = alloc_session (cp_client_id c)
        (cp_clean_session c) (cp_keep_alive c) st; (code, present) = handle_connect r st
      in reply_task env r (Connack \<lparr>ca_session_present = present, ca_return_code = code\<rparr>)
        (k (Some r) (Some r))) u (\<lambda>es. connected env c as ((st, ?f) # es))"
    by (simp add: r)
qed

text \<open>
  C9: Every request is answered in every interleaving: whatever the other connections do, a
  connection that handles a CONNECT and then requests (any client packets but CONNECT and
  DISCONNECT) has sent, when it completes, besides published messages, the CONNACK of its CONNECT
  and then for each of its requests the one answer the protocol prescribes, in the order of the
  requests and each exactly once. Each answer goes to the channel of the session that this
  connection's CONNECT has created and registered in its first critical section. The one
  exception is an answer whose own call of \<open>try_lock\<close>, one call of this connection for each
  answer, finds the lock taken: it is lost.
\<close>

theorem requests_answered_interleaved:
  assumes "pool_run broker_new (map (connection_task env None None) pss) es st ts"
    and "list_all (list_all wf_packet) pss"
    and "i < length pss" and "pss ! i = Connect c # ps" and "list_all request ps"
    and "finished (ts ! i)"
    and "own_sections i es = own" and "next_ref (fst (hd own)) = r"
  shows "ts ! i = Return (Inr ()) \<and> own \<noteq> [] \<and> sessions (snd (hd own)) (cp_client_id c) = Some r \<and>
    (\<exists>ns. length ns = Suc (length (List.map_filter answer ps)) \<and> subseq ns (attempts own) \<and>
      replies_in own = zip (map (answer_channel env r) ns)
        (Connack \<lparr>ca_session_present = \<not> cp_clean_session c, ca_return_code = Accepted\<rparr>
          # List.map_filter answer ps))"
proof -
  obtain x where x: "ts ! i = Return x"
    using assms(6) by (auto simp: finished_iff)
  then have run: "task_run (connection_task env None None (Connect c # ps)) own (Return x)"
    using pool_run_own [OF assms(1), of i] assms(3,4,7) by simp
  have inv: "broker_inv (fst e)" if "e \<in> set own" for e
    using safe_pool(2) [OF assms(1) broker_inv_new safe_connections [OF assms(2)]]
      set_own_sections [of e i es] that assms(7) by fastforce
  have "leads broker_inv (connection_task env None None (Connect c # ps)) (Return (Inr ()))
      (connected env c (List.map_filter answer ps))"
    unfolding connection_task.simps(2) by (rule leads_connect, rule leads_requests [OF assms(5)])
  from leads_all [OF this run inv]
  have "connected env c (List.map_filter answer ps) own" and "x = Inr ()"
    by blast+
  with x assms(8) show ?thesis by (auto simp: connected_def answered_def)
qed

lemmas connection_run =
  if_session_def handle_disconnect_task_def reply_task_def sender_task_def send_task_def act_def
  look_def Let_def split_def

theorem interleaved_broker_inv_witness:
  "broker_inv (fst (snd (scheduled [0, 1, 0, 1, 1, 0] broker_new
     (map (connection_task ideal_env None None) [[Connect sample_connect], [Connect sample_connect]]))))"
proof -
  obtain es st ts where run: "scheduled [0, 1, 0, 1, 1, 0] broker_new
      (map (connection_task ideal_env None None) [[Connect sample_connect], [Connect sample_connect]])
      = (es, st, ts)"
    by (metis prod_cases3)
  have "list_all (list_all wf_packet) [[Connect sample_connect], [Connect sample_connect]]"
    using sample_connect_wf by simp
  from interleaved_broker_inv [OF scheduled_run [OF run] this] show ?thesis
    unfolding run by simp
qed

theorem requests_answered_interleaved_witness:
  "replies_in (own_sections 0 (fst (scheduled [0, 1, 0, 1, 0, 1, 0, 1, 1, 0, 0, 0] broker_new
     (map (connection_task ideal_env None None)
       [[Connect sample_connect, Pingreq], [Connect sample_connect]]))))
   = [(Tx 0, Connack \<lparr>ca_session_present = True, ca_return_code = Accepted\<rparr>), (Tx 0, Pingresp)]"
proof -
  let ?pss = "[[Connect sample_connect, Pingreq], [Connect sample_connect]]"
  obtain es st ts where run: "scheduled [0, 1, 0, 1, 0, 1, 0, 1, 1, 0, 0, 0] broker_new
      (map (connection_task ideal_env None None) ?pss) = (es, st, ts)"
    by (metis prod_cases3)
  have "snd (snd (scheduled [0, 1, 0, 1, 0, 1, 0, 1, 1, 0, 0, 0] broker_new
      (map (connection_task ideal_env None None) ?pss))) = [Return (Inr ()), Return (Inr ())]"
    by (simp add: connection_run)
  with run have fin: "finished (ts ! 0)" by simp
  have r: "next_ref (fst (hd (own_sections 0 es))) = 0"
    using scheduled_first [OF run] by (simp add: broker_new_def)
  have wf: "list_all (list_all wf_packet) ?pss"
    using sample_connect_wf by simp
  have req: "list_all request [Pingreq]" "List.map_filter answer [Pingreq] = [Pingresp]"
    by (simp_all add: request_def map_filter_def)
  obtain ns where "length ns = Suc (Suc 0)" and "replies_in (own_sections 0 es) = zip (map (answer_channel ideal_env 0) ns)
      [Connack \<lparr>ca_session_present = True, ca_return_code = Accepted\<rparr>, Pingresp]"
    using requests_answered_interleaved [OF scheduled_run [OF run] wf _ _ req(1) fin refl r,
        of sample_connect] req(2)
    by (auto simp: sample_connect_def)
  then show ?thesis
    unfolding run by (auto simp: length_Suc_conv answer_channel_def ideal_env_def)
qed

end
