(* ===== verification/Lock_System.thy ===== *)
theory Lock_System
  imports Server_Tasks Interleaving
begin

text \<open>
  The whole server between its critical sections: connections of both transports read, handle
  packets and write, and a step is one critical section, one read, or one packet taken from a
  channel.
\<close>

section \<open>Steps\<close>

text \<open>
  A connection is the rest of the task of its current iteration; \<open>Return\<close> of an open status
  is a connection that waits in its \<open>select!\<close>.
\<close>

record lock_system =
  ls_broker :: broker_state
  ls_taken :: "nat \<Rightarrow> nat"
  ls_tcp :: "nat \<Rightarrow> tcp_status broker_task option"
  ls_ws :: "nat \<Rightarrow> ws_status broker_task option"

definition lock_start :: "lock_system \<Rightarrow> bool" where
  "lock_start s \<longleftrightarrow>
     s = \<lparr>ls_broker = broker_new, ls_taken = (\<lambda>_. 0), ls_tcp = Map.empty, ls_ws = Map.empty\<rparr>"

inductive lock_step :: "environment \<Rightarrow> lock_system \<Rightarrow> lock_system \<Rightarrow> bool" for env where
  tcp_accept: "ls_tcp s i = None \<Longrightarrow>
    lock_step env s (s\<lparr>ls_tcp := (ls_tcp s)(i \<mapsto> Return (TcpOpen tcp_new))\<rparr>)"
| tcp_input: "ls_tcp s i = Some (Return (TcpOpen conn)) \<Longrightarrow> (\<And>p w. ev \<noteq> TcpRecv p w) \<Longrightarrow>
    lock_step env s (s\<lparr>ls_tcp := (ls_tcp s)(i \<mapsto> tcp_task env ev conn)\<rparr>)"
| tcp_output: "ls_tcp s i = Some (Return (TcpOpen conn)) \<Longrightarrow> tc_out_rx conn = Some r \<Longrightarrow>
    recv_from_session env (calls (ls_broker s)) (ls_taken s) (tc_out_rx conn) = Some p \<Longrightarrow>
    lock_step env s (s\<lparr>ls_taken := (ls_taken s)(r := Suc (ls_taken s r)),
      ls_tcp := (ls_tcp s)(i \<mapsto> tcp_task env (TcpRecv p w) conn)\<rparr>)"
| tcp_section: "ls_tcp s i = Some (Atomic f k) \<Longrightarrow>
    lock_step env s (s\<lparr>ls_broker := f (ls_broker s), ls_tcp := (ls_tcp s)(i \<mapsto> k (ls_broker s))\<rparr>)"
| ws_accept: "ls_ws s i = None \<Longrightarrow>
    lock_step env s (s\<lparr>ls_ws := (ls_ws s)(i \<mapsto> Return (WsOpen ws_new))\<rparr>)"
| ws_input: "ls_ws s i = Some (Return (WsOpen conn)) \<Longrightarrow> (\<And>p b. ev \<noteq> WsRecv p b) \<Longrightarrow>
    lock_step env s (s\<lparr>ls_ws := (ls_ws s)(i \<mapsto> ws_task env ev conn)\<rparr>)"
| ws_output: "ls_ws s i = Some (Return (WsOpen conn)) \<Longrightarrow> wc_out_rx conn = Some r \<Longrightarrow>
    recv_from_ws_session env (calls (ls_broker s)) (ls_taken s) (wc_out_rx conn) = Some p \<Longrightarrow>
    lock_step env s (s\<lparr>ls_taken := (ls_taken s)(r := Suc (ls_taken s r)),
      ls_ws := (ls_ws s)(i \<mapsto> ws_task env (WsRecv p sent) conn)\<rparr>)"
| ws_section: "ls_ws s i = Some (Atomic f k) \<Longrightarrow>
    lock_step env s (s\<lparr>ls_broker := f (ls_broker s), ls_ws := (ls_ws s)(i \<mapsto> k (ls_broker s))\<rparr>)"

section \<open>Iterations keep the invariant\<close>

lemma steady_process_buffer:
  "rx = session \<Longrightarrow>
     steady (\<lambda>res c. case res of Inl e \<Rightarrow> \<exists>m. e = Decode m | Inr (se, rx, buf) \<Rightarrow> c = (se, rx))
       (process_buffer_task env session rx buf) (session, rx)"
proof (induction env session rx buf rule: process_buffer_task.induct)
  case (1 env session rx buf)
  obtain r buf' where ex: "extract_packet buf = (r, buf')"
    by (cases "extract_packet buf") auto
  show ?case
  proof (cases "\<exists>p. r = Some (Inr p)")
    case True
    then obtain p where r: "r = Some (Inr p)" by blast
    note p = extract_packet_sound [OF ex [unfolded r]]
    have "process_buffer_task env session rx buf
        = packet_task env session session p (\<lambda>se rx. process_buffer_task env se rx buf')"
      using ex r "1.prems" by (simp add: process_buffer_task.simps [of env session session buf])
    moreover have "steady (\<lambda>res c. case res of Inl e \<Rightarrow> \<exists>m. e = Decode m | Inr (se, rx, buf) \<Rightarrow> c = (se, rx))
        (packet_task env session session p (\<lambda>se rx. process_buffer_task env se rx buf'))
        (session, session)"
      by (rule steady_packet) (use p "1.IH" [OF ex [symmetric] r refl] in auto)
    ultimately show ?thesis using "1.prems" by simp
  qed (use ex extract_packet_error [of buf] in \<open>auto simp: process_buffer_task.simps [of env session rx buf]
      split: option.split sum.split\<close>)
qed

text \<open>
  The annotation of a connection's task is its session and receiver; when it comes back to the
  \<open>select!\<close>, it has these and has written \<open>out\<close>.
\<close>

definition comes_back ::
  "('a \<Rightarrow> view option) \<Rightarrow> u8 list \<Rightarrow> 'a \<Rightarrow> nat option \<times> nat option \<Rightarrow> bool" where
  "comes_back view_of out status c \<longleftrightarrow>
     (case view_of status of None \<Rightarrow> True | Some v \<Rightarrow> v = (fst c, snd c, out))"

lemma steady_break:
  "view_of x = None \<Longrightarrow>
     steady (comes_back view_of out) (if_session se handle_disconnect_task (Return x)) c"
  by (auto intro!: steady_if_session steady_disconnect simp: comes_back_def)

lemma steady_tcp_task:
  assumes "tc_out_rx conn = tc_session conn" and "\<And>p w. ev \<noteq> TcpRecv p w"
  shows "steady (comes_back (tcp_view \<circ> Some) (tc_written conn)) (tcp_task env ev conn)
    (tc_session conn, tc_out_rx conn)"
proof (cases ev)
  case (TcpRead bytes)
  have "steady (comes_back (tcp_view \<circ> Some) (tc_written conn))
      (and_then (process_buffer_task env (tc_session conn) (tc_out_rx conn) buf) (\<lambda>result.
           Return (case result of
             Inl e \<Rightarrow> TcpDone (Inl e)
           | Inr (session, out_rx, buf) \<Rightarrow>
               TcpOpen (conn\<lparr>tc_session := session, tc_out_rx := out_rx, tc_buf := buf\<rparr>))))
      (tc_session conn, tc_out_rx conn)" for buf
    by (rule obeys_and_then [OF steady_process_buffer [OF assms(1)]])
      (auto simp: comes_back_def split: sum.split)
  with TcpRead show ?thesis
    by (auto simp: Let_def intro: steady_break)
qed (use assms(2) in \<open>auto simp: comes_back_def\<close>)

lemma steady_ws_break:
  "steady (comes_back (ws_view \<circ> Some) out) (ws_break_task conn) c"
  unfolding ws_break_task_def by (rule steady_break) simp

lemma steady_ws_task:
  assumes "wc_out_rx conn = wc_session conn" and "\<And>p b. ev \<noteq> WsRecv p b"
  shows "steady (comes_back (ws_view \<circ> Some) (concat (map binary_data (wc_sent conn))))
    (ws_task env ev conn) (wc_session conn, wc_out_rx conn)"
proof (cases ev)
  case (WsBinary data)
  show ?thesis
  proof (cases "decode data")
    case (Inr pr)
    then obtain p rest where d: "decode data = Inr (p, rest)" by (cases pr) auto
    have p: "client_packet p" "wf_packet p"
      using decode_accepts [OF d] by simp_all
    have "steady (\<lambda>res c. \<forall>se rx. res = Inr (se, rx) \<longrightarrow> c = (se, rx))
        (packet_task env (wc_session conn) (wc_session conn) p (\<lambda>se rx. Return (Inr (se, rx))))
        (wc_session conn, wc_session conn)"
      by (rule steady_packet) (use p in simp_all)
    then have "steady (comes_back (ws_view \<circ> Some) (concat (map binary_data (wc_sent conn))))
        (and_then (packet_task env (wc_session conn) (wc_out_rx conn) p
              (\<lambda>sess rx. Return (Inr (sess, rx)))) (\<lambda>result.
            case result of
              Inr (sess, rx) \<Rightarrow> Return (WsOpen (conn\<lparr>wc_session := sess, wc_out_rx := rx\<rparr>))
            | Inl e \<Rightarrow> ws_break_task (conn\<lparr>wc_out_rx := None\<rparr>)))
        (wc_session conn, wc_out_rx conn)"
      unfolding assms(1)
      by (rule obeys_and_then) (auto simp: comes_back_def steady_ws_break split: sum.split)
    with WsBinary d show ?thesis by simp
  qed (use WsBinary in \<open>simp add: steady_ws_break\<close>)
qed (use assms(2) in \<open>auto simp: comes_back_def steady_ws_break Let_def\<close>)

section \<open>The invariant\<close>

declare view_inv.simps [simp del]

text \<open>
  The view a task stands for: that of the connection before the iteration, with the session and
  the receiver it has by now, or none once the connection is bound to end.
\<close>

definition stands_for ::
  "('a \<Rightarrow> view option) \<Rightarrow> 'a broker_task option \<Rightarrow> view option \<Rightarrow> bool" where
  "stands_for view_of t v \<longleftrightarrow>
     (case (t, v) of
        (None, v) \<Rightarrow> v = None
      | (Some t, None) \<Rightarrow> (\<exists>c. steady (\<lambda>x _. view_of x = None) t c)
      | (Some t, Some (se, rx, out)) \<Rightarrow> steady (comes_back view_of out) t (se, rx))"

lemma stands_for_simps [simp]:
  "stands_for view_of None v \<longleftrightarrow> v = None"
  "stands_for view_of (Some t) None \<longleftrightarrow> (\<exists>c. steady (\<lambda>x _. view_of x = None) t c)"
  "stands_for view_of (Some t) (Some (se, rx, out)) \<longleftrightarrow> steady (comes_back view_of out) t (se, rx)"
  by (simp_all add: stands_for_def)

lemma ends_stands_for:
  assumes "view_of x = None"
  shows "stands_for view_of (Some (if_session se handle_disconnect_task (Return x))) None"
proof -
  have "steady (\<lambda>x _. view_of x = None) (if_session se handle_disconnect_task (Return x)) c" for c
    using assms by (auto intro!: steady_if_session steady_disconnect)
  then show ?thesis by simp
qed

text \<open>A connection in its \<open>select!\<close> stands for its own view.\<close>

lemma stands_for_open:
  assumes "stands_for view_of (Some (Return x)) v" and "view_of x = Some w"
  shows "v = Some w"
proof (cases v)
  case (Some u)
  then show ?thesis
    using assms by (cases u; cases w) (auto simp: comes_back_def)
qed (use assms in simp)

lemma view_inv_grows:
  assumes "view_inv env (B, t, V)" and "grows B B'" and "broker_inv B'"
  shows "view_inv env (B', t, V)"
proof (rule view_invI)
  show "t r \<le> length (channel env (calls B') r)" for r
    by (rule length_channel_grows [OF assms(2) view_invD(2) [OF assms(1)]])
  show "t r = 0" if "next_ref B' \<le> r" for r
    using that assms(2) view_invD(3) [OF assms(1), of r] by (simp add: grows_def)
  show "view_ok env B' t v" if "V a = Some v" for a v
    using view_ok_grows [OF view_invD(4) [OF assms(1) that] assms(2) view_invD(2) [OF assms(1)]] .
qed (use assms(3) view_invD(5) [OF assms(1)] in blast)+

text \<open>A critical section of a connection.\<close>

lemma section_view:
  assumes inv: "view_inv env (B, t, V)" and "stands_for view_of (Some (Atomic f k)) (V a)"
  shows "\<exists>v. view_inv env (f B, t, V(a := v)) \<and> stands_for view_of (Some (k B)) v"
proof (cases "V a")
  case None
  with assms(2) obtain c c' where "broker_inv (f B) \<and> moves B (f B) c c'"
    and k: "steady (\<lambda>x _. view_of x = None) (k B) c'"
    using view_invD(1) [OF inv] by (auto elim: obeys_AtomicE)
  then have "grows B (f B)" and "broker_inv (f B)"
    by (simp_all add: moves_def)
  then have "view_inv env (f B, t, V)"
    by (rule view_inv_grows [OF inv])
  moreover have "V(a := None) = V"
    using None by auto
  ultimately show ?thesis
    using k by (intro exI [of _ None]) (auto simp del: split_paired_Ex)
next
  case (Some v)
  obtain se rx out where v: "v = (se, rx, out)" by (cases v) auto
  with assms(2) Some obtain se' rx' where step: "broker_inv (f B)" "moves B (f B) (se, rx) (se', rx')"
    and k: "steady (comes_back view_of out) (k B) (se', rx')"
    using view_invD(1) [OF inv] by (auto elim: obeys_AtomicE)
  have "view_step env (B, t, V) (f B, t, V(a \<mapsto> (se', rx', out)))"
    using Some v step by (auto intro: view_step.inputs)
  from view_inv_step [OF this inv] k show ?thesis
    by (intro exI [of _ "Some (se', rx', out)"]) simp
qed

text \<open>An iteration that starts with an event.\<close>

lemma input_view:
  assumes "stands_for view_of (Some (Return x)) v" and "view_of x = Some (se, rx, out)"
    and "steady (comes_back view_of out) t (se, rx)"
  shows "stands_for view_of (Some t) v"
  using stands_for_open [OF assms(1,2)] assms(3) by simp

text \<open>An iteration that starts with a packet from the channel: it is written, or the connection ends.\<close>

lemma output_view:
  assumes inv: "view_inv env (B, t, V)" and opened: "stands_for view_of (Some (Return x)) (V a)"
    and x: "view_of x = Some (se, Some r, out)"
    and recv: "recv_from_session env (calls B) t (Some r) = Some p"
    and later: "(\<exists>y. u = Return y \<and> view_of y = Some (se, Some r, out @ wire_bytes p)) \<or>
      stands_for view_of (Some u) None"
  shows "\<exists>v. view_inv env (B, t(r := Suc (t r)), V(a := v)) \<and> stands_for view_of (Some u) v"
  using later
proof
  note V = stands_for_open [OF opened x]
  assume "\<exists>y. u = Return y \<and> view_of y = Some (se, Some r, out @ wire_bytes p)"
  then have u: "stands_for view_of (Some u) (Some (se, Some r, out @ wire_bytes p))"
    by (auto simp: comes_back_def)
  from view_inv_step [OF view_step.outputs [of V a, OF V recv] inv] u show ?thesis by blast
next
  note V = stands_for_open [OF opened x]
  assume "stands_for view_of (Some u) None"
  moreover have "view_step env (B, t, V) (B, t(r := Suc (t r)), V(a := None))"
    using view_step.closed [of V a, OF V, of B B "t(r := Suc (t r))" t] recv
      view_invD(1) [OF inv] by simp
  from view_inv_step [OF this inv] have "view_inv env (B, t(r := Suc (t r)), V(a := None))" .
  ultimately show ?thesis by blast
qed

definition lock_views :: "lock_system \<Rightarrow> (nat + nat \<Rightarrow> view option) \<Rightarrow> bool" where
  "lock_views s V \<longleftrightarrow>
     (\<forall>i. stands_for (tcp_view \<circ> Some) (ls_tcp s i) (V (Inl i))) \<and>
     (\<forall>i. stands_for (ws_view \<circ> Some) (ls_ws s i) (V (Inr i)))"

definition lock_inv :: "environment \<Rightarrow> lock_system \<Rightarrow> bool" where
  "lock_inv env s \<longleftrightarrow> (\<exists>V. view_inv env (ls_broker s, ls_taken s, V) \<and> lock_views s V)"

lemma lock_views_tcp:
  "lock_views s V \<Longrightarrow> stands_for (tcp_view \<circ> Some) (Some t) v \<Longrightarrow>
     lock_views (s\<lparr>ls_broker := B, ls_taken := n, ls_tcp := (ls_tcp s)(i \<mapsto> t)\<rparr>) (V(Inl i := v))"
  by (simp add: lock_views_def)

lemma lock_views_ws:
  "lock_views s V \<Longrightarrow> stands_for (ws_view \<circ> Some) (Some t) v \<Longrightarrow>
     lock_views (s\<lparr>ls_broker := B, ls_taken := n, ls_ws := (ls_ws s)(i \<mapsto> t)\<rparr>) (V(Inr i := v))"
  by (simp add: lock_views_def)

lemma lock_inv_start:
  assumes "lock_start s"
  shows "lock_inv env s"
proof -
  have "view_inv env (broker_new, \<lambda>_. 0, Map.empty)"
    by (rule view_invI) (simp_all add: broker_inv_new)
  with assms show ?thesis
    by (auto simp: lock_inv_def lock_start_def lock_views_def)
qed

lemma view_rx:
  "view_inv env (B, t, V) \<Longrightarrow> V a = Some (se, rx, out) \<Longrightarrow> rx = se"
  using view_invD(4) by fastforce

lemma lock_inv_tcp:
  assumes "lock_views s V" and "view_inv env (B, n, V(Inl i := v))"
    and "stands_for (tcp_view \<circ> Some) (Some t) v"
  shows "lock_inv env (s\<lparr>ls_broker := B, ls_taken := n, ls_tcp := (ls_tcp s)(i \<mapsto> t)\<rparr>)"
  using assms lock_views_tcp unfolding lock_inv_def by fastforce

lemma lock_inv_ws:
  assumes "lock_views s V" and "view_inv env (B, n, V(Inr i := v))"
    and "stands_for (ws_view \<circ> Some) (Some t) v"
  shows "lock_inv env (s\<lparr>ls_broker := B, ls_taken := n, ls_ws := (ls_ws s)(i \<mapsto> t)\<rparr>)"
  using assms lock_views_ws unfolding lock_inv_def by fastforce

lemma lock_inv_step:
  assumes "lock_inv env s" and "lock_step env s s'"
  shows "lock_inv env s'"
proof -
  obtain V where inv: "view_inv env (ls_broker s, ls_taken s, V)" and views: "lock_views s V"
    using assms(1) by (auto simp: lock_inv_def)
  have tcp: "stands_for (tcp_view \<circ> Some) (ls_tcp s i) (V (Inl i))"
    and ws: "stands_for (ws_view \<circ> Some) (ls_ws s i) (V (Inr i))" for i
    using views by (simp_all add: lock_views_def)
  have same: "s\<lparr>ls_tcp := T\<rparr> = s\<lparr>ls_broker := ls_broker s, ls_taken := ls_taken s, ls_tcp := T\<rparr>"
    "s\<lparr>ls_taken := n, ls_tcp := T\<rparr> = s\<lparr>ls_broker := ls_broker s, ls_taken := n, ls_tcp := T\<rparr>"
    "s\<lparr>ls_broker := B, ls_tcp := T\<rparr> = s\<lparr>ls_broker := B, ls_taken := ls_taken s, ls_tcp := T\<rparr>"
    "s\<lparr>ls_ws := W\<rparr> = s\<lparr>ls_broker := ls_broker s, ls_taken := ls_taken s, ls_ws := W\<rparr>"
    "s\<lparr>ls_taken := n, ls_ws := W\<rparr> = s\<lparr>ls_broker := ls_broker s, ls_taken := n, ls_ws := W\<rparr>"
    "s\<lparr>ls_broker := B, ls_ws := W\<rparr> = s\<lparr>ls_broker := B, ls_taken := ls_taken s, ls_ws := W\<rparr>"
    for T W n B
    by (cases s; simp)+
  from assms(2) show ?thesis
  proof (cases rule: lock_step.cases)
    case (tcp_accept i)
    then have "V (Inl i) = None" using tcp [of i] by simp
    from view_inv_step [OF view_step.accept [of V, OF this] inv] show ?thesis
      unfolding tcp_accept same by (rule lock_inv_tcp [OF views]) (simp add: tcp_new_def comes_back_def)
  next
    case (tcp_input i conn ev)
    have x: "(tcp_view \<circ> Some) (TcpOpen conn) = Some (tc_session conn, tc_out_rx conn, tc_written conn)"
      by simp
    note V = stands_for_open [OF tcp [of i, unfolded tcp_input(2)] x]
    show ?thesis
      unfolding tcp_input(1) same
    proof (rule lock_inv_tcp [OF views])
      show "view_inv env (ls_broker s, ls_taken s, V(Inl i := V (Inl i)))"
        using inv by simp
      show "stands_for (tcp_view \<circ> Some) (Some (tcp_task env ev conn)) (V (Inl i))"
        using steady_tcp_task [OF view_rx [OF inv V] tcp_input(3)] V by simp
    qed
  next
    case (tcp_output i conn r p w)
    have x: "(tcp_view \<circ> Some) (TcpOpen conn) = Some (tc_session conn, Some r, tc_written conn)"
      using tcp_output(3) by simp
    have recv: "recv_from_session env (calls (ls_broker s)) (ls_taken s) (Some r) = Some p"
      using tcp_output(3,4) by simp
    have "(\<exists>y. tcp_task env (TcpRecv p w) conn = Return y \<and>
          (tcp_view \<circ> Some) y = Some (tc_session conn, Some r, tc_written conn @ wire_bytes p)) \<or>
        stands_for (tcp_view \<circ> Some) (Some (tcp_task env (TcpRecv p w) conn)) None"
      using tcp_output(3) sendable_encode [OF recv_sendable [OF view_invD(1) [OF inv] recv]]
      by (cases w) simp_all
    from output_view [OF inv tcp [of i, unfolded tcp_output(2)] x recv this] show ?thesis
      unfolding tcp_output(1) same by (metis lock_inv_tcp [OF views])
  next
    case (tcp_section i f k)
    from section_view [OF inv, of _ f k "Inl i"] tcp [of i] tcp_section(2)
    show ?thesis
      unfolding tcp_section(1) same by (metis lock_inv_tcp [OF views])
  next
    case (ws_accept i)
    then have "V (Inr i) = None" using ws [of i] by simp
    from view_inv_step [OF view_step.accept [of V, OF this] inv] show ?thesis
      unfolding ws_accept same by (rule lock_inv_ws [OF views]) (simp add: ws_new_def comes_back_def)
  next
    case (ws_input i conn ev)
    have x: "(ws_view \<circ> Some) (WsOpen conn)
        = Some (wc_session conn, wc_out_rx conn, concat (map binary_data (wc_sent conn)))"
      by simp
    note V = stands_for_open [OF ws [of i, unfolded ws_input(2)] x]
    show ?thesis
      unfolding ws_input(1) same
    proof (rule lock_inv_ws [OF views])
      show "view_inv env (ls_broker s, ls_taken s, V(Inr i := V (Inr i)))"
        using inv by simp
      show "stands_for (ws_view \<circ> Some) (Some (ws_task env ev conn)) (V (Inr i))"
        using steady_ws_task [OF view_rx [OF inv V] ws_input(3)] V by simp
    qed
  next
    case (ws_output i conn r p sent)
    have x: "(ws_view \<circ> Some) (WsOpen conn)
        = Some (wc_session conn, Some r, concat (map binary_data (wc_sent conn)))"
      using ws_output(3) by simp
    have recv: "recv_from_session env (calls (ls_broker s)) (ls_taken s) (Some r) = Some p"
      using ws_output(3,4) by simp
    have "(\<exists>y. ws_task env (WsRecv p sent) conn = Return y \<and> (ws_view \<circ> Some) y
          = Some (wc_session conn, Some r, concat (map binary_data (wc_sent conn)) @ wire_bytes p)) \<or>
        stands_for (ws_view \<circ> Some) (Some (ws_task env (WsRecv p sent) conn)) None"
      using ws_output(3) sendable_encode [OF recv_sendable [OF view_invD(1) [OF inv] recv]]
      by (cases sent)
        (simp_all add: Let_def ws_break_task_def ends_stands_for del: stands_for_simps)
    from output_view [OF inv ws [of i, unfolded ws_output(2)] x recv this] show ?thesis
      unfolding ws_output(1) same by (metis lock_inv_ws [OF views])
  next
    case (ws_section i f k)
    from section_view [OF inv, of _ f k "Inr i"] ws [of i] ws_section(2)
    show ?thesis
      unfolding ws_section(1) same by (metis lock_inv_ws [OF views])
  qed
qed

interpretation lock_machine: inductive_invariant lock_start "lock_step env" "lock_inv env" for env
  by unfold_locales (rule lock_inv_start, assumption, rule lock_inv_step)

text \<open>What a connection that waits in its \<open>select!\<close> shows to the outside.\<close>

definition resting :: "'a broker_task option \<Rightarrow> 'a option" where
  "resting t = (case t of Some (Return x) \<Rightarrow> Some x | _ \<Rightarrow> None)"

definition lock_view :: "lock_system \<Rightarrow> nat + nat \<Rightarrow> view option" where
  "lock_view s = views (\<lambda>i. resting (ls_tcp s i)) (\<lambda>i. resting (ls_ws s i))"

lemma resting_Some: "resting t = Some x \<longleftrightarrow> t = Some (Return x)"
  by (auto simp: resting_def split: option.splits task.splits)

lemma resting_Return: "resting (map_option Return x) = x"
  by (cases x) (simp_all add: resting_def)

lemma lock_view_V:
  assumes "lock_views s V" and "lock_view s a = Some v"
  shows "V a = Some v"
proof (cases a)
  case (Inl i)
  with assms(2) obtain x where "ls_tcp s i = Some (Return x)" and "(tcp_view \<circ> Some) x = Some v"
    by (cases "resting (ls_tcp s i)") (auto simp: lock_view_def resting_Some)
  with assms(1) Inl show ?thesis
    unfolding lock_views_def by (metis stands_for_open)
next
  case (Inr i)
  with assms(2) obtain x where "ls_ws s i = Some (Return x)" and "(ws_view \<circ> Some) x = Some v"
    by (cases "resting (ls_ws s i)") (auto simp: lock_view_def resting_Some)
  with assms(1) Inr show ?thesis
    unfolding lock_views_def by (metis stands_for_open)
qed

lemma reachable_lock:
  assumes "reachable lock_start (lock_step env) s"
  obtains V where "view_inv env (ls_broker s, ls_taken s, V)"
    and "\<And>a v. lock_view s a = Some v \<Longrightarrow> V a = Some v"
  using lock_machine.reachable_inv [OF assms] lock_view_V unfolding lock_inv_def by blast

section \<open>Iterations without interruption\<close>

lemma tcp_run_to_end:
  "ls_tcp s i = Some t \<Longrightarrow> run_alone t (ls_broker s) = (x, B) \<Longrightarrow>
     (lock_step env)\<^sup>*\<^sup>* s (s\<lparr>ls_broker := B, ls_tcp := (ls_tcp s)(i \<mapsto> Return x)\<rparr>)"
proof (induction t arbitrary: s)
  case (Return y)
  then have "s\<lparr>ls_broker := B, ls_tcp := (ls_tcp s)(i \<mapsto> Return x)\<rparr> = s"
    by (cases s) (auto simp: fun_upd_idem)
  then show ?case by (simp only: rtranclp.rtrancl_refl)
next
  case (Atomic f k)
  let ?s = "s\<lparr>ls_broker := f (ls_broker s), ls_tcp := (ls_tcp s)(i \<mapsto> k (ls_broker s))\<rparr>"
  have "lock_step env s ?s"
    using Atomic.prems(1) by (rule lock_step.tcp_section)
  moreover have "(lock_step env)\<^sup>*\<^sup>* ?s (?s\<lparr>ls_broker := B, ls_tcp := (ls_tcp ?s)(i \<mapsto> Return x)\<rparr>)"
    using Atomic.prems by (intro Atomic.IH [OF rangeI]) simp_all
  moreover have "?s\<lparr>ls_broker := B, ls_tcp := (ls_tcp ?s)(i \<mapsto> Return x)\<rparr>
      = s\<lparr>ls_broker := B, ls_tcp := (ls_tcp s)(i \<mapsto> Return x)\<rparr>"
    by simp
  ultimately show ?case by (metis converse_rtranclp_into_rtranclp)
qed

lemma reachable_trans:
  "step\<^sup>*\<^sup>* s s' \<Longrightarrow> reachable init step s \<Longrightarrow> reachable init step s'"
  by (induction rule: rtranclp_induct) (auto intro: reachable.next_state)

section \<open>Properties\<close>

text \<open>
  C1: The invariant holds between any two critical sections: in every state the server reaches
  when its connections interleave at the granularity of locks, while bytes arrive, packets are
  handled and answers are written, the invariant of the broker holds.
\<close>

theorem lock_broker_inv:
  assumes "reachable lock_start (lock_step env) s"
  shows "broker_inv (ls_broker s)"
  using reachable_lock [OF assms] view_invD(1) by metis

text \<open>
  C2: What a client reads, whatever happens between the critical sections of the others: when a
  connection waits in its \<open>select!\<close>, its receiver is that of its session and its output is a
  sequence of wire forms of well-formed server packets, of which those since its CONNECT are, in
  order and without gaps, the first packets of the channel of the session it has created.
\<close>

theorem lock_output_exact:
  assumes "reachable lock_start (lock_step env) s" and "lock_view s a = Some (se, rx, out)"
  shows "rx = se \<and> (\<exists>prior. list_all sendable prior \<and>
    out = concat (map wire_bytes (prior @
      (case se of None \<Rightarrow> []
       | Some r \<Rightarrow> take (ls_taken s r) (channel env (calls (ls_broker s)) r)))))"
proof -
  obtain V where inv: "view_inv env (ls_broker s, ls_taken s, V)" and "V a = Some (se, rx, out)"
    using reachable_lock [OF assms(1)] assms(2) by metis
  from view_invD(4) [OF this] show ?thesis by (auto simp: taken_packets_def)
qed

text \<open>
  C13: No two connections that wait in their \<open>select!\<close>, of either transport, share a session or
  a channel, whatever the interleaving, so a packet queued for one client is never written to
  another.
\<close>

theorem lock_connections_apart:
  assumes "reachable lock_start (lock_step env) s"
    and "lock_view s a = Some (se, Some r, out)" and "lock_view s b = Some (se', Some r, out')"
  shows "a = b \<and> r < next_ref (ls_broker s)"
proof -
  obtain V where inv: "view_inv env (ls_broker s, ls_taken s, V)"
    and V: "V a = Some (se, Some r, out)" "V b = Some (se', Some r, out')"
    using reachable_lock [OF assms(1)] assms(2,3) by metis
  have "a = b" using view_invD(5) [OF inv V] by simp
  with view_invD(4) [OF inv V(1)] show ?thesis by auto
qed

section \<open>A run\<close>

text \<open>The server with one TCP connection.\<close>

definition one_connection :: "broker_state \<Rightarrow> nat \<Rightarrow> tcp_status broker_task \<Rightarrow> lock_system" where
  "one_connection B n t =
     \<lparr>ls_broker = B, ls_taken = (\<lambda>_. 0)(0 := n), ls_tcp = [0 \<mapsto> t], ls_ws = Map.empty\<rparr>"

lemma one_connection_simps [simp]:
  "ls_broker (one_connection B n t) = B" "ls_taken (one_connection B n t) = (\<lambda>_. 0)(0 := n)"
  "ls_tcp (one_connection B n t) = [0 \<mapsto> t]"
  "(one_connection B n t)\<lparr>ls_tcp := [0 \<mapsto> u]\<rparr> = one_connection B n u"
  "(one_connection B n t)\<lparr>ls_broker := B', ls_tcp := [0 \<mapsto> u]\<rparr> = one_connection B' n u"
  "(one_connection B n t)\<lparr>ls_taken := (\<lambda>_. 0)(0 := m), ls_tcp := [0 \<mapsto> u]\<rparr> = one_connection B m u"
  by (simp_all add: one_connection_def)

abbreviation demo_reachable :: "lock_system \<Rightarrow> bool" where
  "demo_reachable \<equiv> reachable lock_start (lock_step ideal_env)"

lemma sample_connect_fits: "fits (Connect sample_connect)"
  by (simp add: fits_def connect_bytes_def opt_bytes_def sample_connect_def bytes_of_def
      u16_to_be_bytes_def)

text \<open>A client has connected over TCP, and its CONNECT has arrived.\<close>

lemma demo_reading:
  "demo_reachable (one_connection broker_new 0
     (tcp_task ideal_env (TcpRead (wire_bytes (Connect sample_connect))) tcp_new))"
proof -
  let ?s = "\<lparr>ls_broker = broker_new, ls_taken = (\<lambda>_. 0), ls_tcp = Map.empty, ls_ws = Map.empty\<rparr>"
  have "demo_reachable ?s"
    by (rule reachable.start) (simp add: lock_start_def)
  moreover have "lock_step ideal_env ?s (one_connection broker_new 0 (Return (TcpOpen tcp_new)))"
    using lock_step.tcp_accept [of ?s 0 ideal_env] by (simp add: one_connection_def fun_upd_idem)
  moreover have "lock_step ideal_env (one_connection broker_new 0 (Return (TcpOpen tcp_new)))
      (one_connection broker_new 0
        (tcp_task ideal_env (TcpRead (wire_bytes (Connect sample_connect))) tcp_new))"
    using lock_step.tcp_input [of "one_connection broker_new 0 (Return (TcpOpen tcp_new))" 0 tcp_new
        "TcpRead (wire_bytes (Connect sample_connect))" ideal_env]
    by (simp del: tcp_task.simps)
  ultimately show ?thesis by (blast intro: reachable.next_state)
qed

text \<open>Its session is registered, and its CONNACK is in the channel.\<close>

definition demo_broker :: broker_state where
  "demo_broker = snd (handle_packet ideal_env None None (Connect sample_connect) broker_new)"

definition demo_connack :: packet where
  "demo_connack = Connack \<lparr>ca_session_present = True, ca_return_code = Accepted\<rparr>"

definition demo_conn :: "u8 list \<Rightarrow> tcp_connection" where
  "demo_conn out = \<lparr>tc_session = Some 0, tc_out_rx = Some 0, tc_buf = [], tc_written = out\<rparr>"

lemma demo_broker:
  "handle_packet ideal_env None None (Connect sample_connect) broker_new
     = (Inr (Some 0, Some 0, 60), demo_broker)"
  "calls demo_broker = [(Tx 0, demo_connack)]" "next_ref demo_broker = 1"
  "se_sender (heap demo_broker 0) = Tx 0"
  by (simp_all add: demo_broker_def demo_connack_def handle_packet_connect broker_new_def
      sample_connect_def reply_eq ideal_env_def register_session_def alloc_session_def
      session_new_def Let_def del: handle_packet.simps(1))

lemma demo_channel: "channel ideal_env (calls demo_broker) 0 = [demo_connack]"
  by (simp add: demo_broker(2) channel_def ideal_env_def)

text \<open>A read that is one whole packet.\<close>

lemma read_packet:
  assumes "handle_packet env (tc_session conn) (tc_out_rx conn) p st = (Inr (se, rx, ka), st')"
    and "client_packet p" and "wf_packet p" and "fits p" and "tc_buf conn = []"
  shows "tcp_step env (TcpRead (wire_bytes p)) conn st
    = (TcpOpen (conn\<lparr>tc_session := se, tc_out_rx := rx\<rparr>), st')"
proof -
  have "extract_all (wire_bytes p) = ([p], None, [])"
    using extract_all_wire [of "[p]" "[]"] assms(2-4)
    by (simp add: extract_all.simps [of "[]"] extract_packet_def)
  then have "process_buffer env (tc_session conn) (tc_out_rx conn) (wire_bytes p) st
      = (Inr (se, rx, []), st')"
    using assms(1) by (simp add: process_buffer_eq tcp_dispatch_def)
  then show ?thesis
    using assms(5) by (simp add: wire_bytes_not_Nil)
qed

lemma demo_read:
  "tcp_step ideal_env (TcpRead (wire_bytes (Connect sample_connect))) tcp_new broker_new
     = (TcpOpen (demo_conn []), demo_broker)"
  using read_packet [of ideal_env tcp_new "Connect sample_connect" broker_new, OF _ _ sample_connect_wf
      sample_connect_fits] demo_broker(1)
  by (simp add: tcp_new_def demo_conn_def del: handle_packet.simps(1) tcp_step.simps)

lemma demo_waiting: "demo_reachable (one_connection demo_broker 0 (Return (TcpOpen (demo_conn []))))"
proof -
  let ?t = "tcp_task ideal_env (TcpRead (wire_bytes (Connect sample_connect))) tcp_new"
  have "(lock_step ideal_env)\<^sup>*\<^sup>* (one_connection broker_new 0 ?t)
      ((one_connection broker_new 0 ?t)\<lparr>ls_broker := demo_broker,
        ls_tcp := (ls_tcp (one_connection broker_new 0 ?t))(0 \<mapsto> Return (TcpOpen (demo_conn [])))\<rparr>)"
    by (rule tcp_run_to_end [of _ _ ?t])
      (simp_all add: alone_tcp_task demo_read del: tcp_task.simps tcp_step.simps)
  from reachable_trans [OF this demo_reading] show ?thesis
    by (simp del: tcp_task.simps)
qed

text \<open>It has read its CONNACK.\<close>

lemma demo_written:
  "demo_reachable (one_connection demo_broker 1 (Return (TcpOpen (demo_conn [0x20, 2, 1, 0]))))"
proof -
  have recv: "recv_from_session ideal_env (calls demo_broker) ((\<lambda>_. 0)(0 := 0)) (Some 0) = Some demo_connack"
    by (simp add: recv_from_session_def demo_channel)
  have "tcp_task ideal_env (TcpRecv demo_connack None) (demo_conn [])
      = Return (TcpOpen (demo_conn [0x20, 2, 1, 0]))"
    by (simp add: demo_connack_def encode_connack_def write_fixed_header_def put_u8_def
        encode_remaining_length.simps demo_conn_def)
  then have "lock_step ideal_env (one_connection demo_broker 0 (Return (TcpOpen (demo_conn []))))
      (one_connection demo_broker 1 (Return (TcpOpen (demo_conn [0x20, 2, 1, 0]))))"
    using lock_step.tcp_output [of "one_connection demo_broker 0 (Return (TcpOpen (demo_conn [])))" 0
        "demo_conn []" 0 ideal_env demo_connack None] recv
    by (simp add: demo_conn_def del: tcp_task.simps)
  then show ?thesis by (rule reachable.next_state [OF demo_waiting])
qed

lemma demo_view:
  "lock_view (one_connection demo_broker 1 (Return (TcpOpen (demo_conn [0x20, 2, 1, 0])))) (Inl 0)
     = Some (Some 0, Some 0, [0x20, 2, 1, 0])"
  by (simp add: lock_view_def resting_def demo_conn_def)

text \<open>A connection that has registered its session and not yet sent its CONNACK.\<close>

lemma connect_task:
  assumes "wf_packet (Connect c)" and "fits (Connect c)"
  obtains k where "tcp_task env (TcpRead (wire_bytes (Connect c))) tcp_new = Atomic
     (\<lambda>st. let (r, st) = alloc_session (cp_client_id c) (cp_clean_session c) (cp_keep_alive c) st
        in register_session r st) k" and "\<And>st. \<not> finished (k st)"
  using extract_packet_wire [OF _ assms, of "[]"]
  by (auto simp: tcp_new_def wire_bytes_not_Nil process_buffer_task.simps [of _ _ _ "wire_bytes _"]
      reply_task_def sender_task_def Let_def split_def)

theorem lock_broker_inv_witness:
  "\<exists>s. demo_reachable s \<and> resting (ls_tcp s 0) = None \<and>
     sessions (ls_broker s) [99] = Some 0 \<and> calls (ls_broker s) = [] \<and> broker_inv (ls_broker s)"
proof -
  define f where
    "f = (\<lambda>st. let (r, st) = alloc_session [99] False 60 st in register_session r st)"
  obtain k where task: "tcp_task ideal_env (TcpRead (wire_bytes (Connect sample_connect))) tcp_new
      = Atomic f k"
    and busy: "\<And>st. \<not> finished (k st)"
    using connect_task [OF sample_connect_wf sample_connect_fits]
    by (auto simp: sample_connect_def f_def)
  have "lock_step ideal_env (one_connection broker_new 0 (Atomic f k))
      (one_connection (f broker_new) 0 (k broker_new))"
    using lock_step.tcp_section [of "one_connection broker_new 0 (Atomic f k)" 0 f k ideal_env] by simp
  then have reach: "demo_reachable (one_connection (f broker_new) 0 (k broker_new))"
    by (rule reachable.next_state [OF demo_reading [unfolded task]])
  have "resting (Some (k broker_new)) = None"
    using busy [of broker_new] by (cases "k broker_new") (simp_all add: resting_def)
  moreover have "sessions (f broker_new) [99] = Some 0" and "calls (f broker_new) = []"
    by (simp_all add: f_def alloc_session_def register_session_def broker_new_def session_new_def Let_def)
  ultimately show ?thesis
    using lock_broker_inv [OF reach] reach
    by (intro exI [of _ "one_connection (f broker_new) 0 (k broker_new)"]) simp
qed

theorem lock_output_exact_witness:
  "\<exists>prior. list_all sendable prior \<and> [0x20, 2, 1, 0] = concat (map wire_bytes (prior @
     take 1 (channel ideal_env (calls demo_broker) 0)))"
  using lock_output_exact [OF demo_written demo_view] by simp

theorem lock_connections_apart_witness: "(Inl 0 :: nat + nat) = Inl 0 \<and> 0 < next_ref demo_broker"
  using lock_connections_apart [OF demo_written demo_view demo_view] by simp

section \<open>Delivery cannot get stuck\<close>

lemma lock_output_one:
  assumes inv: "broker_inv (ls_broker s)" and "ls_tcp s i = Some (Return (TcpOpen conn))"
    and "tc_out_rx conn = Some r"
    and "ls_taken s r < length (channel env (calls (ls_broker s)) r)"
  shows "lock_step env s (s\<lparr>ls_taken := (ls_taken s)(r := Suc (ls_taken s r)),
    ls_tcp := (ls_tcp s)(i \<mapsto> Return (TcpOpen (conn\<lparr>tc_written := tc_written conn
      @ wire_bytes (channel env (calls (ls_broker s)) r ! ls_taken s r)\<rparr>)))\<rparr>)"
proof -
  let ?p = "channel env (calls (ls_broker s)) r ! ls_taken s r"
  have recv: "recv_from_session env (calls (ls_broker s)) (ls_taken s) (tc_out_rx conn) = Some ?p"
    using assms(3,4) by (simp add: recv_from_session_def)
  from sendable_encode [OF recv_sendable [OF inv recv]]
  have "tcp_task env (TcpRecv ?p None) conn
      = Return (TcpOpen (conn\<lparr>tc_written := tc_written conn @ wire_bytes ?p\<rparr>))"
    by simp
  with lock_step.tcp_output [OF assms(2,3) recv, of None] show ?thesis by simp
qed

lemma lock_output_all:
  assumes "broker_inv (ls_broker s)" and "ls_tcp s i = Some (Return (TcpOpen conn))"
    and "tc_out_rx conn = Some r"
    and "length (channel env (calls (ls_broker s)) r) = ls_taken s r + n"
  shows "\<exists>s' conn'. (lock_step env)\<^sup>*\<^sup>* s s' \<and> ls_broker s' = ls_broker s \<and>
    ls_tcp s' i = Some (Return (TcpOpen conn')) \<and> tc_session conn' = tc_session conn \<and>
    ls_taken s' r = length (channel env (calls (ls_broker s)) r)"
  using assms
proof (induction n arbitrary: s conn)
  case 0
  then show ?case by (intro exI [of _ s] exI [of _ conn]) simp
next
  case (Suc n)
  let ?conn = "conn\<lparr>tc_written := tc_written conn
      @ wire_bytes (channel env (calls (ls_broker s)) r ! ls_taken s r)\<rparr>"
  let ?s = "s\<lparr>ls_taken := (ls_taken s)(r := Suc (ls_taken s r)),
    ls_tcp := (ls_tcp s)(i \<mapsto> Return (TcpOpen ?conn))\<rparr>"
  have step: "lock_step env s ?s"
    using Suc.prems by (intro lock_output_one) simp_all
  obtain s' conn' where s': "(lock_step env)\<^sup>*\<^sup>* ?s s'" "ls_broker s' = ls_broker s"
    "ls_tcp s' i = Some (Return (TcpOpen conn'))" "tc_session conn' = tc_session conn"
    "ls_taken s' r = length (channel env (calls (ls_broker s)) r)"
    using Suc.IH [of ?s ?conn] Suc.prems by auto
  with converse_rtranclp_into_rtranclp [OF step s'(1)] show ?case by blast
qed

lemma reachable_waiting:
  assumes "reachable lock_start (lock_step env) s" and "ls_tcp s i = Some (Return (TcpOpen conn))"
  shows "view_ok env (ls_broker s) (ls_taken s) (tc_session conn, tc_out_rx conn, tc_written conn)"
    and "broker_inv (ls_broker s)" and "ls_taken s r \<le> length (channel env (calls (ls_broker s)) r)"
proof -
  have "lock_view s (Inl i) = Some (tc_session conn, tc_out_rx conn, tc_written conn)"
    using assms(2) by (simp add: lock_view_def resting_def)
  then obtain V where inv: "view_inv env (ls_broker s, ls_taken s, V)"
    and V: "V (Inl i) = Some (tc_session conn, tc_out_rx conn, tc_written conn)"
    using reachable_lock [OF assms(1)] by metis
  show "view_ok env (ls_broker s) (ls_taken s) (tc_session conn, tc_out_rx conn, tc_written conn)"
    by (rule view_invD(4) [OF inv V])
  show "broker_inv (ls_broker s)" by (rule view_invD(1) [OF inv])
  show "ls_taken s r \<le> length (channel env (calls (ls_broker s)) r)" by (rule view_invD(2) [OF inv])
qed

text \<open>
  C15: Delivery cannot get stuck: from every reachable state, also in the middle of an
  iteration, the server can go on until everything that is queued for the session of a TCP
  connection has been written to it, in order, unless the iteration the connection is in ends
  it: no packet fails to encode, and no interleaving so far makes the
  connection skip a packet.
\<close>

theorem lock_output_drains:
  assumes "reachable lock_start (lock_step env) s" and "ls_tcp s i = Some t"
  shows "\<exists>s'. (lock_step env)\<^sup>*\<^sup>* s s' \<and>
    ((\<exists>res. fst (run_alone t (ls_broker s)) = TcpDone res \<and>
        ls_tcp s' i = Some (Return (TcpDone res))) \<or>
     (\<exists>conn prior. ls_tcp s' i = Some (Return (TcpOpen conn)) \<and> list_all sendable prior \<and>
        tc_written conn = concat (map wire_bytes (prior @
          (case tc_session conn of None \<Rightarrow> []
           | Some r \<Rightarrow> channel env (calls (ls_broker s')) r)))))"
proof -
  obtain x B where run: "run_alone t (ls_broker s) = (x, B)" by fastforce
  let ?s = "s\<lparr>ls_broker := B, ls_tcp := (ls_tcp s)(i \<mapsto> Return x)\<rparr>"
  have steps: "(lock_step env)\<^sup>*\<^sup>* s ?s"
    by (rule tcp_run_to_end [OF assms(2) run])
  show ?thesis
  proof (cases x)
    case (TcpDone res)
    with steps run show ?thesis by (intro exI [of _ ?s]) simp
  next
    case (TcpOpen conn)
    then have at: "ls_tcp ?s i = Some (Return (TcpOpen conn))" by simp
    note wait = reachable_waiting [OF reachable_trans [OF steps assms(1)] at]
    show ?thesis
    proof (cases "tc_session conn")
      case None
      with wait(1) have "\<exists>prior. list_all sendable prior \<and> tc_written conn = concat (map wire_bytes prior)"
        by (auto simp: taken_packets_def)
      with steps at None show ?thesis by (intro exI [of _ ?s]) auto
    next
      case (Some r)
      with wait(1) have rx: "tc_out_rx conn = Some r" by simp
      obtain n where "length (channel env (calls (ls_broker ?s)) r) = ls_taken ?s r + n"
        using wait(3) [of r] le_Suc_ex by blast
      then obtain s' conn' where s': "(lock_step env)\<^sup>*\<^sup>* ?s s'" "ls_broker s' = ls_broker ?s"
        and at': "ls_tcp s' i = Some (Return (TcpOpen conn'))" and se: "tc_session conn' = Some r"
        and taken: "ls_taken s' r = length (channel env (calls (ls_broker s')) r)"
        using lock_output_all [OF wait(2) at rx] Some by metis
      have all: "(lock_step env)\<^sup>*\<^sup>* s s'" using steps s'(1) by (rule rtranclp_trans)
      from reachable_waiting(1) [OF reachable_trans [OF all assms(1)] at'] se taken
      have "\<exists>prior. list_all sendable prior \<and> tc_written conn'
          = concat (map wire_bytes (prior @ channel env (calls (ls_broker s')) r))"
        by (auto simp: taken_packets_def)
      with all at' se show ?thesis by (intro exI [of _ s']) auto
    qed
  qed
qed

theorem lock_output_drains_witness:
  "\<exists>s' conn prior.
     (lock_step ideal_env)\<^sup>*\<^sup>* (one_connection demo_broker 0 (Return (TcpOpen (demo_conn [])))) s' \<and>
     ls_tcp s' 0 = Some (Return (TcpOpen conn)) \<and> tc_written conn = concat (map wire_bytes (prior @
       (case tc_session conn of None \<Rightarrow> []
        | Some r \<Rightarrow> channel ideal_env (calls (ls_broker s')) r)))"
  using lock_output_drains [OF demo_waiting, of 0] by auto


end
