(* ===== verification/Delivery.thy ===== *)
theory Delivery
  imports Lock_System
begin

text \<open>
  Delivery from end to end, from the bytes of a PUBLISH on one connection to the bytes a
  subscriber reads, and the errors a TCP connection can end in.
\<close>

section \<open>Queued packets stay queued\<close>

lemma lock_section_grows:
  assumes "stands_for view_of (Some (Atomic f k)) v" and "broker_inv B"
  shows "grows B (f B)"
proof -
  obtain Q c where "steady Q (Atomic f k) c"
    using assms(1) by (cases v) auto
  then obtain c' where "moves B (f B) c c'"
    using assms(2) by (auto elim: obeys_AtomicE)
  then show ?thesis by (simp add: moves_def)
qed

lemma lock_step_grows:
  assumes "lock_inv env s" and "lock_step env s s'"
  shows "grows (ls_broker s) (ls_broker s')"
proof -
  obtain V where views: "lock_views s V" and "view_inv env (ls_broker s, ls_taken s, V)"
    using assms(1) by (auto simp: lock_inv_def)
  then have inv: "broker_inv (ls_broker s)" by (auto dest: view_invD)
  from assms(2) show ?thesis
  proof (cases rule: lock_step.cases)
    case (tcp_section i f k)
    then show ?thesis
      using views inv lock_section_grows [of _ f k "V (Inl i)"] by (simp add: lock_views_def) metis
  next
    case (ws_section i f k)
    then show ?thesis
      using views inv lock_section_grows [of _ f k "V (Inr i)"] by (simp add: lock_views_def) metis
  qed simp_all
qed

lemma lock_steps_grow:
  "(lock_step env)\<^sup>*\<^sup>* s s' \<Longrightarrow> reachable lock_start (lock_step env) s \<Longrightarrow>
     grows (ls_broker s) (ls_broker s')"
proof (induction rule: rtranclp_induct)
  case (step s1 s2)
  from lock_machine.reachable_inv [OF reachable_trans [OF step.hyps(1) step.prems]] step.hyps(2)
  have "grows (ls_broker s1) (ls_broker s2)" by (rule lock_step_grows)
  with step.IH [OF step.prems] show ?case by (rule grows_trans)
qed simp

text \<open>A send that succeeds puts the packet behind those that were in the channel.\<close>

lemma channel_sent:
  assumes "(Tx r, p) \<in> set xs"
    and "\<And>n. length log \<le> n \<Longrightarrow> n < length log + length xs \<Longrightarrow> send_ok env n"
  shows "\<exists>us vs. channel env (log @ xs) r = channel env log r @ us @ p # vs"
proof -
  obtain ys zs where xs: "xs = ys @ (Tx r, p) # zs"
    using assms(1) by (auto simp: in_set_conv_decomp)
  have "send_ok env (length log + length ys)"
    by (rule assms(2)) (simp_all add: xs)
  then show ?thesis
    by (simp add: xs channel_def enumerate_append_eq) blast
qed

section \<open>From the publisher's bytes to the subscriber's\<close>

lemma subscriber_matches:
  assumes "tree_inv t" and "s \<in> set (subs_at t (topic_key f))" and "is_valid_topic_filter f"
    and "mqtt_match (split_on slash f) (split_on slash topic)"
  shows "s \<in> set (tree_matches t topic)"
proof -
  have "topic_key f \<in> set (visited_filters topic)"
    using assms(3,4) valid_filter_iff [of f]
    by (simp add: visited_filters_def matching_filters_iff topic_key_def canonical_valid
        mqtt_match_prefix)
  with assms(1,2) show ?thesis by (auto simp: tree.matches_stored)
qed

lemma publish_read:
  assumes "pp_qos m = AtMostOnce" and "wf_publish m" and "fits (Publish m)" and "tc_buf conn = []"
  shows "tcp_step env (TcpRead (wire_bytes (Publish m))) conn st
    = (TcpOpen conn, snd (handle_publish env m st))"
  using read_packet [of env conn "Publish m" st] assms
  by (simp add: handle_packet_publish Let_def del: tcp_step.simps)

text \<open>An iteration that starts with a read and is not interrupted.\<close>

lemma tcp_read_steps:
  assumes "ls_tcp s j = Some (Return (TcpOpen conn))"
    and "run_alone (tcp_task env (TcpRead bytes) conn) (ls_broker s) = (status, B)"
  shows "(lock_step env)\<^sup>*\<^sup>* s (s\<lparr>ls_broker := B, ls_tcp := (ls_tcp s)(j \<mapsto> Return status)\<rparr>)"
proof -
  let ?t = "tcp_task env (TcpRead bytes) conn"
  let ?s0 = "s\<lparr>ls_tcp := (ls_tcp s)(j \<mapsto> ?t)\<rparr>"
  have "lock_step env s ?s0"
    by (rule lock_step.tcp_input [OF assms(1)]) simp
  moreover have "(lock_step env)\<^sup>*\<^sup>* ?s0 (?s0\<lparr>ls_broker := B, ls_tcp := (ls_tcp ?s0)(j \<mapsto> Return status)\<rparr>)"
    by (rule tcp_run_to_end [of _ _ ?t]) (simp_all add: assms(2) del: tcp_task.simps)
  moreover have "?s0\<lparr>ls_broker := B, ls_tcp := (ls_tcp ?s0)(j \<mapsto> Return status)\<rparr>
      = s\<lparr>ls_broker := B, ls_tcp := (ls_tcp s)(j \<mapsto> Return status)\<rparr>"
    by simp
  ultimately show ?thesis
    by (metis converse_rtranclp_into_rtranclp)
qed

text \<open>What is queued now is what the connection will have written once it has taken it.\<close>

lemma queued_is_written:
  assumes "reachable lock_start (lock_step env) s" and "(lock_step env)\<^sup>*\<^sup>* s s'"
    and "ls_tcp s' i = Some (Return (TcpOpen conn))" and "tc_session conn = Some r"
    and "length (channel env (calls (ls_broker s)) r) \<le> ls_taken s' r"
  shows "\<exists>prior later. tc_written conn
    = concat (map wire_bytes (prior @ channel env (calls (ls_broker s)) r @ later))"
proof -
  let ?ch = "channel env (calls (ls_broker s)) r"
  from lock_steps_grow [OF assms(2,1)] obtain xs where "calls (ls_broker s') = calls (ls_broker s) @ xs"
    by (auto simp: grows_def)
  then obtain ys where "channel env (calls (ls_broker s')) r = ?ch @ ys"
    using channel_append [of env "calls (ls_broker s)" xs r] by auto
  then have "take (ls_taken s' r) (channel env (calls (ls_broker s')) r)
      = ?ch @ take (ls_taken s' r - length ?ch) ys"
    using assms(5) by simp
  moreover obtain prior where "tc_written conn = concat (map wire_bytes
      (prior @ take (ls_taken s' r) (channel env (calls (ls_broker s')) r)))"
    using reachable_waiting(1) [OF reachable_trans [OF assms(2,1)] assms(3)] assms(4)
    by (auto simp: taken_packets_def)
  ultimately show ?thesis by metis
qed

text \<open>And it can take it all.\<close>

lemma queued_can_be_taken:
  assumes "reachable lock_start (lock_step env) s" and "ls_tcp s i = Some (Return (TcpOpen conn))"
    and "tc_session conn = Some r"
  shows "\<exists>s' conn'. (lock_step env)\<^sup>*\<^sup>* s s' \<and> ls_tcp s' i = Some (Return (TcpOpen conn')) \<and>
    tc_session conn' = Some r \<and> length (channel env (calls (ls_broker s)) r) \<le> ls_taken s' r"
proof -
  note wait = reachable_waiting [OF assms(1,2)]
  obtain n where n: "length (channel env (calls (ls_broker s)) r) = ls_taken s r + n"
    using wait(3) [of r] le_Suc_ex by blast
  have "tc_out_rx conn = Some r"
    using wait(1) assms(3) by simp
  from lock_output_all [OF wait(2) assms(2) this n] assms(3) show ?thesis by auto
qed

text \<open>What a QoS 0 message that matches a subscription leaves in the channel of the subscription.\<close>

lemma published_is_queued:
  assumes "broker_inv B" and "e \<in> set (subs_at (subscriptions B) (topic_key f))"
    and "sub_sender e = Tx r" and "is_valid_topic_filter f"
    and "mqtt_match (split_on slash f) (split_on slash (pp_topic_name m))"
    and "pp_qos m = AtMostOnce" and "snd (handle_publish env m B) = B'"
    and "\<And>n. length (calls B) \<le> n \<Longrightarrow> n < length (calls B') \<Longrightarrow> send_ok env n"
  shows "\<exists>us vs. channel env (calls B') r = channel env (calls B) r @ us @ Publish m # vs"
proof -
  let ?xs = "map (\<lambda>s. (sub_sender s, Publish m)) (tree_matches (subscriptions B) (pp_topic_name m))"
  have B': "calls B' = calls B @ ?xs"
    using assms(7) by (auto simp: handle_publish_qos0 [OF assms(6)])
  have "(Tx r, Publish m) \<in> set ?xs"
    using subscriber_matches [OF broker_invD(1) [OF assms(1)] assms(2,4,5)] assms(3) by force
  from channel_sent [OF this, of "calls B" env] assms(8) show ?thesis
    by (simp add: B')
qed

text \<open>
  C3: End to end, byte for byte: let a TCP connection wait whose session has an entry in the tree
  under a valid filter with the session's own sender (a SUBSCRIBE that finds the sender lock
  taken stores another one), and let the frame of a well-formed QoS 0 PUBLISH on a matching
  topic arrive on any TCP connection whose buffer is empty. After the iteration that reads it,
  if it is not interrupted and its sends succeed, the publishing connection is as before;
  whatever any connections do from then on, interleaved between their critical sections, once
  the subscriber's connection has taken what was queued for it by then, the bytes written to
  its socket contain the frame that arrived, behind everything that was queued before; and the
  server can get there.
\<close>

theorem publish_end_to_end:
  assumes "reachable lock_start (lock_step env) s"
    and "ls_tcp s i = Some (Return (TcpOpen sub))" and "tc_session sub = Some r"
    and "e \<in> set (subs_at (subscriptions (ls_broker s)) (topic_key f))" and "sub_sender e = Tx r"
    and "is_valid_topic_filter f"
    and "mqtt_match (split_on slash f) (split_on slash (pp_topic_name m))"
    and "ls_tcp s j = Some (Return (TcpOpen conn))" and "tc_buf conn = []"
    and "pp_qos m = AtMostOnce" and "wf_publish m" and "fits (Publish m)"
    and "run_alone (tcp_task env (TcpRead (wire_bytes (Publish m))) conn) (ls_broker s) = (status, B)"
    and "\<And>n. length (calls (ls_broker s)) \<le> n \<Longrightarrow> n < length (calls B) \<Longrightarrow> send_ok env n"
    and "s1 = s\<lparr>ls_broker := B, ls_tcp := (ls_tcp s)(j \<mapsto> Return status)\<rparr>"
  shows "(lock_step env)\<^sup>*\<^sup>* s s1 \<and> status = TcpOpen conn \<and>
    (\<forall>s2 sub2. (lock_step env)\<^sup>*\<^sup>* s1 s2 \<and> ls_tcp s2 i = Some (Return (TcpOpen sub2)) \<and>
        tc_session sub2 = Some r \<and> length (channel env (calls B) r) \<le> ls_taken s2 r \<longrightarrow>
      (\<exists>prior between after. tc_written sub2
         = concat (map wire_bytes (prior @ channel env (calls (ls_broker s)) r @ between))
           @ wire_bytes (Publish m) @ after)) \<and>
    (\<exists>s2 sub2. (lock_step env)\<^sup>*\<^sup>* s1 s2 \<and> ls_tcp s2 i = Some (Return (TcpOpen sub2)) \<and>
        tc_session sub2 = Some r \<and> length (channel env (calls B) r) \<le> ls_taken s2 r)"
proof -
  have st: "status = TcpOpen conn" and B: "snd (handle_publish env m (ls_broker s)) = B"
    using assms(13) publish_read [OF assms(10-12,9), of env "ls_broker s"]
    by (simp_all add: alone_tcp_task del: tcp_step.simps tcp_task.simps)
  have steps: "(lock_step env)\<^sup>*\<^sup>* s s1"
    unfolding assms(15) by (rule tcp_read_steps [OF assms(8,13)])
  note reach1 = reachable_trans [OF steps assms(1)]
  have at: "ls_tcp s1 i = Some (Return (TcpOpen sub))" and B1: "ls_broker s1 = B"
    using assms(2,8,15) st by (cases "i = j"; auto)+
  obtain us vs where ch: "channel env (calls B) r
      = channel env (calls (ls_broker s)) r @ us @ Publish m # vs"
    using published_is_queued [OF reachable_waiting(2) [OF assms(1,2)] assms(4-7,10) B assms(14)]
    by blast
  have "\<exists>prior between after. tc_written sub2
      = concat (map wire_bytes (prior @ channel env (calls (ls_broker s)) r @ between))
        @ wire_bytes (Publish m) @ after"
    if s2: "(lock_step env)\<^sup>*\<^sup>* s1 s2" "ls_tcp s2 i = Some (Return (TcpOpen sub2))"
      "tc_session sub2 = Some r" "length (channel env (calls B) r) \<le> ls_taken s2 r" for s2 sub2
  proof -
    obtain prior later where "tc_written sub2
        = concat (map wire_bytes (prior @ channel env (calls B) r @ later))"
      using queued_is_written [OF reach1 s2(1-3)] s2(4) unfolding B1 by blast
    then show ?thesis
      by (intro exI [of _ prior] exI [of _ us] exI) (simp add: ch)
  qed
  with steps st queued_can_be_taken [OF reach1 at assms(3)] show ?thesis
    unfolding B1 by blast
qed

text \<open>The client has subscribed to \<open>a/#\<close>; the SUBACK waits in the channel.\<close>

definition demo_subscribe :: packet where
  "demo_subscribe
     = Subscribe \<lparr>sp_packet_id = PacketId 7, sp_subscriptions = [([97, 47, 35], ExactlyOnce)]\<rparr>"

definition demo_subscribed :: broker_state where
  "demo_subscribed = snd (handle_packet ideal_env (Some 0) (Some 0) demo_subscribe demo_broker)"

lemma demo_subscribe_read:
  "tcp_step ideal_env (TcpRead (wire_bytes demo_subscribe)) (demo_conn out) demo_broker
     = (TcpOpen (demo_conn out), demo_subscribed)"
proof -
  have p: "client_packet demo_subscribe" "wf_packet demo_subscribe" "fits demo_subscribe"
    by (simp_all add: demo_subscribe_def fits_def wf_subscribe_def subscription_bytes_def
        wf_string_def utf8_valid_def bytes_of_def u16_to_be_bytes_def)
  obtain ka where "fst (handle_packet ideal_env (Some 0) (Some 0) demo_subscribe demo_broker)
      = Inr (Some 0, Some 0, ka)"
    by (simp add: demo_subscribe_def split_def Let_def)
  then have "handle_packet ideal_env (tc_session (demo_conn out)) (tc_out_rx (demo_conn out))
      demo_subscribe demo_broker = (Inr (Some 0, Some 0, ka), demo_subscribed)"
    by (simp add: demo_conn_def demo_subscribed_def prod_eq_iff)
  from read_packet [OF this p] show ?thesis
    by (simp add: demo_conn_def del: tcp_step.simps)
qed

lemma demo_subscribed_reachable:
  "demo_reachable (one_connection demo_subscribed 1 (Return (TcpOpen (demo_conn [0x20, 2, 1, 0]))))"
proof -
  let ?c = "demo_conn [0x20, 2, 1, 0]"
  let ?t = "tcp_task ideal_env (TcpRead (wire_bytes demo_subscribe)) ?c"
  have "lock_step ideal_env (one_connection demo_broker 1 (Return (TcpOpen ?c)))
      (one_connection demo_broker 1 ?t)"
    using lock_step.tcp_input [of "one_connection demo_broker 1 (Return (TcpOpen ?c))" 0 ?c
        "TcpRead (wire_bytes demo_subscribe)" ideal_env]
    by (simp del: tcp_task.simps)
  then have "demo_reachable (one_connection demo_broker 1 ?t)"
    by (rule reachable.next_state [OF demo_written])
  moreover have "(lock_step ideal_env)\<^sup>*\<^sup>* (one_connection demo_broker 1 ?t)
      ((one_connection demo_broker 1 ?t)\<lparr>ls_broker := demo_subscribed,
        ls_tcp := (ls_tcp (one_connection demo_broker 1 ?t))(0 \<mapsto> Return (TcpOpen ?c))\<rparr>)"
    by (rule tcp_run_to_end [of _ _ ?t])
      (simp_all add: alone_tcp_task demo_subscribe_read del: tcp_task.simps tcp_step.simps)
  ultimately show ?thesis
    using reachable_trans by (fastforce simp del: tcp_task.simps)
qed

lemma demo_subscription:
  "\<exists>e \<in> set (subs_at (subscriptions demo_subscribed) (topic_key [97, 47, 35])). sub_sender e = Tx 0"
  using foldl_add_stored [of "[97, 47, 35]" "[[97, 47, 35]]" _ "subscriptions demo_broker"]
  by (auto simp: demo_subscribed_def demo_subscribe_def handle_subscribe_def session_sender_def
      demo_broker subscribe_filters_eq is_valid_topic_filter_def ends_with_def ideal_env_def
      reply_eq split_def Let_def intro!: bexI)

theorem publish_end_to_end_witness:
  "\<exists>s' conn prior after.
     (lock_step ideal_env)\<^sup>*\<^sup>* (one_connection demo_subscribed 1
        (Return (TcpOpen (demo_conn [0x20, 2, 1, 0])))) s' \<and>
     ls_tcp s' 0 = Some (Return (TcpOpen conn)) \<and> tc_written conn = concat (map wire_bytes prior)
       @ wire_bytes (Publish (message AtMostOnce [97, 47, 98] None [1])) @ after"
proof -
  let ?m = "message AtMostOnce [97, 47, 98] None [1]" and ?c = "demo_conn [0x20, 2, 1, 0]"
  let ?s = "one_connection demo_subscribed 1 (Return (TcpOpen ?c))"
  obtain e where e: "e \<in> set (subs_at (subscriptions (ls_broker ?s)) (topic_key [97, 47, 35]))"
    "sub_sender e = Tx 0"
    using demo_subscription by auto
  obtain status B where run: "run_alone (tcp_task ideal_env (TcpRead (wire_bytes (Publish ?m))) ?c)
      (ls_broker ?s) = (status, B)"
    by fastforce
  have m: "is_valid_topic_filter [97, 47, 35]" "wf_publish ?m" "fits (Publish ?m)"
    "mqtt_match (split_on slash [97, 47, 35]) (split_on slash (pp_topic_name ?m))"
    by (simp_all add: is_valid_topic_filter_def ends_with_def wf_publish_def wf_string_def
        utf8_valid_def fits_def)
  have c: "ls_tcp ?s 0 = Some (Return (TcpOpen ?c))" "tc_session ?c = Some 0" "tc_buf ?c = []"
    by (simp_all add: demo_conn_def)
  let ?s1 = "?s\<lparr>ls_broker := B, ls_tcp := (ls_tcp ?s)(0 \<mapsto> Return status)\<rparr>"
  have "(lock_step ideal_env)\<^sup>*\<^sup>* ?s ?s1 \<and> status = TcpOpen ?c \<and>
    (\<forall>s2 sub2. (lock_step ideal_env)\<^sup>*\<^sup>* ?s1 s2 \<and> ls_tcp s2 0 = Some (Return (TcpOpen sub2)) \<and>
        tc_session sub2 = Some 0 \<and> length (channel ideal_env (calls B) 0) \<le> ls_taken s2 0 \<longrightarrow>
      (\<exists>prior between after. tc_written sub2
         = concat (map wire_bytes (prior @ channel ideal_env (calls (ls_broker ?s)) 0 @ between))
           @ wire_bytes (Publish ?m) @ after)) \<and>
    (\<exists>s2 sub2. (lock_step ideal_env)\<^sup>*\<^sup>* ?s1 s2 \<and> ls_tcp s2 0 = Some (Return (TcpOpen sub2)) \<and>
        tc_session sub2 = Some 0 \<and> length (channel ideal_env (calls B) 0) \<le> ls_taken s2 0)"
    by (rule publish_end_to_end [OF demo_subscribed_reachable c(1,2) e m(1,4) c(1,3) _ m(2,3) run _ refl])
      (simp_all add: ideal_env_def)
  then show ?thesis
    using rtranclp_trans [of "lock_step ideal_env" ?s ?s1] by blast
qed

section \<open>How a TCP connection fails\<close>

definition fails_well :: "tcp_status \<Rightarrow> bool" where
  "fails_well status \<longleftrightarrow> (\<forall>e. status = TcpDone (Inl e) \<longrightarrow> (\<exists>m. e = Decode m \<or> e = Io m))"

lemma fails_well_simps [simp]:
  "fails_well (TcpOpen conn)" "fails_well (TcpDone (Inr ()))"
  "fails_well (TcpDone (Inl (Decode m)))" "fails_well (TcpDone (Inl (Io m)))"
  by (simp_all add: fails_well_def)

definition tcp_fails_well :: "lock_system \<Rightarrow> bool" where
  "tcp_fails_well s \<longleftrightarrow>
     (\<forall>i t. ls_tcp s i = Some t \<longrightarrow> (\<exists>c. steady (\<lambda>x _. fails_well x) t c))"

lemma steady_fails_well:
  assumes "tc_out_rx conn = tc_session conn" and "\<And>p w. ev \<noteq> TcpRecv p w"
  shows "\<exists>c. steady (\<lambda>x _. fails_well x) (tcp_task env ev conn) c"
proof (cases ev)
  case (TcpRead bytes)
  have "steady (\<lambda>x _. fails_well x)
      (if_session (tc_session conn) handle_disconnect_task (Return (TcpDone (Inr ())))) c" for c
    by (rule steady_if_session) (auto intro: steady_disconnect)
  moreover have "steady (\<lambda>x _. fails_well x)
      (and_then (process_buffer_task env (tc_session conn) (tc_out_rx conn) buf) (\<lambda>result.
           Return (case result of
             Inl e \<Rightarrow> TcpDone (Inl e)
           | Inr (session, out_rx, buf) \<Rightarrow>
               TcpOpen (conn\<lparr>tc_session := session, tc_out_rx := out_rx, tc_buf := buf\<rparr>))))
      (tc_session conn, tc_out_rx conn)" for buf
    by (rule obeys_and_then [OF steady_process_buffer [OF assms(1)]]) (auto split: sum.splits)
  ultimately show ?thesis
    using TcpRead by (auto simp: Let_def simp del: split_paired_Ex)
qed (use assms(2) in auto)

lemma tcp_fails_well_upd:
  "tcp_fails_well s \<Longrightarrow> \<exists>c. steady (\<lambda>x _. fails_well x) t c \<Longrightarrow>
     tcp_fails_well (s\<lparr>ls_broker := B, ls_taken := n, ls_tcp := (ls_tcp s)(i \<mapsto> t)\<rparr>)"
  by (simp add: tcp_fails_well_def)

lemma tcp_fails_well_step:
  assumes "lock_inv env s" and fw: "tcp_fails_well s" and "lock_step env s s'"
  shows "tcp_fails_well s'"
proof -
  obtain V where inv: "view_inv env (ls_broker s, ls_taken s, V)" and "lock_views s V"
    using assms(1) by (auto simp: lock_inv_def)
  then have tcp: "stands_for (tcp_view \<circ> Some) (ls_tcp s i) (V (Inl i))" for i
    by (simp add: lock_views_def)
  have binv: "broker_inv (ls_broker s)" by (rule view_invD(1) [OF inv])
  note [simp] = tcp_fails_well_def
  from assms(3) show ?thesis
  proof (cases rule: lock_step.cases)
    case (tcp_input i conn ev)
    have "tc_out_rx conn = tc_session conn"
      using view_rx [OF inv stands_for_open [OF tcp [of i, unfolded tcp_input(2)]]] by simp
    from steady_fails_well [OF this tcp_input(3)] fw tcp_input(1) show ?thesis
      by (simp del: tcp_task.simps split_paired_Ex)
  next
    case (tcp_output i conn r p w)
    have recv: "recv_from_session env (calls (ls_broker s)) (ls_taken s) (Some r) = Some p"
      using tcp_output(3,4) by simp
    from sendable_encode [OF recv_sendable [OF binv recv]]
    have "\<exists>c. steady (\<lambda>x _. fails_well x) (tcp_task env (TcpRecv p w) conn) c"
      by (simp split: option.split)
    with fw tcp_output(1) show ?thesis
      by (simp del: tcp_task.simps split_paired_Ex)
  next
    case (tcp_section i f k)
    with fw obtain c where "steady (\<lambda>x _. fails_well x) (Atomic f k) c"
      unfolding tcp_fails_well_def by blast
    then have "\<exists>c. steady (\<lambda>x _. fails_well x) (k (ls_broker s)) c"
      using binv by (auto elim: obeys_AtomicE simp del: split_paired_Ex)
    with fw tcp_section(1) show ?thesis
      by (simp del: split_paired_Ex)
  qed (use fw in auto)
qed

interpretation fail_machine: inductive_invariant lock_start "lock_step env"
    "\<lambda>s. lock_inv env s \<and> tcp_fails_well s" for env
proof unfold_locales
  show "lock_inv env s \<and> tcp_fails_well s" if "lock_start s" for s
    using that lock_inv_start by (simp add: lock_start_def tcp_fails_well_def)
qed (use lock_inv_step tcp_fails_well_step in blast)

text \<open>
  C37: The server sends only packets it can encode: whatever the connections do, interleaved
  between their critical sections, a TCP connection that ends with an error ends with a decode
  error of what it has read or with an I/O error of its socket; no packet the server queued for
  it fails to encode, and no handler fails.
\<close>

theorem tcp_connection_errors:
  assumes "reachable lock_start (lock_step env) s"
    and "ls_tcp s i = Some (Return (TcpDone (Inl e)))"
  shows "\<exists>m. e = Decode m \<or> e = Io m"
  using fail_machine.reachable_inv [OF assms(1)] assms(2)
  by (fastforce simp: tcp_fails_well_def fails_well_def)

theorem tcp_connection_errors_witness:
  "\<exists>s. demo_reachable s \<and> ls_tcp s 0 = Some (Return (TcpDone (Inl (Io ''reset'')))) \<and>
     (\<exists>m. Io ''reset'' = Decode m \<or> Io ''reset'' = Io m)"
proof -
  let ?c = "demo_conn [0x20, 2, 1, 0]" and ?fin = "Return (TcpDone (Inl (Io ''reset'')))"
  have "lock_step ideal_env (one_connection demo_broker 1 (Return (TcpOpen ?c)))
      (one_connection demo_broker 1 ?fin)"
    using lock_step.tcp_input [of "one_connection demo_broker 1 (Return (TcpOpen ?c))" 0 ?c
        "TcpReadError ''reset''" ideal_env] by simp
  then have reach: "demo_reachable (one_connection demo_broker 1 ?fin)"
    by (rule reachable.next_state [OF demo_written])
  have at: "ls_tcp (one_connection demo_broker 1 ?fin) 0 = Some ?fin"
    by simp
  show ?thesis
    using reach at tcp_connection_errors [OF reach at] by blast
qed

end
