(* ===== verification/Takeover.thy ===== *)
theory Takeover
  imports Tcp_Server Ws_Server
begin

text \<open>
  A client that connects again while its old connection is still open: what the end of the old
  connection does to the new one.
\<close>

section \<open>A client that is not registered\<close>

text \<open>Nobody is registered as \<open>c\<close>, the client of session \<open>new\<close>.\<close>

definition unregistered :: "rstring \<Rightarrow> nat \<Rightarrow> broker_state \<Rightarrow> bool" where
  "unregistered c new st \<longleftrightarrow> broker_inv st \<and> get_session c st = None \<and>
     se_client_id (heap st new) = c \<and> new < next_ref st"

text \<open>
  A step that keeps it so, and sends no message of QoS 1 or 2 to \<open>new\<close>; the invariant is
  proved elsewhere.
\<close>

definition passes_by :: "rstring \<Rightarrow> nat \<Rightarrow> broker_state \<Rightarrow> broker_state \<Rightarrow> bool" where
  "passes_by c new st st' \<longleftrightarrow>
     (get_session c st = None \<longrightarrow> get_session c st' = None) \<and>
     se_client_id (heap st' new) = se_client_id (heap st new) \<and> next_ref st \<le> next_ref st' \<and>
     (\<exists>out. calls st' = calls st @ out \<and>
        (\<forall>q. (Tx new, Publish q) \<in> set out \<longrightarrow> pp_qos q = AtMostOnce))"

lemma passes_by_refl [simp]: "passes_by c new st st"
  by (simp add: passes_by_def)

lemma passes_by_trans:
  assumes "passes_by c new st st'" and "passes_by c new st' st''"
  shows "passes_by c new st st''"
proof -
  obtain out where 1: "calls st' = calls st @ out"
    "\<forall>q. (Tx new, Publish q) \<in> set out \<longrightarrow> pp_qos q = AtMostOnce"
    using assms(1) unfolding passes_by_def by blast
  obtain out' where 2: "calls st'' = calls st' @ out'"
    "\<forall>q. (Tx new, Publish q) \<in> set out' \<longrightarrow> pp_qos q = AtMostOnce"
    using assms(2) unfolding passes_by_def by blast
  have "calls st'' = calls st @ (out @ out')"
    and "\<forall>q. (Tx new, Publish q) \<in> set (out @ out') \<longrightarrow> pp_qos q = AtMostOnce"
    using 1 2 by auto
  with assms show ?thesis
    unfolding passes_by_def by (metis order_trans)
qed

lemma passes_by_silent:
  "sessions st' = sessions st \<Longrightarrow> se_client_id (heap st' new) = se_client_id (heap st new) \<Longrightarrow>
     next_ref st' = next_ref st \<Longrightarrow> calls st' = calls st \<Longrightarrow> passes_by c new st st'"
  by (simp add: passes_by_def get_session_def)

lemma passes_by_reply: "(\<And>q. p \<noteq> Publish q) \<Longrightarrow> passes_by c new st (reply env r p st)"
  by (auto simp: passes_by_def get_session_def reply_eq)

lemma passes_by_update:
  "(\<And>s. se_client_id (f s) = se_client_id s) \<Longrightarrow> passes_by c new st (update_session r f st)"
  by (rule passes_by_silent) (simp_all add: update_session_def)

lemma passes_by_disconnect: "passes_by c new st (handle_disconnect r st)"
  by (simp add: passes_by_def handle_disconnect_def remove_session_def get_session_def Let_def)

lemma passes_by_acks:
  "passes_by c new st (handle_puback r i st)" "passes_by c new st (handle_pubcomp r i st)"
  "passes_by c new st (handle_pubrec env r i st)" "passes_by c new st (handle_pubrel env r i st)"
  unfolding handle_puback_def handle_pubcomp_def handle_pubrec_def handle_pubrel_def
  by (simp_all add: client_id_acks passes_by_update passes_by_reply
      passes_by_trans [OF passes_by_update passes_by_reply])

lemma passes_by_with_session:
  "(\<And>r. passes_by c new st (f r st)) \<Longrightarrow> passes_by c new st (with_session session f st)"
  by (cases session) simp_all

lemma passes_by_acknowledge:
  "(\<And>i q. ack i \<noteq> Publish q) \<Longrightarrow> passes_by c new st (acknowledge env session i ack st)"
  by (cases session; cases i) (simp_all add: passes_by_reply)

lemma not_recipient:
  assumes "unregistered c new st"
  shows "new \<notin> set (recipients st subs)"
  using assms broker_invD(4) [of st]
  by (auto dest!: recipients_registered simp: unregistered_def get_session_def)

lemma passes_by_publish:
  assumes "unregistered c new st"
  shows "passes_by c new st (snd (handle_publish env p st))"
proof (cases "pp_qos p = AtMostOnce")
  case True
  then show ?thesis
    by (auto simp: passes_by_def handle_publish_qos0 get_session_def)
next
  case False
  have "broker_inv st"
    using assms by (simp add: unregistered_def)
  from publish_calls [OF this False, of env] obtain ids where
    out: "calls (snd (handle_publish env p st)) = calls st
        @ map2 (\<lambda>r i. (Tx r, Publish (qos1_message p i)))
            (recipients st (tree_matches (subscriptions st) (pp_topic_name p))) ids"
    and same: "sessions (snd (handle_publish env p st)) = sessions st"
    by blast
  have "(Tx new, Publish q) \<notin> set (map2 (\<lambda>r i. (Tx r, Publish (qos1_message p i)))
            (recipients st (tree_matches (subscriptions st) (pp_topic_name p))) ids)" for q
    by (rule not_sent_to [OF not_recipient [OF assms]])
  then show ?thesis
    using publish_frame [of env p st new] same
    by (auto simp: passes_by_def out get_session_def)
qed

lemma unregistered_next:
  "unregistered c new st \<Longrightarrow> passes_by c new st st' \<Longrightarrow> broker_inv st' \<Longrightarrow> unregistered c new st'"
  by (auto simp: unregistered_def passes_by_def)

lemma passes_by_packet:
  assumes "unregistered c new st" and "\<And>k. p = Connect k \<Longrightarrow> cp_client_id k \<noteq> c"
  shows "passes_by c new st (snd (handle_packet env session rx p st))"
proof (cases p)
  case (Connect k)
  have "passes_by c new st (register_session (next_ref st)
      (snd (alloc_session (cp_client_id k) (cp_clean_session k) (cp_keep_alive k) st)))"
    using assms Connect
    by (simp add: passes_by_def unregistered_def register_session_def alloc_session_def
        session_new_def get_session_def Let_def)
  then show ?thesis
    unfolding Connect handle_packet_connect snd_conv
    by (rule passes_by_trans) (simp add: passes_by_reply)
next
  case (Publish q)
  have "passes_by c new st (acknowledge env session i (ack_of (pp_qos q)) (snd (handle_publish env q st)))"
    for i
    by (rule passes_by_trans [OF passes_by_publish [OF assms(1)] passes_by_acknowledge])
      (cases "pp_qos q"; simp)
  then show ?thesis
    by (simp add: Publish handle_packet_publish Let_def passes_by_publish [OF assms(1)])
next
  case (Subscribe s)
  have "passes_by c new st (snd (handle_subscribe env r s st))" for r
    by (rule passes_by_silent)
      (simp_all add: handle_subscribe_def session_sender_def subscribe_filters_eq Let_def)
  then show ?thesis
    by (auto simp: Subscribe Let_def split_def
        intro!: passes_by_with_session passes_by_trans [OF _ passes_by_reply])
next
  case (Unsubscribe u)
  have "passes_by c new st (handle_unsubscribe r u st)" for r
    by (rule passes_by_silent) (simp_all add: handle_unsubscribe_def)
  then show ?thesis
    by (auto simp: Unsubscribe Let_def
        intro!: passes_by_with_session passes_by_trans [OF _ passes_by_reply])
qed (auto simp: Let_def intro!: passes_by_with_session passes_by_acks passes_by_reply
      passes_by_disconnect)

section \<open>The end of the old connection\<close>

text \<open>Packets of any connections, one after the other.\<close>

definition handle_many ::
  "environment \<Rightarrow> (nat option \<times> nat option \<times> packet) list \<Rightarrow> broker_state \<Rightarrow> broker_state" where
  "handle_many env = fold (\<lambda>(session, rx, p) st. snd (handle_packet env session rx p st))"

lemma unregistered_many:
  assumes "unregistered c new st"
    and "list_all (\<lambda>(_, _, p). wf_packet p \<and> (\<forall>k. p = Connect k \<longrightarrow> cp_client_id k \<noteq> c)) qs"
  shows "passes_by c new st (handle_many env qs st) \<and> unregistered c new (handle_many env qs st)"
  using assms
proof (induction qs arbitrary: st)
  case (Cons x qs)
  obtain session rx p where x: "x = (session, rx, p)" by (cases x) auto
  let ?st = "snd (handle_packet env session rx p st)"
  have step: "passes_by c new st ?st"
    using Cons.prems x by (intro passes_by_packet) auto
  have "broker_inv ?st"
    using Cons.prems x by (intro broker_inv_handle_packet) (auto simp: unregistered_def)
  from unregistered_next [OF Cons.prems(1) step this] Cons.IH [of ?st] Cons.prems(2)
  have "passes_by c new ?st (handle_many env qs ?st) \<and> unregistered c new (handle_many env qs ?st)"
    by simp
  then show ?case
    using step passes_by_trans by (auto simp: handle_many_def x)
qed (simp add: handle_many_def)

text \<open>The ways in which a connection with session \<open>r\<close> ends through \<open>handle_disconnect\<close>.\<close>

inductive ends :: "environment \<Rightarrow> nat \<Rightarrow> broker_state \<Rightarrow> broker_state \<Rightarrow> bool" for env r st where
  packet: "ends env r st (snd (handle_packet env (Some r) rx Disconnect st))"
| ws_packet: "ends env r st (snd (handle_ws_packet env (Some r) rx Disconnect st))"
| tcp_end: "tc_session conn = Some r \<Longrightarrow> ends env r st (snd (tcp_step env (TcpRead []) conn st))"
| ws_end: "wc_session ws = Some r \<Longrightarrow> ev \<in> {WsClose, WsEnd, WsError e} \<Longrightarrow>
    ends env r st (snd (ws_step env ev ws st))"

lemma ends_disconnect: "ends env r st st' \<Longrightarrow> st' = handle_disconnect r st"
  by (induction rule: ends.induct) (auto simp: after_loop_def ws_break_def Let_def)

text \<open>
  C31: The stale disconnect: when a client has connected again under the same identifier, the
  end of its old connection (a DISCONNECT packet on either transport, the end of a TCP stream,
  the close, end or error of a WebSocket) removes the registration of the new session. From
  then on, whatever packets any connections handle one after the other, until the client
  connects again, the client stays unregistered and no message of QoS 1 or 2 is sent to the
  channel of the new session.
\<close>

theorem stale_disconnect_unregisters:
  assumes "broker_inv st" and "get_session c st = Some new" and "se_client_id (heap st old) = c"
    and "ends env old st st'"
    and "list_all (\<lambda>(_, _, p). wf_packet p \<and> (\<forall>k. p = Connect k \<longrightarrow> cp_client_id k \<noteq> c)) qs"
    and "handle_many env qs st' = st''"
  shows "get_session c st' = None \<and> get_session c st'' = None \<and>
    (\<exists>out. calls st'' = calls st' @ out \<and>
       (\<forall>q. (Tx new, Publish q) \<in> set out \<longrightarrow> pp_qos q = AtMostOnce))"
proof -
  have st': "st' = handle_disconnect old st"
    by (rule ends_disconnect [OF assms(4)])
  have "unregistered c new st'"
    using assms(2,3) broker_invD(4) [OF assms(1)] broker_inv_disconnect [OF assms(1)]
    by (auto simp: unregistered_def st' handle_disconnect_def remove_session_def get_session_def
        Let_def)
  with unregistered_many [OF this assms(5), of env] show ?thesis
    unfolding assms(6) by (auto simp: unregistered_def passes_by_def)
qed

theorem stale_disconnect_unregisters_witness:
  "get_session [99] connected_twice = Some 1 \<and>
   get_session [99] (handle_many ideal_env [(Some 1, Some 1, Pingreq)]
     (snd (handle_packet ideal_env (Some 0) (Some 0) Disconnect connected_twice))) = None"
proof -
  have inv: "broker_inv connected_twice"
    unfolding connected_twice_def
    by (intro broker_inv_handle_packet broker_inv_new sample_connect_wf)
  have c: "get_session [99] connected_twice = Some 1"
      "se_client_id (heap connected_twice 0) = [99]"
    by (simp_all add: connected_twice_def handle_packet_connect reply_eq register_session_def
        alloc_session_def broker_new_def session_new_def sample_connect_def get_session_def
        Let_def del: handle_packet.simps(1))
  show ?thesis
    using stale_disconnect_unregisters [OF inv c ends.packet _ refl,
        of "[(Some 1, Some 1, Pingreq)]" ideal_env "Some 0"] c(1)
    by simp
qed

end
