(* ===== verification/Progress.thy ===== *)
theory Progress
  imports Interleaving
begin

text \<open>
  Termination: how many critical sections handlers take, whatever runs in between, and with
  it a bound for every interleaving of any connections.
\<close>

section \<open>The size of the tree\<close>

text \<open>At most \<open>n\<close> subscriptions match any topic.\<close>

definition matches_le :: "broker_state \<Rightarrow> nat \<Rightarrow> bool" where
  "matches_le st n \<longleftrightarrow> tree_inv (subscriptions st) \<and>
     (\<forall>topic. length (tree_matches (subscriptions st) topic) \<le> n)"

lemma matches_le_cong: "subscriptions st' = subscriptions st \<Longrightarrow> matches_le st' n = matches_le st n"
  by (simp add: matches_le_def)

lemma matches_le_add:
  assumes "matches_le st n"
  shows "matches_le (st\<lparr>subscriptions := tree_add (subscriptions st) f s\<rparr>) (Suc n)"
proof -
  have "length (tree_matches (tree_add t f s) topic) \<le> Suc (length (tree_matches t topic))"
    if "tree_inv t" for t topic
    using arg_cong [OF tree.mset_matches_add [OF that, of f s topic], of size] by simp
  with assms show ?thesis
    by (fastforce simp: matches_le_def tree.invar_add intro: le_trans)
qed

lemma length_concat_le:
  "(\<And>x. length (f x) \<le> length (g x)) \<Longrightarrow>
     length (concat (map f xs)) \<le> length (concat (map g xs))"
  by (induction xs) (auto intro: add_mono)

lemma matches_le_remove:
  assumes "matches_le st n"
  shows "matches_le (handle_unsubscribe r u st) n"
proof -
  have le: "length (tree_matches (tree_remove t f c) topic) \<le> length (tree_matches t topic)"
    if "tree_inv t" for t f c topic
    using that length_concat_le [of "subs_at (tree_remove t f c)" "subs_at t"]
    by (simp add: tree.matches_stored tree.invar_remove tree.stored_remove)
  have "tree_inv (foldl (\<lambda>t f. tree_remove t f c) t fs) \<and>
      length (tree_matches (foldl (\<lambda>t f. tree_remove t f c) t fs) topic) \<le> length (tree_matches t topic)"
    if "tree_inv t" for t c fs topic
    using that
  proof (induction fs arbitrary: t)
    case (Cons f fs)
    show ?case
      using Cons.IH [OF tree.invar_remove [OF Cons.prems, of f c]] le [OF Cons.prems, of f c topic]
      by (simp add: order_trans)
  qed simp
  with assms show ?thesis
    by (fastforce simp: matches_le_def handle_unsubscribe_def intro: le_trans)
qed

lemma matches_le_remove_all:
  "matches_le st n \<Longrightarrow> matches_le (st\<lparr>subscriptions := tree_remove_all (subscriptions st) c\<rparr>) n"
  unfolding matches_le_def
  by (simp add: tree.invar_remove_all tree.matches_remove_all) (blast intro: le_trans length_filter_le)

section \<open>Budgets of the handlers\<close>

text \<open>
  The annotation \<open>(a, b)\<close> of a task allows it \<open>a\<close> more subscriptions and \<open>b\<close> more
  critical sections. At no time more than \<open>N\<close> subscriptions match a topic, counting the
  subscriptions still allowed.
\<close>

fun spends :: "nat \<Rightarrow> nat \<times> nat \<Rightarrow> broker_state \<Rightarrow> broker_state \<Rightarrow> nat \<times> nat \<Rightarrow> bool" where
  "spends N (a, b) st st' (a', b') \<longleftrightarrow> b' < b \<and> a' \<le> a \<and>
     (\<forall>n. matches_le st n \<longrightarrow> n + a \<le> N \<longrightarrow> matches_le st' (n + (a - a')))"

abbreviation handler_budget :: "nat \<Rightarrow> 'a broker_task \<Rightarrow> nat \<Rightarrow> nat \<Rightarrow> bool" where
  "handler_budget N t a b \<equiv> obeys (\<lambda>st. matches_le st N) (spends N) (\<lambda>_ _. True) t (a, b)"

lemma matches_le_mono: "matches_le st n \<Longrightarrow> n \<le> m \<Longrightarrow> matches_le st m"
  by (auto simp: matches_le_def intro: le_trans)

lemma budget_more:
  assumes "handler_budget N t a b" and "a \<le> a'" and "b \<le> b'"
  shows "handler_budget N t a' b'"
proof -
  let ?g = "\<lambda>c. (fst c + (a' - a), snd c + (b' - b))"
  have "obeys (\<lambda>st. matches_le st N) (spends N) (\<lambda>_ _. True) t (?g (a, b))"
    by (rule obeys_mono [OF assms(1)]) auto
  with assms(2,3) show ?thesis by simp
qed

lemmas budget_mono = budget_more [OF _ le_refl]

lemma budget_step:
  assumes "\<And>st n. matches_le st n \<Longrightarrow> matches_le (f st) n"
    and "\<And>st. matches_le st N \<Longrightarrow> handler_budget N (k st) a b"
  shows "handler_budget N (Atomic f k) a (Suc b)"
  by (rule obeys_Atomic [where c' = "\<lambda>_. (a, b)"]) (simp_all add: assms)

lemma budget_quiet:
  assumes "\<And>st. subscriptions (f st) = subscriptions st" and "\<And>st. handler_budget N (k st) a b"
  shows "handler_budget N (Atomic f k) a (Suc b)"
  by (rule budget_step) (simp_all only: matches_le_cong [OF assms(1)] assms(2))

lemma budget_act:
  "(\<And>st n. matches_le st n \<Longrightarrow> matches_le (f st) n) \<Longrightarrow> handler_budget N k a b \<Longrightarrow>
     handler_budget N (act f k) a (Suc b)"
  unfolding act_def by (rule budget_step)

lemma budget_update: "handler_budget N k a b \<Longrightarrow> handler_budget N (act (update_session r f) k) a (Suc b)"
  unfolding act_def by (rule budget_quiet) (simp_all add: update_session_def)

lemma budget_send:
  "(\<And>b. handler_budget N (k b) a c) \<Longrightarrow> handler_budget N (send_task env tx p k) a (Suc c)"
  unfolding send_task_def by (rule budget_quiet) simp_all

lemma budget_reply:
  "handler_budget N k a b \<Longrightarrow> handler_budget N (reply_task env r p k) a (b + 2)"
  unfolding reply_task_def sender_task_def add_2_eq_Suc'
  by (intro budget_quiet budget_send) (simp_all add: session_sender_def)

lemma budget_new_packet_id:
  assumes "\<And>i. handler_budget N (k i) a b"
  shows "handler_budget N (new_packet_id_task r k) a (b + 2)"
  unfolding new_packet_id_task_def add_2_eq_Suc'
  by (rule budget_quiet)
    (auto simp: Let_def update_session_def intro: budget_mono [OF assms] budget_update [OF assms])

lemma budget_enqueue:
  assumes "handler_budget N k a b"
  shows "handler_budget N (enqueue_publish_task env r p k) a (b + 4)"
proof -
  note k = assms budget_mono [OF assms le_SucI [OF le_refl]] budget_update [OF assms]
  have "handler_budget N (send_task env tx q (\<lambda>sent. if \<not> sent then k else
      (case pp_qos p of AtLeastOnce \<Rightarrow> act (update_session r f) k
       | ExactlyOnce \<Rightarrow> act (update_session r g) k | AtMostOnce \<Rightarrow> k))) a (b + 2)" for tx q f g
    unfolding add_2_eq_Suc' by (rule budget_send) (auto simp: k split: qos.split)
  from budget_new_packet_id [OF this]
  have "handler_budget N (new_packet_id_task r (\<lambda>i. send_task env (tx i) (q i) (\<lambda>sent. if \<not> sent then k else
      (case pp_qos p of AtLeastOnce \<Rightarrow> act (update_session r (f i)) k
       | ExactlyOnce \<Rightarrow> act (update_session r (g i)) k | AtMostOnce \<Rightarrow> k)))) a (b + 4)" for tx q f g
    by (simp add: numeral_eq_Suc)
  moreover have "handler_budget N (send_task env tx q (\<lambda>_. k)) a (b + 4)" for tx q
    by (rule budget_mono [OF budget_send [OF assms]]) simp
  ultimately show ?thesis
    by (simp add: enqueue_publish_task_def Let_def cong: if_cong)
qed

lemma budget_deliver:
  assumes "handler_budget N k a b"
  shows "handler_budget N (deliver_task env p s k) a (b + 5)"
proof -
  have "handler_budget N (send_task env tx q (\<lambda>_. k)) a (b + 5)" for tx q
    by (rule budget_mono [OF budget_send [OF assms]]) simp
  moreover have "handler_budget N (look (get_session c) (\<lambda>found. case found of
      Some r \<Rightarrow> enqueue_publish_task env r q k | None \<Rightarrow> k)) a (Suc (b + 4))" for c q
    unfolding look_def
    by (rule budget_step)
      (auto split: option.split intro: budget_enqueue [OF assms] budget_mono [OF assms])
  ultimately show ?thesis
    by (simp add: deliver_task_def Let_def numeral_eq_Suc)
qed

lemma budget_publish:
  assumes "handler_budget N k a b"
  shows "handler_budget N (handle_publish_task env p k) a (b + 1 + 5 * N)"
proof -
  have all: "handler_budget N (foldr (deliver_task env p) subs k) a (b + 5 * length subs)" for subs
    by (induction subs) (use assms budget_deliver in \<open>force simp: algebra_simps\<close>)+
  have "handler_budget N (handle_publish_task env p k) a (Suc (b + 5 * N))"
    unfolding handle_publish_task_def look_def
    by (rule budget_step) (assumption, rule budget_mono [OF all], simp add: matches_le_def)
  then show ?thesis by simp
qed

lemma budget_subscribe_filters:
  assumes "\<And>codes. handler_budget N (k codes) a b"
  shows "handler_budget N (subscribe_filters_task tx c subs codes k) (a + length subs) (b + length subs)"
  using assms
proof (induction tx c subs codes k rule: subscribe_filters_task.induct)
  case (2 tx c topic q rest codes k)
  show ?case
  proof (cases "is_valid_topic_filter topic")
    case True
    let ?s = "\<lparr>sub_client_id = c, sub_sender = tx, sub_qos = AtLeastOnce\<rparr>"
    have "handler_budget N (act (\<lambda>st. st\<lparr>subscriptions := tree_add (subscriptions st) topic ?s\<rparr>)
        (subscribe_filters_task tx c rest (codes @ [granted_code AtLeastOnce]) k))
        (Suc (a + length rest)) (Suc (b + length rest))"
      unfolding act_def
      by (rule obeys_Atomic [where c' = "\<lambda>_. (a + length rest, b + length rest)"])
        (use 2 True in \<open>simp_all add: matches_le_add\<close>)
    with True show ?thesis by (simp add: Let_def)
  next
    case False
    then show ?thesis
      using budget_more [OF 2(2) [OF False 2(3)]] by simp
  qed
qed simp

text \<open>
  The critical sections a packet takes when at most \<open>n\<close> subscriptions match any topic, and
  the subscriptions it may add.
\<close>

fun packet_cost :: "nat \<Rightarrow> packet \<Rightarrow> nat" where
  "packet_cost n (Connect _) = 3"
| "packet_cost n (Publish _) = 5 * n + 3"
| "packet_cost n (Puback _) = 1"
| "packet_cost n (Pubrec _) = 3"
| "packet_cost n (Pubrel _) = 2"
| "packet_cost n (Pubcomp _) = 1"
| "packet_cost n (Subscribe s) = length (sp_subscriptions s) + 3"
| "packet_cost n (Unsubscribe _) = 3"
| "packet_cost n Pingreq = 2"
| "packet_cost n Disconnect = 2"
| "packet_cost n _ = 0"

fun packet_adds :: "packet \<Rightarrow> nat" where
  "packet_adds (Subscribe s) = length (sp_subscriptions s)"
| "packet_adds _ = 0"

lemma budget_disconnect:
  "handler_budget N k a b \<Longrightarrow> handler_budget N (handle_disconnect_task r k) a (b + 2)"
  unfolding handle_disconnect_task_def add_2_eq_Suc' remove_session_def
  by (intro budget_act matches_le_remove_all) (simp_all cong: matches_le_cong)

lemma budget_if_session:
  "(\<And>r. handler_budget N (f r k) a b) \<Longrightarrow> handler_budget N k a b \<Longrightarrow>
     handler_budget N (if_session session f k) a b"
  by (cases session) (simp_all add: if_session_def)

lemma budget_acknowledge:
  "handler_budget N k a b \<Longrightarrow> handler_budget N (acknowledge_task env session i ack k) a (b + 2)"
  by (cases session; cases i)
    (auto simp: acknowledge_task_def simp del: add_2_eq_Suc' intro: budget_reply elim: budget_mono)

lemma budget_packet:
  assumes "\<And>s rx. handler_budget N (k s rx) a b"
  shows "handler_budget N (packet_task env session rx p k) (a + packet_adds p) (b + packet_cost N p)"
proof -
  note k = assms and later = budget_mono [OF assms]
  show ?thesis
  proof (cases p)
    case (Connect c)
    have "handler_budget N (packet_task env session rx p k) a (Suc (b + 2))"
      unfolding Connect packet_task.simps
      by (rule budget_quiet)
        (auto simp: alloc_session_def register_session_def split_def Let_def simp del: add_2_eq_Suc'
          intro: budget_reply k)
    with Connect show ?thesis by (simp add: numeral_eq_Suc)
  next
    case (Publish q)
    have "handler_budget N (packet_task env session rx p k) a (b + 2 + 1 + 5 * N)"
      unfolding Publish packet_task_publish
      by (rule budget_publish)
        (auto simp del: add_2_eq_Suc' intro: budget_acknowledge k later)
    from budget_mono [OF this, of "b + packet_cost N p"] Publish show ?thesis by simp
  next
    case (Subscribe s)
    have "handler_budget N (subscribe_filters_task tx c (sp_subscriptions s) []
        (\<lambda>codes. reply_task env r (Suback (f codes)) (k session rx)))
        (a + length (sp_subscriptions s)) (b + 2 + length (sp_subscriptions s))" for tx c r f
      by (rule budget_subscribe_filters) (rule budget_reply [OF k])
    then have "handler_budget N (handle_subscribe_task env r s
        (\<lambda>suback. reply_task env r (Suback suback) (k session rx)))
        (a + length (sp_subscriptions s)) (Suc (b + 2 + length (sp_subscriptions s)))" for r
      unfolding handle_subscribe_task_def
      by (intro budget_quiet) (simp_all add: session_sender_def)
    with Subscribe show ?thesis
      by (auto simp: numeral_eq_Suc algebra_simps
          intro!: budget_if_session budget_more [OF k])
  next
    case (Unsubscribe u)
    have "handler_budget N (handle_unsubscribe_task r u (reply_task env r q (k session rx))) a
        (Suc (b + 2))" for r q
      unfolding handle_unsubscribe_task_def
      by (intro budget_act budget_reply k matches_le_remove)
    with Unsubscribe show ?thesis
      by (auto simp: numeral_eq_Suc intro!: budget_if_session later)
  qed (simp_all add: k numeral_eq_Suc handle_puback_task_def handle_pubrec_task_def
      handle_pubrel_task_def handle_pubcomp_task_def budget_if_session later budget_update
      budget_reply [unfolded add_2_eq_Suc'] budget_disconnect [unfolded add_2_eq_Suc'])
qed

definition connection_cost :: "nat \<Rightarrow> packet list \<Rightarrow> nat" where
  "connection_cost n ps = sum_list (map (packet_cost n) ps) + 2"

definition connection_adds :: "packet list \<Rightarrow> nat" where
  "connection_adds ps = sum_list (map packet_adds ps)"

lemma budget_connection:
  "handler_budget N (connection_task env session rx ps) (connection_adds ps) (connection_cost N ps)"
proof (induction ps arbitrary: session rx)
  case Nil
  show ?case
    using budget_disconnect [of N "Return (Inr ())" 0 0]
    by (auto simp: connection_cost_def connection_adds_def simp del: add_2_eq_Suc'
        intro!: budget_if_session)
next
  case (Cons p ps)
  from budget_packet [OF Cons.IH, of env session rx p] show ?case
    by (simp add: connection_cost_def connection_adds_def ac_simps)
qed

text \<open>The allowances of the tasks of a pool.\<close>

definition budget_left :: "nat \<Rightarrow> nat \<Rightarrow> broker_state event list \<Rightarrow> broker_state \<Rightarrow> (nat \<times> nat) list \<Rightarrow> bool"
  where
  "budget_left N most es st cs \<longleftrightarrow>
     (\<exists>n. matches_le st n \<and> n + sum_list (map fst cs) \<le> N) \<and>
     length es + sum_list (map snd cs) \<le> most"

lemma sum_list_update_nat:
  fixes xs :: "nat list"
  shows "i < length xs \<Longrightarrow> sum_list (xs[i := y]) + xs ! i = sum_list xs + y"
  using member_le_sum_list [of "xs ! i" xs] by (simp add: sum_list_update)

lemma budget_left_section:
  assumes "budget_left N most es st cs" and "i < length cs" and "spends N (cs ! i) st st' c'"
  shows "budget_left N most (es @ [(i, st, st')]) st' (cs[i := c'])"
proof -
  obtain a b a' b' where c: "cs ! i = (a, b)" "c' = (a', b')" by fastforce
  obtain n where n: "matches_le st n" "n + sum_list (map fst cs) \<le> N"
    using assms(1) by (auto simp: budget_left_def)
  have fst: "sum_list (map fst (cs[i := c'])) + a = sum_list (map fst cs) + a'"
    and snd: "sum_list (map snd (cs[i := c'])) + b = sum_list (map snd cs) + b'"
    using sum_list_update_nat [of i "map fst cs" a'] sum_list_update_nat [of i "map snd cs" b']
      assms(2) c by (simp_all add: map_update)
  have le: "a \<le> sum_list (map fst cs)" and s: "b' < b" "a' \<le> a"
    using assms(2,3) c member_le_sum_list [of a "map fst cs"] nth_mem [OF assms(2)] by force+
  have "matches_le st n \<Longrightarrow> n + a \<le> N \<Longrightarrow> matches_le st' (n + (a - a'))"
    using assms(3) unfolding c by (simp del: Nat.add_diff_assoc2 Nat.add_diff_assoc)
  then have "matches_le st' (n + (a - a'))"
    using n le by linarith
  moreover have "n + (a - a') + sum_list (map fst (cs[i := c'])) \<le> N"
    using n(2) fst s(2) le by linarith
  moreover have "length (es @ [(i, st, st')]) + sum_list (map snd (cs[i := c'])) \<le> most"
    using assms(1) snd s(1) by (simp add: budget_left_def)
  ultimately show ?thesis by (auto simp: budget_left_def)
qed

interpretation budgets: pool_protocol "\<lambda>st. matches_le st N" "spends N" "budget_left N most"
  for N most
proof unfold_locales
  show "matches_le st N" if "budget_left N most es st cs" for es st cs
    using that by (auto simp: budget_left_def intro: matches_le_mono)
qed (rule budget_left_section)

text \<open>
  C10: The handlers terminate in every interleaving: connections that handle any packets,
  interleaved in any way, take together no more critical sections than the given sum over the
  packets, in which a PUBLISH costs five sections for every subscription any of them asks for
  and every other packet a constant and one section per filter. So no publish can be kept
  going by subscriptions that others add meanwhile. How long a section waits for its lock is
  not part of the model.
\<close>

theorem interleavings_terminate:
  assumes "pool_run broker_new (map (connection_task env None None) pss) es st ts"
    and "sum_list (map connection_adds pss) = n"
  shows "length es \<le> sum_list (map (connection_cost n) pss)"
proof -
  have "matches_le broker_new 0"
    by (simp add: matches_le_def broker_new_def tree_matches_eq)
  with assms(2) have "budget_left n (sum_list (map (connection_cost n) pss)) [] broker_new
      (map (\<lambda>ps. (connection_adds ps, connection_cost n ps)) pss)"
    by (auto simp: budget_left_def comp_def)
  from budgets.pool [OF assms(1) this, where Q = "\<lambda>_ _. True"] budget_connection
  show ?thesis by (auto simp: budget_left_def)
qed

theorem interleavings_terminate_witness:
  "length (fst (scheduled [0, 0, 0, 1, 0, 1, 0, 1, 1, 1] broker_new
     (map (connection_task ideal_env None None) [[Connect sample_connect], [Connect sample_connect]]))) \<le> 10"
proof -
  obtain es st ts where run: "scheduled [0, 0, 0, 1, 0, 1, 0, 1, 1, 1] broker_new
      (map (connection_task ideal_env None None) [[Connect sample_connect], [Connect sample_connect]])
      = (es, st, ts)"
    by (metis prod_cases3)
  from interleavings_terminate [OF scheduled_run [OF run] refl] show ?thesis
    unfolding run by (simp add: connection_cost_def)
qed

end
