(* ===== verification/Races.thy ===== *)
theory Races
  imports Interleaving
begin

text \<open>
  Races: interleavings of two handlers whose outcome differs from both sequential orders.
\<close>

section \<open>An acknowledgement before the insertion\<close>

lemmas publish_run =
  handle_publish_task_def deliver_task_def enqueue_publish_task_def new_packet_id_task_def
  send_task_def act_def look_def Let_def min_AtLeastOnce

text \<open>
  C33: An acknowledgement that overtakes the insertion is lost. \<open>enqueue_publish\<close> puts a
  message of QoS 1 into the client's channel before it inserts it into the table of
  unacknowledged messages: when the client's PUBACK is handled between the two, the message
  stays in the table as if it had never been acknowledged. When the PUBACK is handled after the
  insertion, the message is gone.
\<close>

theorem ack_overtakes_insert:
  assumes "broker_inv st" and "pp_qos p = AtLeastOnce"
    and "tree_matches (subscriptions st) (pp_topic_name p) = [s]"
    and "get_session (sub_client_id s) st = Some r"
    and "se_next_packet_id (heap st r) = n" and "n \<noteq> 0"
    and "send_ok env (length (calls st))"
    and "ts = [handle_publish_task env p (Return (Inr ())), packet_task env (Some r) (Some r) (Puback (PacketId n)) (\<lambda>_ _. Return (Inr ()))]"
    and "scheduled [0, 0, 0, 0, 1, 0] st ts = (es1, st1, ts1)"
    and "scheduled [0, 0, 0, 0, 0, 1] st ts = (es2, st2, ts2)"
  shows "ts1 = [Return (Inr ()), Return (Inr ())] \<and> ts2 = [Return (Inr ()), Return (Inr ())] \<and> calls st1 = calls st2 \<and>
    (Tx r, Publish (qos1_message p (PacketId n))) \<in> set (calls st1) \<and>
    se_pending_qos1 (heap st1 r) (PacketId n) = Some \<lparr>p1_packet = qos1_message p (PacketId n)\<rparr> \<and>
    se_pending_qos1 (heap st2 r) (PacketId n) = None"
proof -
  have s: "sub_qos s = AtLeastOnce"
    using matches_qos1 [OF assms(1), of "pp_topic_name p"] assms(3) by simp
  have tx: "se_sender (heap st r) = Tx r"
    using broker_invD(3) [OF assms(1), of r] by (simp add: session_ok_def)
  show ?thesis
    using assms(9,10) assms(2-7) s tx
    by (auto simp: assms(8) publish_run if_session_def handle_puback_task_def update_session_def
        get_session_def send_def insert_qos1_def session_puback_def qos1_message_def)
qed

lemma one_subscriber_session:
  "get_session [99] one_subscriber = Some 0" "se_next_packet_id (heap one_subscriber 0) = 1"
  "se_client_id (heap one_subscriber 0) = [99]" "next_ref one_subscriber = 1"
  by (simp_all add: one_subscriber_def alloc_session_def register_session_def broker_new_def
      get_session_def session_new_def Let_def)

theorem ack_overtakes_insert_witness:
  fixes m :: publish_packet
  defines "m \<equiv> message AtLeastOnce [97, 47, 98] None [1]"
  shows "se_pending_qos1 (heap (fst (snd (scheduled [0, 0, 0, 0, 1, 0] one_subscriber
      [handle_publish_task ideal_env m (Return (Inr ())),
       packet_task ideal_env (Some 0) (Some 0) (Puback (PacketId 1)) (\<lambda>_ _. Return (Inr ()))]))) 0) (PacketId 1)
    = Some \<lparr>p1_packet = qos1_message m (PacketId 1)\<rparr>"
proof -
  let ?ts = "[handle_publish_task ideal_env m (Return (Inr ())),
       packet_task ideal_env (Some 0) (Some 0) (Puback (PacketId 1)) (\<lambda>_ _. Return (Inr ()))]"
  obtain es1 st1 ts1 where 1: "scheduled [0, 0, 0, 0, 1, 0] one_subscriber ?ts = (es1, st1, ts1)"
    by (metis prod_cases3)
  obtain es2 st2 ts2 where 2: "scheduled [0, 0, 0, 0, 0, 1] one_subscriber ?ts = (es2, st2, ts2)"
    by (metis prod_cases3)
  from ack_overtakes_insert [OF one_subscriber_inv _ _ _ _ _ _ refl 1 2]
  show ?thesis
    unfolding 1 by (simp add: m_def one_subscriber_matches one_subscriber_session ideal_env_def)
qed

section \<open>A reconnection during a disconnect\<close>

lemmas connect_run =
  alloc_session_def register_session_def handle_connect_def session_new_def reply_task_def
  sender_task_def session_sender_def if_session_def handle_subscribe_task_def
  handle_disconnect_task_def remove_session_def

lemma subs_at_added:
  assumes "tree_inv t"
  shows "s \<in> set (subs_at (tree_add t f s) (topic_key f))"
  using assms by (simp add: tree.stored_add)

text \<open>
  C32: A reconnection can lose its subscription. \<open>handle_disconnect\<close> first removes the
  registration and then, under another lock, all subscriptions of the client: when the client
  connects again and subscribes between the two, its SUBACK reports success and its new session
  stays registered, but the subscription is gone. When the disconnect finishes first, the
  subscription stays.
\<close>

theorem reconnect_loses_subscription:
  assumes "broker_inv st" and "se_client_id (heap st old) = cp_client_id c" and "old < next_ref st"
    and "is_valid_topic_filter f" and "\<And>n. try_lock_ok env n"
    and "ts = [handle_disconnect_task old (Return (Inr ())),
      packet_task env None None (Connect c) (\<lambda>session rx. packet_task env session rx
        (Subscribe \<lparr>sp_packet_id = i, sp_subscriptions = [(f, q)]\<rparr>) (\<lambda>_ _. Return (Inr ())))]"
    and "scheduled [0, 1, 1, 1, 1, 1, 1, 1, 0] st ts = (es1, st1, ts1)"
    and "scheduled [0, 0, 1, 1, 1, 1, 1, 1, 1] st ts = (es2, st2, ts2)"
  shows "ts1 = [Return (Inr ()), Return (Inr ())] \<and> ts2 = [Return (Inr ()), Return (Inr ())] \<and>
    calls st1 = calls st2 \<and>
    last (calls st1) = (Tx (next_ref st),
      Suback \<lparr>sa_packet_id = i, sa_return_codes = [SuccessQoS1]\<rparr>) \<and>
    get_session (cp_client_id c) st1 = Some (next_ref st) \<and>
    (\<forall>topic. \<forall>s \<in> set (tree_matches (subscriptions st1) topic). sub_client_id s \<noteq> cp_client_id c) \<and>
    (\<exists>s \<in> set (subs_at (subscriptions st2) (topic_key f)). sub_sender s = Tx (next_ref st))"
proof -
  have inv: "tree_inv (subscriptions st)" by (rule broker_invD [OF assms(1)])
  let ?s = "\<lparr>sub_client_id = cp_client_id c, sub_sender = Tx (next_ref st), sub_qos = AtLeastOnce\<rparr>"
  have "ts1 = [Return (Inr ()), Return (Inr ())] \<and> ts2 = [Return (Inr ()), Return (Inr ())] \<and> calls st1 = calls st2 \<and>
    last (calls st1) = (Tx (next_ref st),
      Suback \<lparr>sa_packet_id = i, sa_return_codes = [SuccessQoS1]\<rparr>) \<and>
    get_session (cp_client_id c) st1 = Some (next_ref st) \<and>
    subscriptions st1 = tree_remove_all (tree_add (subscriptions st) f ?s) (cp_client_id c) \<and>
    subscriptions st2 = tree_add (tree_remove_all (subscriptions st) (cp_client_id c)) f ?s"
    using assms(7,8) assms(2-5)
    by (auto simp: assms(6) connect_run send_task_def act_def get_session_def Let_def)
  then show ?thesis
    using subs_at_added [OF tree.invar_remove_all [OF inv], of ?s "cp_client_id c" f]
      tree.matches_remove_all [OF tree.invar_add [OF inv], of f ?s "cp_client_id c"]
    by (auto intro: bexI [where x = ?s])
qed

theorem reconnect_loses_subscription_witness:
  "filter (\<lambda>s. sub_client_id s = [99]) (tree_matches (subscriptions (fst (snd (scheduled [0, 1, 1, 1, 1, 1, 1, 1, 0] one_subscriber
      [handle_disconnect_task 0 (Return (Inr ())),
       packet_task ideal_env None None (Connect sample_connect) (\<lambda>session rx. packet_task ideal_env session rx
        (Subscribe \<lparr>sp_packet_id = PacketId 5, sp_subscriptions = [([97], AtLeastOnce)]\<rparr>) (\<lambda>_ _. Return (Inr ())))]))))
      [97]) = []"
proof -
  let ?ts = "[handle_disconnect_task 0 (Return (Inr ())),
       packet_task ideal_env None None (Connect sample_connect) (\<lambda>session rx. packet_task ideal_env session rx
        (Subscribe \<lparr>sp_packet_id = PacketId 5, sp_subscriptions = [([97], AtLeastOnce)]\<rparr>) (\<lambda>_ _. Return (Inr ())))]"
  obtain es1 st1 ts1
    where 1: "scheduled [0, 1, 1, 1, 1, 1, 1, 1, 0] one_subscriber ?ts = (es1, st1, ts1)"
    by (metis prod_cases3)
  obtain es2 st2 ts2
    where 2: "scheduled [0, 0, 1, 1, 1, 1, 1, 1, 1] one_subscriber ?ts = (es2, st2, ts2)"
    by (metis prod_cases3)
  have "se_client_id (heap one_subscriber 0) = cp_client_id sample_connect"
    and "0 < next_ref one_subscriber" and "is_valid_topic_filter [97]"
    and "\<And>n. try_lock_ok ideal_env n"
    by (simp_all add: one_subscriber_session sample_connect_def is_valid_topic_filter_def ends_with_def
        ideal_env_def)
  from reconnect_loses_subscription [OF one_subscriber_inv this refl 1 2]
  show ?thesis
    unfolding 1 by (simp add: sample_connect_def filter_empty_conv)
qed

end
