(* ===== verification/Unique_Ids.thy ===== *)
theory Unique_Ids
  imports Races "HOL-Library.Multiset"
begin

text \<open>
  Packet identifiers under interleaving: as long as the counter of a session has not wrapped,
  the atomic \<open>fetch_add\<close> gives the messages of all publishers different identifiers.
\<close>

section \<open>Identifiers of one session\<close>

text \<open>The identifiers of the messages of QoS 1 and 2 among the sends to a session.\<close>

fun issued_id :: "nat \<Rightarrow> sender \<times> packet \<Rightarrow> packet_id option" where
  "issued_id r (tx, Publish q) =
     (if tx = Tx r \<and> pp_qos q \<noteq> AtMostOnce then pp_packet_id q else None)"
| "issued_id r _ = None"

definition issued :: "nat \<Rightarrow> (sender \<times> packet) list \<Rightarrow> packet_id list" where
  "issued r = List.map_filter (issued_id r)"

lemma issued_simps [simp]:
  "issued r [] = []"
  "issued r (c # cs) = (case issued_id r c of None \<Rightarrow> [] | Some i \<Rightarrow> [i]) @ issued r cs"
  by (simp_all add: issued_def map_filter_def split: option.split)

lemma issued_append [simp]: "issued r (cs @ ds) = issued r cs @ issued r ds"
  by (induction cs) simp_all

text \<open>
  What a critical section may do with the counter \<open>n\<close> of the session and the identifier its
  task holds: nothing, take the identifier \<open>n\<close>, or send the identifier it holds.
\<close>

inductive id_step ::
  "u16 \<Rightarrow> u16 \<Rightarrow> packet_id list \<Rightarrow> packet_id option \<Rightarrow> packet_id option \<Rightarrow> bool" where
  idle: "id_step n n [] h h"
| take_id: "id_step n (n + 1) [] None (Some (PacketId n))"
| send_id: "id_step n n [i] (Some i) None"

text \<open>
  The annotation of a task: the identifier it holds, or that the counter has wrapped and
  nothing is said any more.
\<close>

definition tracks ::
  "nat \<Rightarrow> packet_id option option \<Rightarrow> broker_state \<Rightarrow> broker_state \<Rightarrow> packet_id option option \<Rightarrow> bool"
  where
  "tracks r c st st' c' \<longleftrightarrow>
     (case c of
        None \<Rightarrow> c' = None
      | Some h \<Rightarrow>
          if se_next_packet_id (heap st r) = 0 then c' = None
          else (\<exists>out h'. c' = Some h' \<and> calls st' = calls st @ out \<and>
            id_step (se_next_packet_id (heap st r)) (se_next_packet_id (heap st' r)) (issued r out) h h'))"

abbreviation with_session_ref :: "nat \<Rightarrow> broker_state \<Rightarrow> bool" where
  "with_session_ref r \<equiv> \<lambda>st. broker_inv st \<and> r < next_ref st"

abbreviation ids :: "nat \<Rightarrow> 'a broker_task \<Rightarrow> packet_id option \<Rightarrow> bool" where
  "ids r t h \<equiv> obeys (with_session_ref r) (tracks r) (\<lambda>_ _. True) t (Some h)"

lemma ids_wrapped: "obeys (with_session_ref r) (tracks r) (\<lambda>_ _. True) t None"
  by (induction t) (simp, rule obeys_steady, simp_all add: tracks_def)

lemma ids_section:
  assumes "\<And>st. with_session_ref r st \<Longrightarrow> se_next_packet_id (heap st r) \<noteq> 0 \<Longrightarrow>
      calls (f st) = calls st @ out st \<and>
      id_step (se_next_packet_id (heap st r)) (se_next_packet_id (heap (f st) r))
        (issued r (out st)) h (h' st) \<and>
      ids r (k st) (h' st)"
  shows "ids r (Atomic f k) h"
proof (rule obeys_Atomic)
  fix st
  assume I: "with_session_ref r st"
  let ?c = "if se_next_packet_id (heap st r) = 0 then None else Some (h' st)"
  show "tracks r (Some h) st (f st) ?c"
    using assms [OF I] by (auto simp: tracks_def)
  show "obeys (with_session_ref r) (tracks r) (\<lambda>_ _. True) (k st) ?c"
    using assms [OF I] ids_wrapped by auto
qed

text \<open>A section that neither takes nor sends an identifier of the session.\<close>

lemma ids_idle:
  assumes "\<And>st. with_session_ref r st \<Longrightarrow> calls (f st) = calls st @ out st \<and>
      issued r (out st) = [] \<and> se_next_packet_id (heap (f st) r) = se_next_packet_id (heap st r)"
    and "\<And>st. with_session_ref r st \<Longrightarrow> ids r (k st) h"
  shows "ids r (Atomic f k) h"
  by (rule ids_section [where out = out and h' = "\<lambda>_. h"])
    (use assms in \<open>auto intro: id_step.idle\<close>)

lemma ids_quiet:
  assumes "\<And>st. r < next_ref st \<Longrightarrow> calls (f st) = calls st \<and>
      se_next_packet_id (heap (f st) r) = se_next_packet_id (heap st r)"
    and "\<And>st. broker_inv st \<Longrightarrow> ids r (k st) h"
  shows "ids r (Atomic f k) h"
  by (rule ids_idle [where out = "\<lambda>_. []"]) (use assms in auto)

section \<open>The handlers\<close>

lemma ids_send:
  assumes "\<And>st. broker_inv st \<Longrightarrow> issued_id r (tx st, p) = None" and "\<And>b. ids r (k b) h"
  shows "ids r (send_task env tx p k) h"
  unfolding send_task_def
  by (rule ids_idle [where out = "\<lambda>st. [(tx st, p)]"]) (use assms in auto)

lemma ids_reply:
  "(\<And>q. p \<noteq> Publish q) \<Longrightarrow> ids r k None \<Longrightarrow> ids r (reply_task env r' p k) None"
  unfolding reply_task_def sender_task_def
  by (rule ids_quiet) (cases p; auto simp: session_sender_def intro: ids_send)+

lemma ids_update:
  assumes "\<And>s. se_next_packet_id (f s) = se_next_packet_id s" and "ids r k h"
  shows "ids r (act (update_session r' f) k) h"
  unfolding act_def by (rule ids_quiet) (use assms in \<open>simp_all add: update_session_def\<close>)

lemma sender_own: "broker_inv st \<Longrightarrow> se_sender (heap st r) = Tx r"
  using broker_invD(3) [of st r] by (simp add: session_ok_def)

lemma ids_new_packet_id_other:
  assumes "r' \<noteq> r" and "\<And>i. ids r (k i) h"
  shows "ids r (new_packet_id_task r' k) h"
  unfolding new_packet_id_task_def act_def
proof (rule ids_quiet)
  fix st
  show "ids r (let id = se_next_packet_id (heap st r') in
      if id = 0 then Atomic (update_session r' (\<lambda>s. s\<lparr>se_next_packet_id := 1\<rparr>)) (\<lambda>_. k (PacketId 1))
      else k (PacketId id)) h"
    using assms by (auto simp: Let_def update_session_def intro: ids_quiet)
qed (use assms(1) in \<open>simp add: update_session_def\<close>)

lemma ids_enqueue_other:
  assumes "r' \<noteq> r" and "pp_qos p = AtLeastOnce" and "ids r k None"
  shows "ids r (enqueue_publish_task env r' p k) None"
proof -
  have "ids r (send_task env (\<lambda>st. se_sender (heap st r')) (Publish q)
      (\<lambda>sent. if \<not> sent then k else act (update_session r' (insert_qos1 i q)) k)) None" for q i
    by (rule ids_send)
      (use assms in \<open>auto simp: sender_own insert_qos1_def intro: ids_update\<close>)
  then have "ids r (new_packet_id_task r' (\<lambda>i. send_task env (\<lambda>st. se_sender (heap st r'))
      (Publish (p\<lparr>pp_packet_id := Some i\<rparr>)) (\<lambda>sent. if \<not> sent then k
        else act (update_session r' (insert_qos1 i (p\<lparr>pp_packet_id := Some i\<rparr>))) k))) None"
    using assms(1) by (intro ids_new_packet_id_other)
  with assms(2) show ?thesis
    by (simp add: enqueue_publish_task_def Let_def cong: if_cong)
qed

lemma ids_enqueue_own:
  assumes "pp_qos p = AtLeastOnce" and "ids r k None"
  shows "ids r (enqueue_publish_task env r p k) None"
proof -
  have send: "ids r (send_task env (\<lambda>st. se_sender (heap st r)) (Publish (p\<lparr>pp_packet_id := Some i\<rparr>))
      (\<lambda>sent. if \<not> sent then k
        else act (update_session r (insert_qos1 i (p\<lparr>pp_packet_id := Some i\<rparr>))) k)) (Some i)" for i
    unfolding send_task_def
    by (rule ids_section [where h' = "\<lambda>_. None"
          and out = "\<lambda>st. [(Tx r, Publish (p\<lparr>pp_packet_id := Some i\<rparr>))]"])
      (use assms in \<open>auto simp: sender_own insert_qos1_def intro!: id_step.send_id ids_update\<close>)
  have "ids r (new_packet_id_task r (\<lambda>i. send_task env (\<lambda>st. se_sender (heap st r))
      (Publish (p\<lparr>pp_packet_id := Some i\<rparr>)) (\<lambda>sent. if \<not> sent then k
        else act (update_session r (insert_qos1 i (p\<lparr>pp_packet_id := Some i\<rparr>))) k))) None"
    unfolding new_packet_id_task_def Let_def
    by (rule ids_section [where out = "\<lambda>_. []"
          and h' = "\<lambda>st. Some (PacketId (se_next_packet_id (heap st r)))"])
      (use send in \<open>auto simp: update_session_def intro: id_step.take_id\<close>)
  with assms(1) show ?thesis
    by (simp add: enqueue_publish_task_def Let_def cong: if_cong)
qed

lemma ids_deliver:
  assumes "sub_qos s = AtLeastOnce" and "ids r k None"
  shows "ids r (deliver_task env p s k) None"
proof (cases "pp_qos p = AtMostOnce")
  case True
  have "ids r (send_task env (\<lambda>_. sub_sender s) (Publish (p\<lparr>pp_qos := AtMostOnce\<rparr>)) (\<lambda>_. k)) None"
    by (rule ids_send) (simp_all add: assms)
  with True assms show ?thesis
    by (simp add: deliver_task_def Let_def)
next
  case False
  let ?p = "p\<lparr>pp_qos := AtLeastOnce\<rparr>"
  have "ids r (enqueue_publish_task env r' ?p k) None" for r'
    by (cases "r' = r") (simp_all add: ids_enqueue_own ids_enqueue_other assms(2))
  then have "ids r (look (get_session (sub_client_id s)) (\<lambda>found. case found of
      Some r' \<Rightarrow> enqueue_publish_task env r' ?p k | None \<Rightarrow> k)) None"
    unfolding look_def by (intro ids_quiet) (use assms(2) in \<open>auto split: option.split\<close>)
  moreover have "min (pp_qos p) (sub_qos s) = AtLeastOnce"
    using False assms(1) min_AtLeastOnce by simp
  ultimately show ?thesis
    by (simp add: deliver_task_def Let_def)
qed

lemma ids_publish:
  assumes "ids r k None"
  shows "ids r (handle_publish_task env p k) None"
  unfolding handle_publish_task_def look_def
proof (rule ids_quiet)
  fix st
  assume "broker_inv st"
  note matches_qos1 [OF this, of "pp_topic_name p"]
  moreover have "list_all (\<lambda>s. sub_qos s = AtLeastOnce) subs \<Longrightarrow>
      ids r (foldr (deliver_task env p) subs k) None" for subs
    by (induction subs) (simp_all add: assms ids_deliver)
  ultimately show "ids r (foldr (deliver_task env p)
      (tree_matches (subscriptions st) (pp_topic_name p)) k) None" by blast
qed simp

lemma ids_subscribe_filters:
  "(\<And>codes. ids r (k codes) h) \<Longrightarrow> ids r (subscribe_filters_task tx c subs codes k) h"
  by (induction tx c subs codes k rule: subscribe_filters_task.induct)
    (auto simp: Let_def act_def intro: ids_quiet)

lemma ids_if_session:
  "(\<And>r'. ids r (f r' k) h) \<Longrightarrow> ids r k h \<Longrightarrow> ids r (if_session session f k) h"
  by (cases session) (simp_all add: if_session_def)

lemma ids_disconnect: "ids r k h \<Longrightarrow> ids r (handle_disconnect_task r' k) h"
  unfolding handle_disconnect_task_def act_def
  by (intro ids_quiet) (simp_all add: remove_session_def)

lemma acks_keep_counter:
  "se_next_packet_id (session_puback i s) = se_next_packet_id s"
  "se_next_packet_id (session_pubrec i s) = se_next_packet_id s"
  "se_next_packet_id (session_pubcomp i s) = se_next_packet_id s"
  by (simp_all add: session_puback_def session_pubrec_def session_pubcomp_def split: option.split)

lemma ids_packet:
  assumes k: "\<And>s rx. ids r (k s rx) None"
  shows "ids r (packet_task env session rx p k) None"
proof (cases p)
  case (Connect c)
  show ?thesis
    unfolding Connect packet_task.simps
    by (rule ids_quiet)
      (auto simp: alloc_session_def register_session_def split_def Let_def
        intro: ids_reply k)
next
  case (Publish q)
  have "ids r (acknowledge_task env session i (ack_of (pp_qos q)) (k session rx)) None" for i
    by (cases session; cases i; cases "pp_qos q")
      (auto simp: acknowledge_task_def k intro!: ids_reply)
  with Publish show ?thesis
    by (simp add: packet_task_publish ids_publish k)
next
  case (Subscribe s)
  then show ?thesis
    by (auto simp: handle_subscribe_task_def session_sender_def k
        intro!: ids_if_session ids_quiet ids_subscribe_filters ids_reply)
next
  case (Unsubscribe u)
  then show ?thesis
    by (auto simp: handle_unsubscribe_task_def handle_unsubscribe_def act_def k
        intro!: ids_if_session ids_quiet ids_reply)
qed (auto simp: k handle_puback_task_def handle_pubrec_task_def handle_pubrel_task_def
      handle_pubcomp_task_def acks_keep_counter
      intro!: ids_if_session ids_update ids_reply ids_disconnect)

lemma ids_connection: "ids r (connection_task env session rx ps) None"
proof (induction ps arbitrary: session rx)
  case Nil
  show ?case by (simp add: ids_if_session ids_disconnect)
next
  case (Cons p ps)
  then show ?case by (simp add: ids_packet)
qed

section \<open>Pools\<close>

text \<open>The identifiers held by the tasks of a pool.\<close>

definition held :: "packet_id option list \<Rightarrow> packet_id multiset" where
  "held hs = sum_list (map (\<lambda>h. case h of None \<Rightarrow> {#} | Some i \<Rightarrow> {#i#}) hs)"

lemma sum_list_update_add:
  fixes xs :: "'a :: comm_monoid_add list"
  shows "i < length xs \<Longrightarrow> sum_list (xs[i := y]) + xs ! i = sum_list xs + y"
proof (induction xs arbitrary: i)
  case (Cons x xs)
  then show ?case by (cases i) (simp_all add: ac_simps)
qed simp

lemma held_update:
  "i < length hs \<Longrightarrow> held (hs[i := h]) + (case hs ! i of None \<Rightarrow> {#} | Some i \<Rightarrow> {#i#})
     = held hs + (case h of None \<Rightarrow> {#} | Some i \<Rightarrow> {#i#})"
  using sum_list_update_add [of i "map (\<lambda>h. case h of None \<Rightarrow> {#} | Some i \<Rightarrow> {#i#}) hs"]
  unfolding held_def map_update by simp

text \<open>No identifier occurs twice, and all are below the counter.\<close>

definition ids_below :: "packet_id multiset \<Rightarrow> u16 \<Rightarrow> bool" where
  "ids_below M n \<longleftrightarrow> (\<forall>i. count M i \<le> 1) \<and> (\<forall>i \<in># M. \<exists>x. i = PacketId x \<and> x < n)"

lemma ids_below_add:
  assumes "ids_below M n" and "n + 1 \<noteq> 0"
  shows "ids_below (add_mset (PacketId n) M) (n + 1)"
proof -
  have lt: "x < n \<Longrightarrow> x < n + 1" "n < n + 1" for x
    using unatSuc [of n] assms(2) by (simp_all add: word_less_nat_alt add.commute)
  have "PacketId n \<notin># M"
    using assms(1) by (auto simp: ids_below_def)
  then have "\<forall>i. count (add_mset (PacketId n) M) i \<le> 1"
    using assms(1) by (simp add: ids_below_def not_in_iff)
  moreover have "\<exists>x. i = PacketId x \<and> x < n + 1" if "i \<in># add_mset (PacketId n) M" for i
    using that assms(1) lt unfolding ids_below_def by (metis insert_iff set_mset_add_mset_insert)
  ultimately show ?thesis by (simp add: ids_below_def)
qed

lemma ids_below_step:
  assumes "id_step n n' is (hs ! j) h'" and "j < length hs" and "n' \<noteq> 0"
    and "ids_below (mset sent + held hs) n"
  shows "ids_below (mset (sent @ is) + held (hs[j := h'])) n'"
  using assms(1)
proof (cases rule: id_step.cases)
  case idle
  then show ?thesis
    using assms(4) list_update_id [of hs j] by simp
next
  case take_id
  then have h: "held (hs[j := h']) = held hs + {#PacketId n#}"
    using held_update [OF assms(2), of h'] by simp
  with assms(3,4) take_id ids_below_add show ?thesis by simp
next
  case (send_id i)
  then have "held (hs[j := h']) + {#i#} = held hs"
    using held_update [OF assms(2), of h'] by simp
  then have eq: "mset (sent @ is) + held (hs[j := h']) = mset sent + held hs"
    using send_id by (metis add.assoc add.commute mset.simps mset_append)
  show ?thesis
    unfolding eq send_id(1) by (rule assms(4))
qed

text \<open>
  As long as the counter has not wrapped, the identifiers sent since the start and those held
  by tasks are different and below the counter.
\<close>

definition ids_unused :: "nat \<Rightarrow> (sender \<times> packet) list \<Rightarrow> broker_state event list \<Rightarrow> broker_state
    \<Rightarrow> packet_id option option list \<Rightarrow> bool" where
  "ids_unused r before es st cs \<longleftrightarrow>
     (\<forall>e \<in> set es. se_next_packet_id (heap (snd (snd e)) r) \<noteq> 0) \<longrightarrow>
     se_next_packet_id (heap st r) \<noteq> 0 \<and>
     (\<exists>hs out. cs = map Some hs \<and> calls st = before @ out \<and>
        ids_below (mset (issued r out) + held hs) (se_next_packet_id (heap st r)))"

lemma ids_unused_section:
  assumes "ids_unused r before es st cs" and "i < length cs" and "tracks r (cs ! i) st st' c'"
  shows "ids_unused r before (es @ [(i, st, st')]) st' (cs[i := c'])"
  unfolding ids_unused_def
proof (rule impI)
  assume nz: "\<forall>e \<in> set (es @ [(i, st, st')]). se_next_packet_id (heap (snd (snd e)) r) \<noteq> 0"
  with assms(1) obtain hs out where n: "se_next_packet_id (heap st r) \<noteq> 0"
    and cs: "cs = map Some hs" and out: "calls st = before @ out"
    and below: "ids_below (mset (issued r out) + held hs) (se_next_packet_id (heap st r))"
    by (auto simp: ids_unused_def)
  with assms(2,3) obtain out' h' where c': "c' = Some h'" and out': "calls st' = calls st @ out'"
    and step: "id_step (se_next_packet_id (heap st r)) (se_next_packet_id (heap st' r))
      (issued r out') (hs ! i) h'"
    by (auto simp: tracks_def)
  have nz': "se_next_packet_id (heap st' r) \<noteq> 0"
    using nz by simp
  have "i < length hs"
    using assms(2) cs by simp
  from ids_below_step [OF step this nz' below]
  have "ids_below (mset (issued r (out @ out')) + held (hs[i := h'])) (se_next_packet_id (heap st' r))"
    by simp
  moreover have "cs[i := c'] = map Some (hs[i := h'])" and "calls st' = before @ out @ out'"
    by (simp_all add: cs c' map_update out out')
  ultimately show "se_next_packet_id (heap st' r) \<noteq> 0 \<and>
      (\<exists>hs out. cs[i := c'] = map Some hs \<and> calls st' = before @ out \<and>
        ids_below (mset (issued r out) + held hs) (se_next_packet_id (heap st' r)))"
    using nz' by blast
qed

text \<open>A task that keeps the invariant and keeps track of its identifier does both at once.\<close>

abbreviation steady_tracks where
  "steady_tracks r \<equiv> \<lambda>(c, d) st st' (c', d'). (broker_inv st' \<and> moves st st' c c') \<and> tracks r d st st' d'"

interpretation unused: pool_protocol "with_session_ref r" "steady_tracks r"
    "\<lambda>es st cs. with_session_ref r st \<and> ids_unused r before es st (map snd cs)" for r before
proof unfold_locales
  fix es st i st'
  fix cs :: "((nat option \<times> nat option) \<times> packet_id option option) list" and c'
  assume J: "with_session_ref r st \<and> ids_unused r before es st (map snd cs)" and i: "i < length cs"
    and R: "steady_tracks r (cs ! i) st st' c'"
  then have "with_session_ref r st'" and "tracks r (map snd cs ! i) st st' (snd c')"
    by (auto simp: moves_def grows_def split: prod.splits)
  with J i show "with_session_ref r st' \<and>
      ids_unused r before (es @ [(i, st, st')]) st' (map snd (cs[i := c']))"
    by (simp add: map_update ids_unused_section)
qed simp

lemma connection_steady_tracks:
  assumes "list_all wf_packet ps"
  shows "obeys (with_session_ref r) (steady_tracks r) (\<lambda>_ _. True) (connection_task env None None ps)
    ((None, None), Some None)"
proof -
  have "obeys (with_session_ref r) (\<lambda>c st st' c'. broker_inv st' \<and> moves st st' c c') (\<lambda>_ _. True)
      (connection_task env None None ps) (id (None, None))"
    by (rule obeys_mono [OF steady_connection [OF assms]]) simp_all
  from obeys_both [OF this ids_connection] show ?thesis
    by (simp add: case_prod_unfold)
qed

text \<open>
  C7: Packet identifiers are unique in every interleaving: however the publishers of messages
  for one session interleave, until the session's identifier counter wraps, no two messages of
  QoS 1 or 2 sent to the session carry the same identifier.
\<close>

theorem interleaved_ids_distinct:
  assumes "pool_run st (map (connection_task env None None) pss) es st' ts'"
    and "list_all (list_all wf_packet) pss"
    and "broker_inv st" and "r < next_ref st" and "se_next_packet_id (heap st r) \<noteq> 0"
    and "\<forall>e \<in> set es. se_next_packet_id (heap (snd (snd e)) r) \<noteq> 0"
  shows "\<exists>out. calls st' = calls st @ out \<and> distinct (issued r out)"
proof -
  let ?ann = "\<lambda>_. ((None, None), Some None)"
  have "held (map (\<lambda>_. None) pss) = {#}"
    by (induction pss) (simp_all add: held_def)
  then have "ids_unused r (calls st) [] st (map snd (map ?ann pss))"
    using assms(5) unfolding ids_unused_def
    by (intro impI conjI exI [of _ "map (\<lambda>_. None) pss"] exI [of _ "[]"]) (simp_all add: ids_below_def)
  with assms(3,4) have J: "with_session_ref r st \<and> ids_unused r (calls st) [] st (map snd (map ?ann pss))"
    by blast
  obtain cs where "ids_unused r (calls st) es st' cs"
    using unused.pool [OF assms(1) J connection_steady_tracks] assms(2) by (auto simp: list_all_iff)
  then obtain hs out where out: "calls st' = calls st @ out"
    and "ids_below (mset (issued r out) + held hs) (se_next_packet_id (heap st' r))"
    using assms(6) by (auto simp: ids_unused_def)
  then have "count (mset (issued r out)) i \<le> 1" for i
    by (simp add: ids_below_def) (metis add_leD1)
  then have "distinct (issued r out)"
    unfolding distinct_count_atmost_1
    by (metis One_nat_def count_greater_zero_iff count_mset_0_iff le_antisym not_gr_zero
        set_mset_mset Suc_leI)
  with out show ?thesis by blast
qed

text \<open>Two publishers, one of which sends between the \<open>fetch_add\<close> and the send of the other.\<close>

theorem interleaved_ids_distinct_witness:
  fixes m :: publish_packet
  defines "m \<equiv> message AtLeastOnce [97, 47, 98] (Some (PacketId 7)) [1]"
  shows "issued 0 (calls (fst (snd (scheduled [0, 0, 0, 1, 1, 1, 1, 1, 0, 0] one_subscriber
      (map (connection_task ideal_env None None) [[Publish m], [Publish m]])))))
    = [PacketId 2, PacketId 1] \<and> distinct [PacketId 2, PacketId 1]"
proof -
  let ?pss = "[[Publish m], [Publish m]]"
  obtain es st ts where run: "scheduled [0, 0, 0, 1, 1, 1, 1, 1, 0, 0] one_subscriber
      (map (connection_task ideal_env None None) ?pss) = (es, st, ts)"
    by (metis prod_cases3)
  have m: "tree_matches (subscriptions one_subscriber) (pp_topic_name m)
      = [\<lparr>sub_client_id = [99], sub_sender = Tx 0, sub_qos = AtLeastOnce\<rparr>]" "pp_qos m = AtLeastOnce"
      "pp_packet_id m = Some (PacketId 7)"
    by (simp_all add: m_def one_subscriber_matches)
  have s: "heap one_subscriber 0 = session_new 0 [99] True 0" "sessions one_subscriber [99] = Some 0"
      "calls one_subscriber = []" "next_ref one_subscriber = 1"
    by (simp_all add: one_subscriber_def alloc_session_def register_session_def broker_new_def
        session_new_def Let_def)
  have "map (\<lambda>e. se_next_packet_id (heap (snd (snd e)) 0)) (fst (scheduled
      [0, 0, 0, 1, 1, 1, 1, 1, 0, 0] one_subscriber (map (connection_task ideal_env None None) ?pss)))
      = [1, 1, 2, 2, 2, 3, 3, 3, 3, 3]"
    and "calls (fst (snd (scheduled [0, 0, 0, 1, 1, 1, 1, 1, 0, 0] one_subscriber
      (map (connection_task ideal_env None None) ?pss))))
      = [(Tx 0, Publish (qos1_message m (PacketId 2))), (Tx 0, Publish (qos1_message m (PacketId 1)))]"
    by (simp_all add: packet_task_publish publish_run m s acknowledge_task_def if_session_def
        update_session_def get_session_def session_new_def send_def insert_qos1_def ideal_env_def
        qos1_message_def)
  with run have ids: "issued 0 (calls st) = [PacketId 2, PacketId 1]"
    and "list_all (\<lambda>n. n \<noteq> 0) (map (\<lambda>e. se_next_packet_id (heap (snd (snd e)) 0)) es)"
    by (simp_all add: qos1_message_def)
  then have nz: "\<forall>e \<in> set es. se_next_packet_id (heap (snd (snd e)) 0) \<noteq> 0"
    by (simp add: list_all_iff)
  have "list_all (list_all wf_packet) ?pss"
    by (simp add: m_def wf_publish_def wf_string_def utf8_valid_def)
  with interleaved_ids_distinct [OF scheduled_run [OF run] _ one_subscriber_inv _ _ nz]
  obtain out where "calls st = calls one_subscriber @ out" and "distinct (issued 0 out)"
    by (auto simp: s session_new_def)
  with ids s(3) run show ?thesis by simp
qed

end
