(* ===== verification/Startup.thy ===== *)
theory Startup
  imports Protocol_Types
begin

text \<open>
  Start-up: the configuration (\<open>src/src/config.rs\<close>), the two \<open>start\<close> functions
  (\<open>src/src/server/tcp.rs\<close>, \<open>src/src/server/ws.rs\<close>) and \<open>main\<close>
  (\<open>src/src/main.rs\<close>). What the operating system and axum return is an argument: the result
  of \<open>bind\<close> for an address, the results of \<open>accept\<close> so far, and the result of
  \<open>axum::serve\<close>, if it has returned. A result that is not there yet is \<open>None\<close>: the
  function is still waiting.
\<close>

section \<open>Configuration\<close>

record config =
  tcp_port :: u16
  ws_port :: u16
  bind_addr :: string

text \<open>
  \<open>Config::parse\<close>: the value of each long option, or the default text of its attribute,
  parsed by clap. \<open>parse_port\<close> is clap's parser of a \<open>u16\<close>; a text it rejects ends the
  program with a usage message.
\<close>

definition config_parse ::
  "(string \<Rightarrow> u16 option) \<Rightarrow> (string \<Rightarrow> string option) \<Rightarrow> config option" where
  "config_parse parse_port arg =
     (let text = (\<lambda>name default_value. case arg name of Some v \<Rightarrow> v | None \<Rightarrow> default_value)
      in case (parse_port (text ''tcp-port'' ''1883''), parse_port (text ''ws-port'' ''9001'')) of
           (Some tcp, Some ws) \<Rightarrow>
             Some \<lparr>tcp_port = tcp, ws_port = ws, bind_addr = text ''bind-addr'' ''0.0.0.0''\<rparr>
         | _ \<Rightarrow> None)"

text \<open>\<open>format!("{}:{}", config.bind_addr, port)\<close>\<close>

definition socket_addr :: "config \<Rightarrow> u16 \<Rightarrow> string" where
  "socket_addr config port = bind_addr config @ '':'' @ show_nat (unat port)"

section \<open>The TCP server\<close>

text \<open>
  The accept loop: the connections it has spawned, and its result when it has one. The first
  error of \<open>accept\<close> ends it.
\<close>

fun accept_loop :: "(string + 'c) list \<Rightarrow> 'c list \<times> (broker_error + unit) option" where
  "accept_loop [] = ([], None)"
| "accept_loop (Inl e # rest) = ([], Some (Inl (Io e)))"
| "accept_loop (Inr stream # rest) =
     (let (spawned, res) = accept_loop rest in (stream # spawned, res))"

definition tcp_start ::
  "(string \<Rightarrow> string + unit) \<Rightarrow> (string + 'c) list \<Rightarrow> config
    \<Rightarrow> 'c list \<times> (broker_error + unit) option" where
  "tcp_start bind accepted config =
     (let addr = socket_addr config (tcp_port config)
      in case bind addr of
           Inl e \<Rightarrow> ([], Some (Inl (Config (''Failed to bind TCP on '' @ addr @ '': '' @ e))))
         | Inr _ \<Rightarrow> accept_loop accepted)"

section \<open>The WebSocket server\<close>

definition ws_start ::
  "(string \<Rightarrow> string + unit) \<Rightarrow> (string + unit) option \<Rightarrow> config \<Rightarrow> (broker_error + unit) option"
  where
  "ws_start bind served config =
     (let addr = socket_addr config (ws_port config)
      in case bind addr of
           Inl e \<Rightarrow> Some (Inl (Config (''Failed to bind WS on '' @ addr @ '': '' @ e)))
         | Inr _ \<Rightarrow>
             (case served of
                None \<Rightarrow> None
              | Some (Inl e) \<Rightarrow> Some (Inl (Config (''WebSocket server error: '' @ e)))
              | Some (Inr _) \<Rightarrow> Some (Inr ())))"

section \<open>Main\<close>

text \<open>The spawned task of a server: its error, if any, is logged and dropped.\<close>

definition server_task :: "string \<Rightarrow> (broker_error + unit) option \<Rightarrow> string list option" where
  "server_task label res =
     (case res of
        None \<Rightarrow> None
      | Some (Inl e) \<Rightarrow> Some [label @ '' server error: '' @ display_error e]
      | Some (Inr _) \<Rightarrow> Some [])"

text \<open>
  \<open>main\<close>: what the servers have logged, and the result of the program when it has ended.
  The \<open>select!\<close> waits for the end of either task.
\<close>

definition run_main ::
  "(string \<Rightarrow> string + unit) \<Rightarrow> (string + 'c) list \<Rightarrow> (string + unit) option \<Rightarrow> config
    \<Rightarrow> string list \<times> (broker_error + unit) option" where
  "run_main bind accepted served config =
     (let tcp = server_task ''TCP'' (snd (tcp_start bind accepted config));
          ws = server_task ''WebSocket'' (ws_start bind served config)
      in (case_option [] id tcp @ case_option [] id ws,
          if tcp = None \<and> ws = None then None else Some (Inr ())))"

section \<open>Properties\<close>

text \<open>Without options the ports are 1883 and 9001 on every address.\<close>

lemma config_defaults:
  assumes "parse_port ''1883'' = Some 1883" and "parse_port ''9001'' = Some 9001"
  shows "map_option (\<lambda>c. (socket_addr c (tcp_port c), socket_addr c (ws_port c)))
      (config_parse parse_port (\<lambda>_. None)) = Some (''0.0.0.0:1883'', ''0.0.0.0:9001'')"
  using assms by (simp add: config_parse_def socket_addr_def show_nat.simps char_of_def bit_0)

text \<open>
  The accept loop: the TCP server spawns a handler for every connection the system hands
  it, in order, up to the first error of \<open>accept\<close>; this error, which need not concern the
  listener at all, ends the server, and without one it never returns.
\<close>

theorem accept_loop_exact:
  "accept_loop rs =
     (map projr (takeWhile (\<lambda>r. \<not> isl r) rs),
      case find isl rs of None \<Rightarrow> None | Some r \<Rightarrow> Some (Inl (Io (projl r))))"
  by (induction rs rule: accept_loop.induct) simp_all

text \<open>
  C34: One server's failure ends the broker, with success: the program ends as soon as the
  TCP address cannot be bound, the WebSocket address cannot be bound, an \<open>accept\<close> fails
  or the WebSocket server returns, although the other server could go on; its exit is always
  that of a successful run.
\<close>

theorem main_ends:
  "snd (run_main bind accepted served config) =
     (if isl (bind (socket_addr config (tcp_port config))) \<or> list_ex isl accepted
         \<or> isl (bind (socket_addr config (ws_port config))) \<or> (\<exists>r. served = Some r)
      then Some (Inr ()) else None)"
proof -
  have "snd (accept_loop accepted) \<noteq> None \<longleftrightarrow> list_ex isl accepted"
    by (induction accepted rule: accept_loop.induct) (simp_all add: split_def Let_def)
  then show ?thesis
    by (auto simp: run_main_def server_task_def tcp_start_def ws_start_def Let_def
        split: sum.splits option.splits)
qed

end
