(* ===== verification/Unit_Tests.thy ===== *)
theory Unit_Tests
  imports Decode Encode Subscriptions
begin

text \<open>
  The unit tests of the repository (the test modules of \<open>decode.rs\<close>, \<open>encode.rs\<close>,
  \<open>broker/mod.rs\<close> and \<open>subscriptions.rs\<close>): every test function is a boolean, false where
  the test would panic. All of them hold of the model.
\<close>

section \<open>Decoder\<close>

definition test_decode_remaining_length_zero :: bool where
  "test_decode_remaining_length_zero =
     (case decode_remaining_length [0x00] of
        Inl _ \<Rightarrow> False
      | Inr ((val, _), _) \<Rightarrow> val = 0)"

definition test_decode_remaining_length_127 :: bool where
  "test_decode_remaining_length_127 =
     (case decode_remaining_length [0x7F] of
        Inl _ \<Rightarrow> False
      | Inr ((val, _), _) \<Rightarrow> val = 127)"

definition test_decode_remaining_length_128 :: bool where
  "test_decode_remaining_length_128 =
     (case decode_remaining_length [0x80, 0x01] of
        Inl _ \<Rightarrow> False
      | Inr ((val, _), _) \<Rightarrow> val = 128)"

definition test_decode_fixed_header_pingreq :: bool where
  "test_decode_fixed_header_pingreq =
     (case decode_fixed_header [0xC0, 0x00] of
        Inl _ \<Rightarrow> False
      | Inr (header, _) \<Rightarrow> fh_packet_type header = TPingreq \<and> fh_remaining_length header = 0)"

definition test_decode_fixed_header_connect :: bool where
  "test_decode_fixed_header_connect =
     (case decode_fixed_header [0x10, 0x00] of
        Inl _ \<Rightarrow> False
      | Inr (header, _) \<Rightarrow> fh_packet_type header = TConnect)"

definition test_decode_pingreq :: bool where
  "test_decode_pingreq =
     (case decode [0xC0, 0x00] of
        Inl _ \<Rightarrow> False
      | Inr (packet, _) \<Rightarrow> packet = Pingreq)"

text \<open>
  The frame announces 14 bytes but its body has 15: the decoder checks that 14 bytes are there
  and then reads all 15.
\<close>

definition test_decode_connect_minimal :: bool where
  "test_decode_connect_minimal =
     (let data =
        [0x10, 0x0E,
         0x00, 0x04] @ bytes_of ''MQTT'' @
        [0x04,
         0x02,
         0x00, 0x3C,
         0x00, 0x03] @ bytes_of ''rst''
      in case decode data of
           Inl _ \<Rightarrow> False
         | Inr (packet, _) \<Rightarrow>
             (case packet of
                Connect c \<Rightarrow>
                  cp_protocol_name c = bytes_of ''MQTT'' \<and>
                  cp_protocol_level c = 4 \<and>
                  cp_clean_session c \<and>
                  \<not> cp_will_flag c \<and>
                  cp_keep_alive c = 60 \<and>
                  cp_client_id c = bytes_of ''rst''
              | _ \<Rightarrow> False))"

definition test_decode_publish_qos0 :: bool where
  "test_decode_publish_qos0 =
     (let data =
        [0x30, 0x0B,
         0x00, 0x04] @ bytes_of ''test'' @
        bytes_of ''hello''
      in case decode data of
           Inl _ \<Rightarrow> False
         | Inr (packet, _) \<Rightarrow>
             (case packet of
                Publish p \<Rightarrow>
                  pp_qos p = AtMostOnce \<and>
                  pp_topic_name p = bytes_of ''test'' \<and>
                  pp_packet_id p = None \<and>
                  pp_payload p = bytes_of ''hello''
              | _ \<Rightarrow> False))"

section \<open>Encoder\<close>

definition test_encode_remaining_length_zero :: bool where
  "test_encode_remaining_length_zero = (encode_remaining_length 0 = [0x00])"

definition test_encode_remaining_length_127 :: bool where
  "test_encode_remaining_length_127 = (encode_remaining_length 127 = [0x7F])"

definition test_encode_remaining_length_128 :: bool where
  "test_encode_remaining_length_128 = (encode_remaining_length 128 = [0x80, 0x01])"

definition test_encode_remaining_length_16383 :: bool where
  "test_encode_remaining_length_16383 = (encode_remaining_length 16383 = [0xFF, 0x7F])"

definition test_encode_remaining_length_16384 :: bool where
  "test_encode_remaining_length_16384 = (encode_remaining_length 16384 = [0x80, 0x80, 0x01])"

definition test_pingresp_encodes_correctly :: bool where
  "test_pingresp_encodes_correctly =
     (let result = encode_pingresp in result = [0xD0, 0x00])"

definition test_connack_encodes_correctly :: bool where
  "test_connack_encodes_correctly =
     (let pkt = \<lparr>ca_session_present = False, ca_return_code = Accepted\<rparr>;
          result = encode_connack pkt
      in result = [0x20, 0x02, 0x00, 0x00])"

section \<open>Topic filters\<close>

definition test_valid_topic_filter_simple :: bool where
  "test_valid_topic_filter_simple = is_valid_topic_filter (bytes_of ''sensor/temperature'')"

definition test_valid_topic_filter_single_wildcard :: bool where
  "test_valid_topic_filter_single_wildcard =
     is_valid_topic_filter (bytes_of ''sensor/+/temperature'')"

definition test_valid_topic_filter_multi_wildcard :: bool where
  "test_valid_topic_filter_multi_wildcard = is_valid_topic_filter (bytes_of ''sensor/#'')"

definition test_invalid_topic_filter_empty :: bool where
  "test_invalid_topic_filter_empty = (\<not> is_valid_topic_filter (bytes_of ''''))"

definition test_invalid_topic_filter_hash_not_at_end :: bool where
  "test_invalid_topic_filter_hash_not_at_end =
     (\<not> is_valid_topic_filter (bytes_of ''sensor/#/extra''))"

section \<open>Subscription tree\<close>

text \<open>\<open>make_subscriber\<close> drops the receiver of the channel it creates.\<close>

definition make_subscriber :: "string \<Rightarrow> subscriber" where
  "make_subscriber client_id =
     \<lparr>sub_client_id = bytes_of client_id, sub_sender = Orphan, sub_qos = AtMostOnce\<rparr>"

definition test_exact_match :: bool where
  "test_exact_match =
     (let tree = tree_add empty_node (bytes_of ''sensor/temp'') (make_subscriber ''client1'');
          matches = tree_matches tree (bytes_of ''sensor/temp'')
      in length matches = 1 \<and> sub_client_id (matches ! 0) = bytes_of ''client1'')"

definition test_single_level_wildcard :: bool where
  "test_single_level_wildcard =
     (let tree = tree_add empty_node (bytes_of ''sensor/+/temp'') (make_subscriber ''client1'');
          matches = tree_matches tree (bytes_of ''sensor/room1/temp'')
      in length matches = 1)"

definition test_multi_level_wildcard :: bool where
  "test_multi_level_wildcard =
     (let tree = tree_add empty_node (bytes_of ''sensor/#'') (make_subscriber ''client1'');
          matches = tree_matches tree (bytes_of ''sensor/room1/temp'')
      in length matches = 1)"

definition test_remove_subscription :: bool where
  "test_remove_subscription =
     (let tree = tree_add empty_node (bytes_of ''sensor/temp'') (make_subscriber ''client1'');
          tree = tree_remove tree (bytes_of ''sensor/temp'') (bytes_of ''client1'');
          matches = tree_matches tree (bytes_of ''sensor/temp'')
      in matches = [])"

definition test_no_match :: bool where
  "test_no_match =
     (let tree = tree_add empty_node (bytes_of ''sensor/temp'') (make_subscriber ''client1'');
          matches = tree_matches tree (bytes_of ''other/topic'')
      in matches = [])"

section \<open>Results\<close>

lemmas decoder_run =
  decode_def decode_fixed_header_def decode_remaining_length_def packet_type_try_from_u8_def
  inner_read_u16_def inner_read_exact_def u16_from_be_bytes_def read_utf8_string_def
  string_from_utf8_def from_utf8_def Let_def

lemma decoder_tests:
  "test_decode_remaining_length_zero" "test_decode_remaining_length_127"
  "test_decode_remaining_length_128" "test_decode_fixed_header_pingreq"
  "test_decode_fixed_header_connect" "test_decode_pingreq"
  by (simp_all add: decoder_run test_decode_remaining_length_zero_def
      test_decode_remaining_length_127_def test_decode_remaining_length_128_def
      test_decode_fixed_header_pingreq_def test_decode_fixed_header_connect_def
      test_decode_pingreq_def)

lemma decode_connect_test: "test_decode_connect_minimal"
  by (simp add: test_decode_connect_minimal_def decoder_run decode_connect_def bytes_of_def
      qos_try_from_u8_def)

lemma decode_publish_test: "test_decode_publish_qos0"
  by (simp add: test_decode_publish_qos0_def decoder_run decode_publish_def bytes_of_def
      qos_try_from_u8_def read_payload_def)

lemma encoder_tests:
  "test_encode_remaining_length_zero" "test_encode_remaining_length_127"
  "test_encode_remaining_length_128" "test_encode_remaining_length_16383"
  "test_encode_remaining_length_16384" "test_pingresp_encodes_correctly"
  "test_connack_encodes_correctly"
  by (simp_all add: encode_remaining_length.simps Let_def encode_pingresp_def write_fixed_header_def
      encode_connack_def put_u8_def test_encode_remaining_length_zero_def
      test_encode_remaining_length_127_def test_encode_remaining_length_128_def
      test_encode_remaining_length_16383_def test_encode_remaining_length_16384_def
      test_pingresp_encodes_correctly_def test_connack_encodes_correctly_def)

lemma topic_filter_tests:
  "test_valid_topic_filter_simple" "test_valid_topic_filter_single_wildcard"
  "test_valid_topic_filter_multi_wildcard" "test_invalid_topic_filter_empty"
  "test_invalid_topic_filter_hash_not_at_end"
  by (simp_all add: is_valid_topic_filter_def bytes_of_def ends_with_def
      test_valid_topic_filter_simple_def test_valid_topic_filter_single_wildcard_def
      test_valid_topic_filter_multi_wildcard_def test_invalid_topic_filter_empty_def
      test_invalid_topic_filter_hash_not_at_end_def)

lemma tree_tests:
  "test_exact_match" "test_single_level_wildcard" "test_multi_level_wildcard"
  "test_remove_subscription" "test_no_match"
  by (simp_all add: tree_matches_def tree_add_def tree_remove_def empty_node_def
      matches_recursive.simps Let_def bytes_of_def make_subscriber_def test_exact_match_def
      test_single_level_wildcard_def test_multi_level_wildcard_def test_remove_subscription_def
      test_no_match_def)

text \<open>
  The repository's unit tests pass on the model: the decoder, the encoder, the check of
  topic filters and the subscription tree, run on the inputs of the tests, give the results
  the tests assert.
\<close>

theorem unit_tests_pass:
  "test_decode_remaining_length_zero \<and> test_decode_remaining_length_127 \<and>
   test_decode_remaining_length_128 \<and> test_decode_fixed_header_pingreq \<and>
   test_decode_fixed_header_connect \<and> test_decode_pingreq \<and> test_decode_connect_minimal \<and>
   test_decode_publish_qos0 \<and> test_encode_remaining_length_zero \<and>
   test_encode_remaining_length_127 \<and> test_encode_remaining_length_128 \<and>
   test_encode_remaining_length_16383 \<and> test_encode_remaining_length_16384 \<and>
   test_pingresp_encodes_correctly \<and> test_connack_encodes_correctly \<and>
   test_valid_topic_filter_simple \<and> test_valid_topic_filter_single_wildcard \<and>
   test_valid_topic_filter_multi_wildcard \<and> test_invalid_topic_filter_empty \<and>
   test_invalid_topic_filter_hash_not_at_end \<and> test_exact_match \<and>
   test_single_level_wildcard \<and> test_multi_level_wildcard \<and> test_remove_subscription \<and>
   test_no_match"
  by (simp add: decoder_tests decode_connect_test decode_publish_test encoder_tests
      topic_filter_tests tree_tests)

end
