(* ===== verification/Spec2Isabelle.thy ===== *)
theory Spec2Isabelle
  imports Delivery Takeover Progress Unique_Ids Races Startup Unit_Tests
begin

text \<open>
  A model of rustquitto, an MQTT 3.1.1 broker in Rust, and the theorems that make it correct.

  The program. Clients connect over TCP (\<open>src/src/server/tcp.rs\<close>) or WebSocket
  (\<open>src/src/server/ws.rs\<close>). Bytes are decoded into packets
  (\<open>src/src/protocol/decode.rs\<close>), which a server hands to the shared broker
  (\<open>src/src/broker/mod.rs\<close>). The broker keeps the registered sessions
  (\<open>src/src/broker/session.rs\<close>) and a tree of subscriptions
  (\<open>src/src/broker/subscriptions.rs\<close>). What it sends to a client goes through the
  channel of the client's session; the connection that created the session takes packets from
  it, encodes them (\<open>src/src/protocol/encode.rs\<close>) and writes them.

  The theories, in the order in which they build on each other:

  \<^item> \<open>Prelude\<close>: bytes, Rust strings as UTF-8 byte lists, big-endian numbers, fallible
    readers, and the interfaces the proofs share: prefix codecs, loops over a codec, invariants
    of runs and of step relations.
  \<^item> \<open>Protocol_Types\<close> (\<open>types.rs\<close>, \<open>error.rs\<close>): every type of the protocol with
    its numeric codes, the errors, and well-formedness of packets.
  \<^item> \<open>Decode\<close>, \<open>Encode\<close>: one definition per function of the two files. A cursor
    \<open>&mut &[u8]\<close> is the list of the bytes left, a \<open>BytesMut\<close> the list of the bytes
    written. \<open>Wire_Format\<close> gives the layout of every packet and proves the round trips,
    the soundness of the decoder and the exact behaviour of the remaining length.
  \<^item> \<open>Topic_Filters\<close> (\<open>is_valid_topic_filter\<close> of \<open>broker/mod.rs\<close>): the check
    equals the rule of the standard; matching of filters and topics as specification.
  \<^item> \<open>Subscriptions\<close>: the tree, the interface \<open>subscription_index\<close> it implements, and
    its refinement of a list of subscriptions.
  \<^item> \<open>Session\<close>: packet identifiers, the retention of QoS 1 messages, the QoS 2 handshake.
  \<^item> \<open>Broker\<close>: the handlers on the shared state, their exact effects and the invariant
    \<open>broker_inv\<close>.
  \<^item> \<open>Dispatch\<close>: \<open>handle_packet\<close> and \<open>handle_ws_packet\<close>, proved to agree, and the
    interface \<open>packet_handler\<close> the connection loops use.
  \<^item> \<open>Tcp_Server\<close>, \<open>Ws_Server\<close>: the loops of the two kinds of connection, one event of
    \<open>tokio::select!\<close> or of the WebSocket stream per step.
  \<^item> \<open>Takeover\<close>: a client that connects again while its old connection is open, and what
    the end of the old connection does to the new one.
  \<^item> \<open>Views\<close>: the channels (\<open>recv_from_session\<close> of both servers) and what a connection
    shows to the outside: session, receiver and output; the invariant of all views.
  \<^item> \<open>Tasks\<close>: tasks as sequences of critical sections with a result, pools of tasks in any
    interleaving, protocols that every section of a task obeys, and the interface
    \<open>pool_protocol\<close> for what a pool of such tasks keeps. It is interpreted for the invariant
    of the broker, for the bound on the sections and for the packet identifiers.
  \<^item> \<open>Broker_Tasks\<close>: every handler of the broker, \<open>handle_packet\<close> and a whole connection
    as tasks, proved to refine the handlers taken as one step.
  \<^item> \<open>Server_Tasks\<close>: one iteration of the loop of a connection of either transport as a task,
    which, when nothing interrupts it, is the step of \<open>Tcp_Server\<close> or \<open>Ws_Server\<close>.
  \<^item> \<open>Interleaving\<close>: the invariant, the deliveries of a publish and the answers to requests
    when connections interleave between their critical sections. \<open>Progress\<close>: a bound on the
    critical sections of any interleaving. \<open>Unique_Ids\<close>: packet identifiers of concurrent publishers.
    \<open>Races\<close>: the two interleavings with an outcome of their own.
  \<^item> \<open>Lock_System\<close>: the whole server with critical sections as steps: reads, sections of any
    connection and output interleave. The invariant, the exactness of the output and the
    separation of connections hold in every reachable state, and delivery cannot get stuck.
  \<^item> \<open>Delivery\<close>: a message from the bytes of its PUBLISH to the bytes a subscriber reads, and
    the errors a TCP connection can end in.
  \<^item> \<open>Startup\<close> (\<open>config.rs\<close>, \<open>main.rs\<close>, the two \<open>start\<close> functions): configuration,
    listening, and the end of the program.
  \<^item> \<open>Unit_Tests\<close>: the repository's own unit tests, which hold of the model.

  Correspondence. Definitions have the names of the Rust functions; where a name is taken the
  module is put before it (\<open>tree_add\<close>, \<open>session_puback\<close>, \<open>encode_connack\<close>).
  Structs are records whose fields carry a prefix (\<open>pp_\<close> for \<open>PublishPacket\<close>,
  \<open>se_\<close> for \<open>Session\<close>), enums are datatypes, \<open>Result\<close> is a sum with the error on
  the left. \<open>u8\<close> and \<open>u16\<close> are words, so the packet identifier wraps as
  \<open>AtomicU16::fetch_add\<close> does. \<open>usize\<close> is \<open>nat\<close>; the lengths the decoder
  computes are below 2 to the 28. An \<open>Arc<Session>\<close> is a reference into the heap of the
  broker state.

  The runtime. Sends, \<open>try_lock\<close> and the choices of the scheduler belong to tokio. Every
  send is recorded in order with its channel; whether it succeeded and whether a
  \<open>try_lock\<close> got the lock is decided by an arbitrary environment, so the theorems hold for
  every outcome. What a socket returns is part of the event of a step. Channels are lossless
  and in order.

  Concurrency. In \<open>Broker\<close>, \<open>Dispatch\<close> and the two servers one call of a broker handler, and
  one iteration of a connection's loop, is one step. In \<open>Broker_Tasks\<close> and the theories on top
  of it a step is one critical section: what happens under one lock, in one operation of the
  \<open>DashMap\<close> or of the \<open>AtomicU16\<close>, in one \<open>try_lock\<close> or in one send. A task that is not
  interrupted is the step (\<open>alone_tcp_task\<close>, \<open>alone_ws_task\<close>, \<open>connection_task_refines\<close>), so
  the exact theorems about handlers describe what a handler does when no other task runs
  between its sections; what remains of them under interference is stated by
  \<open>publish_interleaved\<close>, \<open>requests_answered_interleaved\<close> and the theorems of \<open>Lock_System\<close>, the
  one model of the whole server, whose connections interleave between their critical sections.
  The waiting for a lock is not modelled: a section is entered when its lock is free, so the
  theorems say nothing about deadlock or about how long a task waits.

  Termination. All definitions are total. The loops that consume input are recursive functions
  with the length of the input as measure; the traversal of the tree is measured by the levels
  left. There is no fuel. That the handlers of any pool of connections come to an end, within a
  number of critical sections given in closed form, is \<open>interleavings_terminate\<close>.

  Not modelled: log output, capacities of buffers, memory and stack limits, the waiting for
  locks, axum's router, upgrade and framing, clap's parser, and what the program does not have
  (retained messages, wills, retransmission, keep-alive timeouts). What the system returns for
  bind, accept and serve is an argument of \<open>Startup\<close>.

  Behaviour the theorems expose, where it departs from the standard or from the repository's
  documentation: cut fixed headers close a TCP connection (\<open>partial_read_exact\<close>), error
  exits of a TCP connection leave the session behind (\<open>tcp_connection_end\<close>), an old
  connection's end unregisters its successor (\<open>stale_disconnect_unregisters\<close>), filters
  also match below their topic (\<open>parent_subscription_matches\<close>), an UNSUBSCRIBE of an invalid
  filter removes a valid one (\<open>unsubscribe_truncates\<close>), repeated subscriptions and
  repeated QoS 2 messages are delivered repeatedly, all subscriptions get QoS 1, the identifier
  1 is issued twice when the counter wraps, an acknowledgement that overtakes the insertion of
  its message is lost (\<open>ack_overtakes_insert\<close>), a reconnection during the disconnect of the
  old connection loses its subscriptions (\<open>reconnect_loses_subscription\<close>), and the failure of
  one server ends the program with the exit of a success (\<open>main_ends\<close>).
\<close>

end
